(* ===== verification/Netd_Prelude.thy ===== *)
theory Netd_Prelude
  imports
    "HOL-Library.Word"
    "HOL-Library.List_Lexorder"
    "HOL-Library.Product_Lexorder"
    "HOL-Library.Char_ord"
begin

unbundle bit_operations_syntax

text \<open>
  What the components share: the machine integers and the clock, the parts of
  the Rust standard library the sources use (big-endian conversions, checked
  slices, complete chunks, UTF-8, ordered maps, the option minimum every
  deadline computation uses), and the generic lemmas on them.

  A Rust \<^verbatim>\<open>String\<close> is the list of its UTF-8 bytes, written as HOL characters (a HOL
  character is one byte), so that a literal reads as it does in the source and
  the derived order is Rust's.  An \<^verbatim>\<open>Instant\<close> and a \<^verbatim>\<open>Duration\<close> are nanoseconds.
  An \<^verbatim>\<open>Ipv4Addr\<close> and an \<^verbatim>\<open>Ipv6Addr\<close> are the words their octets spell in network
  order, which orders them as Rust does.  A \<^verbatim>\<open>BTreeMap\<close> is the list of its entries in
  ascending key order.
\<close>

named_theorems codec_simps \<open>big-endian conversions and slices on concrete data\<close>
named_theorems time_simps \<open>the units of the clock\<close>
named_theorems bt_simps \<open>lookups in ordered maps after an operation\<close>

type_synonym u8 = "8 word"
type_synonym u16 = "16 word"
type_synonym u32 = "32 word"
type_synonym u64 = "64 word"
type_synonym bytes = "8 word list"
type_synonym instant = nat
type_synonym duration = nat
type_synonym ipv4 = "32 word"
type_synonym ipv6 = "128 word"

section \<open>The clock\<close>

definition secs :: "nat \<Rightarrow> duration" where
  [time_simps]: "secs s = s * 1000000000"

definition millis :: "nat \<Rightarrow> duration" where
  [time_simps]: "millis m = m * 1000000"

definition as_secs :: "duration \<Rightarrow> nat" where
  [time_simps]: "as_secs d = d div 1000000000"

definition as_millis :: "duration \<Rightarrow> nat" where
  [time_simps]: "as_millis d = d div 1000000"

text \<open>\<^verbatim>\<open>Instant::saturating_duration_since\<close>: zero when the other instant is later.\<close>

definition saturating_duration_since :: "instant \<Rightarrow> instant \<Rightarrow> duration" where
  [time_simps]: "saturating_duration_since a b = a - b"

section \<open>Optional instants\<close>

text \<open>
  \<^verbatim>\<open>(Some(a), Some(b)) => Some(a.min(b)), (a, b) => a.or(b)\<close>, and equally the
  \<^verbatim>\<open>consider\<close> closures: the earlier of two deadlines, where none is no deadline.
\<close>

fun earlier :: "instant option \<Rightarrow> instant option \<Rightarrow> instant option" where
  "earlier None b = b"
| "earlier a None = a"
| "earlier (Some a) (Some b) = Some (min a b)"

definition later :: "instant option \<Rightarrow> instant \<Rightarrow> bool" where
  "later d now = (case d of None \<Rightarrow> True | Some t \<Rightarrow> now < t)"

lemma later_simps [simp]:
  "later None now" "later (Some t) now \<longleftrightarrow> now < t"
  by (simp_all add: later_def)

lemma earlier_None_right [simp]: "earlier a None = a"
  by (cases a) simp_all

lemma later_earlier [simp]: "later (earlier a b) now \<longleftrightarrow> later a now \<and> later b now"
  by (cases a; cases b) (auto simp: later_def)

lemma earlier_eq_None [simp]: "earlier a b = None \<longleftrightarrow> a = None \<and> b = None"
  by (cases a; cases b) auto

lemma later_foldl_earlier:
  "later (foldl (\<lambda>d x. earlier d (f x)) d xs) now \<longleftrightarrow> later d now \<and> (\<forall>x\<in>set xs. later (f x) now)"
  by (induction xs arbitrary: d) auto

lemma later_mono: "later d t \<Longrightarrow> s \<le> t \<Longrightarrow> later d s"
  by (auto simp: later_def split: option.splits)

section \<open>Big-endian integers\<close>

primrec nat_be :: "nat \<Rightarrow> nat \<Rightarrow> bytes" where
  "nat_be 0 k = []"
| "nat_be (Suc n) k = nat_be n (k div 256) @ [word_of_nat k]"

definition be_nat :: "bytes \<Rightarrow> nat" where
  "be_nat bs = foldl (\<lambda>a b. a * 256 + unat b) 0 bs"

lemma length_nat_be [simp]: "length (nat_be n k) = n"
  by (induction n arbitrary: k) simp_all

lemma be_nat_Nil [simp]: "be_nat [] = 0"
  by (simp add: be_nat_def)

lemma be_nat_snoc [simp]: "be_nat (bs @ [b]) = be_nat bs * 256 + unat b"
  by (simp add: be_nat_def)

lemma unat_u8_less [simp]: "unat (b :: u8) < 256"
  using unsigned_less [of b, where ?'a = nat] by simp

lemma be_nat_bound: "be_nat bs < 256 ^ length bs"
proof (induction bs rule: rev_induct)
  case Nil
  then show ?case by simp
next
  case (snoc b bs)
  then have "Suc (be_nat bs) * 256 \<le> 256 ^ length bs * 256"
    by (intro mult_le_mono1) simp
  moreover have "unat b < 256" by simp
  ultimately show ?case by (simp only: be_nat_snoc length_append_singleton power_Suc2 mult_Suc)
qed

lemma be_nat_nat_be: "be_nat (nat_be n k) = k mod 256 ^ n"
proof (induction n arbitrary: k)
  case 0
  then show ?case by simp
next
  case (Suc n)
  have "k mod 256 ^ Suc n = (k div 256) mod 256 ^ n * 256 + k mod 256"
    by (metis mod_mult2_eq power_Suc mult.commute)
  with Suc show ?case by (simp add: unat_of_nat)
qed

lemma nat_be_be_nat: "nat_be (length bs) (be_nat bs) = bs"
proof (induction bs rule: rev_induct)
  case Nil
  then show ?case by simp
next
  case (snoc b bs)
  have "(be_nat bs * 256 + unat b) div 256 = be_nat bs"
    by simp
  moreover have "word_of_nat (be_nat bs * 256 + unat b) = b"
    using word_of_nat_eq_iff [where ?'a = 8, of "be_nat bs * 256 + unat b" "unat b"]
    by (simp add: take_bit_eq_mod)
  ultimately show ?case using snoc by simp
qed

lemma nat_be_numeral [codec_simps]:
  "nat_be (numeral v) k = nat_be (pred_numeral v) (k div 256) @ [word_of_nat k]"
  by (simp only: numeral_eq_Suc nat_be.simps(2))

lemma be_nat_Cons_eval [codec_simps]:
  "be_nat (b # bs) = foldl (\<lambda>a b. a * 256 + unat b) (unat b) bs"
  by (simp add: be_nat_def)

definition be16 :: "u16 \<Rightarrow> bytes" where
  [codec_simps]: "be16 w = nat_be 2 (unat w)"

definition be32 :: "u32 \<Rightarrow> bytes" where
  [codec_simps]: "be32 w = nat_be 4 (unat w)"

definition u16_of :: "bytes \<Rightarrow> u16" where
  [codec_simps]: "u16_of bs = word_of_nat (be_nat bs)"

definition u32_of :: "bytes \<Rightarrow> u32" where
  [codec_simps]: "u32_of bs = word_of_nat (be_nat bs)"

definition le32 :: "u32 \<Rightarrow> bytes" where
  [codec_simps]: "le32 w = rev (be32 w)"

definition u32_of_le :: "bytes \<Rightarrow> u32" where
  [codec_simps]: "u32_of_le bs = u32_of (rev bs)"

lemma length_be [simp]: "length (be16 w) = 2" "length (be32 x) = 4" "length (le32 x) = 4"
  by (simp_all add: be16_def be32_def le32_def)

lemma u16_of_be16 [simp]: "u16_of (be16 w) = w"
proof -
  have "unat w < 256 ^ 2" using unsigned_less [of w, where ?'a = nat] by simp
  then show ?thesis by (simp add: u16_of_def be16_def be_nat_nat_be)
qed

lemma u32_of_be32 [simp]: "u32_of (be32 w) = w"
proof -
  have "unat w < 256 ^ 4" using unsigned_less [of w, where ?'a = nat] by simp
  then show ?thesis by (simp add: u32_of_def be32_def be_nat_nat_be)
qed

lemma u32_of_le_le32 [simp]: "u32_of_le (le32 w) = w"
  by (simp add: u32_of_le_def le32_def)

lemma be16_u16_of: "length bs = 2 \<Longrightarrow> be16 (u16_of bs) = bs"
  using be_nat_bound [of bs] nat_be_be_nat [of bs]
  by (simp add: u16_of_def be16_def unat_of_nat)

lemma be32_u32_of: "length bs = 4 \<Longrightarrow> be32 (u32_of bs) = bs"
  using be_nat_bound [of bs] nat_be_be_nat [of bs]
  by (simp add: u32_of_def be32_def unat_of_nat)

section \<open>Internet addresses\<close>

definition octets4 :: "ipv4 \<Rightarrow> bytes" where
  [codec_simps]: "octets4 a = be32 a"

definition ipv4_of :: "bytes \<Rightarrow> ipv4" where
  [codec_simps]: "ipv4_of bs = u32_of bs"

definition octets6 :: "ipv6 \<Rightarrow> bytes" where
  [codec_simps]: "octets6 a = nat_be 16 (unat a)"

definition ipv6_of :: "bytes \<Rightarrow> ipv6" where
  [codec_simps]: "ipv6_of bs = word_of_nat (be_nat bs)"

lemma length_octets [simp]: "length (octets4 a) = 4" "length (octets6 b) = 16"
  by (simp_all add: octets4_def octets6_def)

lemma ipv4_of_octets4 [simp]: "ipv4_of (octets4 a) = a"
  by (simp add: ipv4_of_def octets4_def)

lemma octets4_ipv4_of: "length bs = 4 \<Longrightarrow> octets4 (ipv4_of bs) = bs"
  by (simp add: ipv4_of_def octets4_def be32_u32_of)

lemma ipv6_of_octets6 [simp]: "ipv6_of (octets6 a) = a"
proof -
  have "unat a < 256 ^ 16" using unsigned_less [of a, where ?'a = nat] by simp
  then show ?thesis by (simp add: ipv6_of_def octets6_def be_nat_nat_be)
qed

lemma octets6_ipv6_of: "length bs = 16 \<Longrightarrow> octets6 (ipv6_of bs) = bs"
  using be_nat_bound [of bs] nat_be_be_nat [of bs]
  by (simp add: ipv6_of_def octets6_def unat_of_nat)

definition v4_is_loopback :: "ipv4 \<Rightarrow> bool" where
  "v4_is_loopback a = (drop_bit 24 a = 127)"

definition v6_is_unspecified :: "ipv6 \<Rightarrow> bool" where
  "v6_is_unspecified a = (a = 0)"

definition v6_is_loopback :: "ipv6 \<Rightarrow> bool" where
  "v6_is_loopback a = (a = 1)"

definition v6_is_multicast :: "ipv6 \<Rightarrow> bool" where
  "v6_is_multicast a = (drop_bit 120 a = 255)"

definition segment0 :: "ipv6 \<Rightarrow> u16" where
  "segment0 a = ucast (drop_bit 112 a)"

section \<open>Slices and chunks\<close>

text \<open>\<^verbatim>\<open>v.get(i..j)\<close>: none when the range does not lie in the slice.\<close>

definition slice_get :: "'a list \<Rightarrow> nat \<Rightarrow> nat \<Rightarrow> 'a list option" where
  [codec_simps]: "slice_get v i j = (if i \<le> j \<and> j \<le> length v then Some (take (j - i) (drop i v)) else None)"

text \<open>\<^verbatim>\<open>v[i..j]\<close> where the code has checked that the range lies in the slice.\<close>

definition slice :: "'a list \<Rightarrow> nat \<Rightarrow> nat \<Rightarrow> 'a list" where
  [codec_simps]: "slice v i j = take (j - i) (drop i v)"

lemma length_slice [simp]: "j \<le> length v \<Longrightarrow> length (slice v i j) = j - i"
  by (simp add: slice_def)

lemma drop_not_Nil: "drop n xs \<noteq> [] \<Longrightarrow> n < length xs"
  by (metis drop_all leI)

lemma slice_Cons [codec_simps]: "0 < i \<Longrightarrow> slice (x # xs) i j = slice xs (i - 1) (j - 1)"
  by (cases i; cases j) (simp_all add: slice_def)

lemma slice_skip: "length xs \<le> i \<Longrightarrow> slice (xs @ ys) i j = slice ys (i - length xs) (j - length xs)"
  by (simp add: slice_def)

lemma slice_here_n: "n = length xs \<Longrightarrow> slice (xs @ ys) 0 n = xs"
  by (simp add: slice_def)

text \<open>\<^verbatim>\<open>v.as_chunks::<N>().0\<close>: the complete chunks, a shorter tail left out.\<close>

function as_chunks :: "nat \<Rightarrow> 'a list \<Rightarrow> 'a list list" where
  "as_chunks n v = (if 0 < n \<and> n \<le> length v then take n v # as_chunks n (drop n v) else [])"
  by pat_completeness auto
termination
  by (relation "measure (\<lambda>(n, v). length v)") auto

declare as_chunks.simps [simp del]

lemma as_chunks_lengths: "c \<in> set (as_chunks n v) \<Longrightarrow> length c = n"
proof (induction n v rule: as_chunks.induct)
  case (1 n v)
  then show ?case by (subst (asm) (2) as_chunks.simps) (auto split: if_splits)
qed

lemma length_as_chunks: "0 < n \<Longrightarrow> length (as_chunks n v) = length v div n"
proof (induction n v rule: as_chunks.induct)
  case (1 n v)
  then show ?case by (subst as_chunks.simps) (auto simp: le_div_geq)
qed

lemma concat_as_chunks: "0 < n \<Longrightarrow> n dvd length v \<Longrightarrow> concat (as_chunks n v) = v"
proof (induction n v rule: as_chunks.induct)
  case (1 n v)
  then show ?case
    by (subst as_chunks.simps) (auto simp: dvd_imp_le not_le)
qed

end
