(* ===== verification/Rust_String.thy ===== *)
theory Rust_String
  imports Netd_Prelude
begin

text \<open>
  Rust strings and the text functions of the standard library the sources
  call: UTF-8 validation (\<^verbatim>\<open>from_utf8\<close>) and its lossy variant, the ASCII classes and
  lower-casing, \<^verbatim>\<open>join\<close>.  A string is the list of its UTF-8 bytes.
\<close>

type_synonym rstring = string

section \<open>Bytes and characters\<close>

definition chr :: "u8 \<Rightarrow> char" where
  "chr b = char_of (unat b)"

definition ord :: "char \<Rightarrow> u8" where
  "ord c = word_of_nat (of_char c)"

definition as_bytes :: "rstring \<Rightarrow> bytes" where
  "as_bytes s = map ord s"

definition of_bytes :: "bytes \<Rightarrow> rstring" where
  "of_bytes bs = map chr bs"

lemma ord_chr [simp]: "ord (chr b) = b"
  by (simp add: ord_def chr_def)

lemma chr_ord [simp]: "chr (ord c) = c"
proof -
  have "(of_char c :: nat) < 256"
    using nat_of_char_less_256 [of c] by simp
  then show ?thesis by (simp add: ord_def chr_def unat_of_nat)
qed

lemma as_bytes_of_bytes [simp]: "as_bytes (of_bytes bs) = bs"
  by (simp add: as_bytes_def of_bytes_def comp_def)

lemma of_bytes_as_bytes [simp]: "of_bytes (as_bytes s) = s"
  by (simp add: as_bytes_def of_bytes_def comp_def)

lemma length_as_bytes [simp]: "length (as_bytes s) = length s"
  by (simp add: as_bytes_def)

lemma length_of_bytes [simp]: "length (of_bytes bs) = length bs"
  by (simp add: of_bytes_def)

section \<open>ASCII\<close>

definition ascii_code :: "char \<Rightarrow> nat" where
  "ascii_code c = of_char c"

definition is_ascii_digit :: "char \<Rightarrow> bool" where
  "is_ascii_digit c = (48 \<le> ascii_code c \<and> ascii_code c \<le> 57)"

definition is_ascii_uppercase :: "char \<Rightarrow> bool" where
  "is_ascii_uppercase c = (65 \<le> ascii_code c \<and> ascii_code c \<le> 90)"

definition is_ascii_lowercase :: "char \<Rightarrow> bool" where
  "is_ascii_lowercase c = (97 \<le> ascii_code c \<and> ascii_code c \<le> 122)"

definition is_ascii_alphanumeric :: "char \<Rightarrow> bool" where
  "is_ascii_alphanumeric c = (is_ascii_digit c \<or> is_ascii_uppercase c \<or> is_ascii_lowercase c)"

definition is_ascii_hexdigit :: "char \<Rightarrow> bool" where
  "is_ascii_hexdigit c =
     (is_ascii_digit c \<or> 65 \<le> ascii_code c \<and> ascii_code c \<le> 70 \<or> 97 \<le> ascii_code c \<and> ascii_code c \<le> 102)"

text \<open>Space, tab, line feed, form feed, carriage return.\<close>

definition is_ascii_whitespace :: "char \<Rightarrow> bool" where
  "is_ascii_whitespace c = (ascii_code c \<in> {32, 9, 10, 12, 13})"

text \<open>\<^verbatim>\<open>u8::is_ascii_graphic\<close>: \<^verbatim>\<open>!\<close> to \<^verbatim>\<open>~\<close>.\<close>

definition is_ascii_graphic :: "u8 \<Rightarrow> bool" where
  "is_ascii_graphic b = (33 \<le> b \<and> b \<le> 126)"

definition to_ascii_lower :: "char \<Rightarrow> char" where
  "to_ascii_lower c = (if is_ascii_uppercase c then char_of (ascii_code c + 32) else c)"

definition to_ascii_lowercase :: "rstring \<Rightarrow> rstring" where
  "to_ascii_lowercase s = map to_ascii_lower s"

definition eq_ignore_ascii_case :: "rstring \<Rightarrow> rstring \<Rightarrow> bool" where
  "eq_ignore_ascii_case s t = (to_ascii_lowercase s = to_ascii_lowercase t)"

lemma length_to_ascii_lowercase [simp]: "length (to_ascii_lowercase s) = length s"
  by (simp add: to_ascii_lowercase_def)

lemma not_uppercase_to_ascii_lower [simp]: "\<not> is_ascii_uppercase (to_ascii_lower c)"
  by (auto simp: to_ascii_lower_def is_ascii_uppercase_def ascii_code_def)

lemma to_ascii_lower_idem [simp]: "to_ascii_lower (to_ascii_lower c) = to_ascii_lower c"
  by (simp add: to_ascii_lower_def [of "to_ascii_lower c"])

lemma to_ascii_lowercase_idem [simp]:
  "to_ascii_lowercase (to_ascii_lowercase s) = to_ascii_lowercase s"
  by (simp add: to_ascii_lowercase_def)

lemma to_ascii_lowercase_no_upper: "c \<in> set (to_ascii_lowercase s) \<Longrightarrow> \<not> is_ascii_uppercase c"
  by (auto simp: to_ascii_lowercase_def)

section \<open>UTF-8\<close>

definition byte_in :: "u8 \<Rightarrow> u8 \<Rightarrow> u8 \<Rightarrow> bool" where
  "byte_in lo hi b = (lo \<le> b \<and> b \<le> hi)"

text \<open>
  The first step of the standard library's decoder: whether the bytes start with a
  character, and how many bytes it, or the invalid sequence to replace, takes.
  A byte past the end reads as 0, which continues nothing.
\<close>

definition utf8_step :: "bytes \<Rightarrow> bool \<times> nat" where
  "utf8_step bs =
     (let at = (\<lambda>i. if i < length bs then bs ! i else 0);
          cont = byte_in 0x80 0xBF;
          b = at 0
      in if b < 0x80 then (True, 1)
         else if byte_in 0xC2 0xDF b then
           (if cont (at 1) then (True, 2) else (False, 1))
         else if byte_in 0xE0 0xEF b then
           (if \<not> (if b = 0xE0 then byte_in 0xA0 0xBF (at 1)
                   else if b = 0xED then byte_in 0x80 0x9F (at 1)
                   else cont (at 1)) then (False, 1)
            else if cont (at 2) then (True, 3) else (False, 2))
         else if byte_in 0xF0 0xF4 b then
           (if \<not> (if b = 0xF0 then byte_in 0x90 0xBF (at 1)
                   else if b = 0xF4 then byte_in 0x80 0x8F (at 1)
                   else cont (at 1)) then (False, 1)
            else if \<not> cont (at 2) then (False, 2)
            else if cont (at 3) then (True, 4) else (False, 3))
         else (False, 1))"

lemma utf8_step_pos: "0 < snd (utf8_step bs)"
  by (simp add: utf8_step_def Let_def)

text \<open>\<^verbatim>\<open>String::from_utf8_lossy\<close>: U+FFFD for each invalid sequence.\<close>

function from_utf8_lossy :: "bytes \<Rightarrow> rstring" where
  "from_utf8_lossy bs =
     (if bs = [] then []
      else (let (ok, n) = utf8_step bs
            in (if ok then of_bytes (take n bs) else of_bytes [0xEF, 0xBF, 0xBD])
               @ from_utf8_lossy (drop n bs)))"
  by pat_completeness auto
termination
proof (relation "measure length")
  fix bs :: bytes and x :: "bool \<times> nat" and ok n
  assume "bs \<noteq> []" "x = utf8_step bs" "(ok, n) = x"
  then show "(drop n bs, bs) \<in> measure length"
    using utf8_step_pos [of bs] by (cases "utf8_step bs") auto
qed simp

text \<open>\<^verbatim>\<open>std::str::from_utf8(..).ok()\<close>.\<close>

function from_utf8 :: "bytes \<Rightarrow> rstring option" where
  "from_utf8 bs =
     (if bs = [] then Some []
      else (let (ok, n) = utf8_step bs
            in if ok then map_option ((@) (of_bytes (take n bs))) (from_utf8 (drop n bs))
               else None))"
  by pat_completeness auto
termination
proof (relation "measure length")
  fix bs :: bytes and x :: "bool \<times> nat" and ok n
  assume "bs \<noteq> []" "x = utf8_step bs" "(ok, n) = x"
  then show "(drop n bs, bs) \<in> measure length"
    using utf8_step_pos [of bs] by (cases "utf8_step bs") auto
qed simp

declare from_utf8_lossy.simps [simp del] from_utf8.simps [simp del]

text \<open>Text that validates is its own bytes, and the lossy reading keeps it as it is.\<close>

lemma from_utf8_bytes: "from_utf8 bs = Some s \<Longrightarrow> s = of_bytes bs"
proof (induction bs arbitrary: s rule: from_utf8.induct)
  case (1 bs)
  show ?case
  proof (cases "bs = []")
    case True
    with 1(2) show ?thesis by (subst (asm) from_utf8.simps) (simp add: of_bytes_def)
  next
    case False
    obtain ok n where step: "utf8_step bs = (ok, n)" by force
    from 1(2) False step obtain t where "ok" "from_utf8 (drop n bs) = Some t"
      and s: "s = of_bytes (take n bs) @ t"
      by (subst (asm) from_utf8.simps) (auto split: if_splits)
    with 1(1) False step have "t = of_bytes (drop n bs)" by metis
    with s show ?thesis by (simp add: of_bytes_def flip: map_append)
  qed
qed

lemma from_utf8_lossy_valid: "from_utf8 bs = Some s \<Longrightarrow> from_utf8_lossy bs = s"
proof (induction bs arbitrary: s rule: from_utf8.induct)
  case (1 bs)
  show ?case
  proof (cases "bs = []")
    case True
    with 1(2) show ?thesis by (simp add: from_utf8.simps from_utf8_lossy.simps)
  next
    case False
    obtain ok n where step: "utf8_step bs = (ok, n)" by force
    from 1(2) False step obtain t where "ok" and rest: "from_utf8 (drop n bs) = Some t"
      and s: "s = of_bytes (take n bs) @ t"
      by (subst (asm) from_utf8.simps) (auto split: if_splits)
    have "from_utf8_lossy (drop n bs) = t"
      using 1(1) False step rest \<open>ok\<close> by metis
    with s False step \<open>ok\<close> show ?thesis by (subst from_utf8_lossy.simps) simp
  qed
qed

lemma from_utf8_ascii: "\<forall>b\<in>set bs. b < 0x80 \<Longrightarrow> from_utf8 bs = Some (of_bytes bs)"
proof (induction bs)
  case Nil
  then show ?case by (simp add: from_utf8.simps of_bytes_def)
next
  case (Cons b bs)
  then have "utf8_step (b # bs) = (True, 1)" by (simp add: utf8_step_def)
  with Cons show ?case by (subst from_utf8.simps) (simp add: of_bytes_def)
qed

lemma from_utf8_lossy_ascii: "\<forall>b\<in>set bs. b < 0x80 \<Longrightarrow> from_utf8_lossy bs = of_bytes bs"
  by (rule from_utf8_lossy_valid) (rule from_utf8_ascii)

lemma graphic_ascii: "is_ascii_graphic b \<Longrightarrow> b < 0x80"
  by (auto simp: is_ascii_graphic_def word_le_nat_alt word_less_nat_alt)

section \<open>Joining\<close>

text \<open>\<^verbatim>\<open>labels.join(".")\<close>.\<close>

fun join_with :: "rstring \<Rightarrow> rstring list \<Rightarrow> rstring" where
  "join_with sep [] = []"
| "join_with sep [s] = s"
| "join_with sep (s # t # ss) = s @ sep @ join_with sep (t # ss)"

end
