(* ===== verification/Dns_Names.thy ===== *)
theory Dns_Names
  imports Rust_String
begin

text \<open>
  Names in DNS wire form: counted labels ended by a zero byte.  \<^verbatim>\<open>domain_list\<close> is the
  decoder that \<^verbatim>\<open>ndp/src/packet.rs\<close> and \<^verbatim>\<open>dhcp6/src/lib.rs\<close> both carry, word for word, for the
  search lists of RFC 8106 and RFC 8415 (no compression).
\<close>

abbreviation (input) MAX_DOMAINS :: nat where "MAX_DOMAINS \<equiv> 16"

text \<open>The inner loop: one name and what follows it, or none where the code returns.\<close>

fun domain_name :: "bytes \<Rightarrow> rstring \<Rightarrow> (rstring \<times> bytes) option" where
  "domain_name [] name = None"
| "domain_name (len # rest) name =
     (if len = 0 then Some (name, rest)
      else if 63 < len \<or> length rest < unat len \<or> 253 < length name + unat len + 1 then None
      else if \<not> list_all is_ascii_graphic (take (unat len) rest) then None
      else domain_name (drop (unat len) rest)
             ((if name = [] then [] else name @ ''.'')
              @ to_ascii_lowercase (from_utf8_lossy (take (unat len) rest))))"

declare domain_name.simps(2) [simp del]

lemma domain_name_shorter: "domain_name bytes name = Some (n, rest) \<Longrightarrow> length rest < length bytes"
proof (induction bytes name rule: domain_name.induct)
  case (2 len rest' name)
  show ?case
  proof (cases "len = 0")
    case True
    with "2.prems" show ?thesis by (simp add: domain_name.simps)
  next
    case False
    with "2.IH" "2.prems" show ?thesis
      by (simp only: domain_name.simps(2) if_False split: if_splits) fastforce+
  qed
qed simp

function domain_names :: "bytes \<Rightarrow> rstring list \<Rightarrow> rstring list" where
  "domain_names bytes out =
     (if bytes = [] \<or> MAX_DOMAINS \<le> length out then out
      else (case domain_name bytes [] of
              None \<Rightarrow> out
            | Some (name, rest) \<Rightarrow>
                let out' = (if name = [] then out else out @ [name])
                in if list_all (\<lambda>b. b = 0) rest then out' else domain_names rest out'))"
  by pat_completeness auto
termination
  by (relation "measure (\<lambda>(bytes, out). length bytes)") (auto dest: domain_name_shorter)

declare domain_names.simps [simp del]

definition domain_list :: "bytes \<Rightarrow> rstring list" where
  "domain_list bytes = domain_names bytes []"

section \<open>What it accepts\<close>

text \<open>A search domain as the resolver may be given it.\<close>

definition domain_ok :: "rstring \<Rightarrow> bool" where
  "domain_ok n = (length n \<le> 253 \<and> (\<forall>c\<in>set n. is_ascii_graphic (ord c) \<and> \<not> is_ascii_uppercase c))"

lemma graphic_lower:
  assumes "is_ascii_graphic (ord c)"
  shows "is_ascii_graphic (ord (to_ascii_lower c))"
proof -
  have "(of_char c :: nat) < 256" using nat_of_char_less_256 [of c] by simp
  with assms show ?thesis
    by (auto simp: is_ascii_graphic_def to_ascii_lower_def is_ascii_uppercase_def ascii_code_def ord_def
        word_le_nat_alt unat_of_nat)
qed

lemma label_text:
  assumes "list_all is_ascii_graphic bs"
  shows "from_utf8_lossy bs = of_bytes bs"
    "\<forall>c\<in>set (to_ascii_lowercase (of_bytes bs)). is_ascii_graphic (ord c) \<and> \<not> is_ascii_uppercase c"
proof -
  show "from_utf8_lossy bs = of_bytes bs"
    using assms by (intro from_utf8_lossy_ascii) (auto simp: list_all_iff graphic_ascii)
  show "\<forall>c\<in>set (to_ascii_lowercase (of_bytes bs)). is_ascii_graphic (ord c) \<and> \<not> is_ascii_uppercase c"
    using assms by (auto simp: to_ascii_lowercase_def of_bytes_def list_all_iff intro: graphic_lower)
qed

lemma dot_ok: "is_ascii_graphic (ord CHR ''.'')" "\<not> is_ascii_uppercase CHR ''.''"
  by (simp_all add: is_ascii_graphic_def ord_def is_ascii_uppercase_def ascii_code_def)

lemma domain_name_ok:
  "domain_name bytes name = Some (n, rest) \<Longrightarrow> domain_ok name \<Longrightarrow> domain_ok n"
proof (induction bytes name rule: domain_name.induct)
  case (2 len rest' name)
  let ?label = "take (unat len) rest'"
  let ?name = "(if name = [] then [] else name @ ''.'') @ to_ascii_lowercase (from_utf8_lossy ?label)"
  show ?case
  proof (cases "len = 0")
    case True
    with "2.prems" show ?thesis by (simp add: domain_name.simps)
  next
    case False
    with "2.prems"(1)
    have ok: "\<not> (63 < len \<or> length rest' < unat len \<or> 253 < length name + unat len + 1)"
      "list_all is_ascii_graphic ?label"
      and rec: "domain_name (drop (unat len) rest') ?name = Some (n, rest)"
      by (simp only: domain_name.simps(2) if_False split: if_splits; simp)+
    have "domain_ok ?name"
      using "2.prems"(2) ok(1) label_text [OF ok(2)] dot_ok
      by (auto simp: domain_ok_def)
    with "2.IH" [OF False ok(1)] ok(2) rec show ?thesis by simp
  qed
qed simp

lemma domain_ok_Nil [simp]: "domain_ok []"
  by (simp add: domain_ok_def)

lemma domain_names_ok:
  "\<forall>n\<in>set out. n \<noteq> [] \<and> domain_ok n \<Longrightarrow> length out \<le> MAX_DOMAINS \<Longrightarrow>
   (\<forall>n\<in>set (domain_names bytes out). n \<noteq> [] \<and> domain_ok n) \<and> length (domain_names bytes out) \<le> MAX_DOMAINS"
proof (induction bytes out rule: domain_names.induct)
  case (1 bytes out)
  show ?case
  proof (cases "bytes = [] \<or> MAX_DOMAINS \<le> length out \<or> domain_name bytes [] = None")
    case True
    with "1.prems" show ?thesis by (subst (1 2) domain_names.simps) auto
  next
    case False
    then obtain name rest where n: "domain_name bytes [] = Some (name, rest)" by auto
    let ?out = "if name = [] then out else out @ [name]"
    have eq: "domain_names bytes out =
        (if list_all (\<lambda>b. b = 0) rest then ?out else domain_names rest ?out)"
      using False n by (subst domain_names.simps) (simp add: Let_def)
    have "domain_ok name" using domain_name_ok [OF n] by simp
    then have out: "\<forall>n\<in>set ?out. n \<noteq> [] \<and> domain_ok n" "length ?out \<le> MAX_DOMAINS"
      using "1.prems" False by simp_all
    have c: "\<not> (bytes = [] \<or> MAX_DOMAINS \<le> length out)" using False by blast
    have rec: "\<not> list_all (\<lambda>b. b = 0) rest \<Longrightarrow> (\<forall>n\<in>set (domain_names rest ?out). n \<noteq> [] \<and> domain_ok n)
        \<and> length (domain_names rest ?out) \<le> MAX_DOMAINS"
      by (rule "1.IH" [OF c n refl refl _ out])
    show ?thesis
    proof (cases "list_all (\<lambda>b. b = 0) rest")
      case True
      then show ?thesis using out unfolding eq by (simp only: if_True)
    next
      case False
      then have e: "domain_names bytes out = domain_names rest ?out" unfolding eq by (simp only: if_False)
      show ?thesis unfolding e by (rule rec [OF False])
    qed
  qed
qed

lemma domain_list_ok:
  "(\<forall>n\<in>set (domain_list bytes). n \<noteq> [] \<and> domain_ok n) \<and> length (domain_list bytes) \<le> MAX_DOMAINS"
  unfolding domain_list_def by (rule domain_names_ok) simp_all

section \<open>Names on the wire\<close>

text \<open>The wire form of a name, without compression: counted labels and a zero.\<close>

definition wire_name :: "bytes list \<Rightarrow> bytes" where
  "wire_name ls = concat (map (\<lambda>l. word_of_nat (length l) # l) ls) @ [0]"

definition wf_label :: "bytes \<Rightarrow> bool" where
  "wf_label l = (l \<noteq> [] \<and> length l < 64)"

lemma label_length:
  assumes "wf_label l"
  shows "(word_of_nat (length l) :: u8) \<noteq> 0" "unat (word_of_nat (length l) :: u8) = length l"
    "(word_of_nat (length l) :: u8) AND 0xC0 \<noteq> 0xC0"
proof -
  let ?w = "word_of_nat (length l) :: u8"
  show u: "unat ?w = length l"
    using assms by (simp add: wf_label_def unat_of_nat)
  then show "?w \<noteq> 0" using assms by (auto simp: wf_label_def)
  have "\<not> bit (unat ?w) 6"
    using assms unfolding u by (simp add: wf_label_def bit_iff_odd)
  then have "\<not> bit ?w 6" by (simp add: bit_unsigned_iff)
  moreover have "bit (0xC0 :: u8) 6" by simp
  ultimately show "?w AND 0xC0 \<noteq> 0xC0" by (metis bit_and_iff)
qed

text \<open>The text of a name whose labels are graphic ASCII: lower case, joined with dots.\<close>

definition name_text :: "bytes list \<Rightarrow> rstring" where
  "name_text ls = join_with ''.'' (map (\<lambda>l. to_ascii_lowercase (of_bytes l)) ls)"

definition wf_name :: "bytes list \<Rightarrow> bool" where
  "wf_name ls = (ls \<noteq> [] \<and> list_all (\<lambda>l. wf_label l \<and> list_all is_ascii_graphic l) ls
                 \<and> length (wire_name ls) \<le> 254)"

text \<open>Appending labels to a name read so far.\<close>

primrec extend_name :: "rstring \<Rightarrow> bytes list \<Rightarrow> rstring" where
  "extend_name name [] = name"
| "extend_name name (l # ls) =
     extend_name ((if name = [] then [] else name @ ''.'') @ to_ascii_lowercase (of_bytes l)) ls"

lemma length_wire_name_Cons: "length (wire_name (l # ls)) = Suc (length l + length (wire_name ls))"
  by (simp add: wire_name_def)

lemma domain_name_wire:
  "list_all (\<lambda>l. wf_label l \<and> list_all is_ascii_graphic l) ls \<Longrightarrow>
   length name + length (wire_name ls) \<le> 254 \<Longrightarrow>
   domain_name (wire_name ls @ rest) name = Some (extend_name name ls, rest)"
proof (induction ls arbitrary: name)
  case Nil
  then show ?case by (simp add: wire_name_def domain_name.simps)
next
  case (Cons l ls)
  let ?w = "word_of_nat (length l) :: u8"
  let ?name = "(if name = [] then [] else name @ ''.'') @ to_ascii_lowercase (of_bytes l)"
  have l: "wf_label l" "list_all is_ascii_graphic l" using Cons.prems(1) by simp_all
  have w: "wire_name (l # ls) @ rest = ?w # l @ wire_name ls @ rest" by (simp add: wire_name_def)
  have "1 \<le> length (wire_name ls)" by (simp add: wire_name_def)
  with Cons.prems(2) have fits: "length name + length l + 1 \<le> 253"
    "length ?name + length (wire_name ls) \<le> 254"
    by (auto simp: length_wire_name_Cons)
  have "\<not> 63 < ?w"
    using l(1) label_length(2) [OF l(1)] by (simp add: wf_label_def word_less_nat_alt)
  then have "domain_name (wire_name (l # ls) @ rest) name = domain_name (wire_name ls @ rest) ?name"
    using label_length(1,2) [OF l(1)] fits(1) l(2) label_text(1) [OF l(2)] unfolding w
    by (simp add: domain_name.simps)
  with Cons.IH [OF _ fits(2)] Cons.prems(1) show ?case by simp
qed

lemma join_with_append: "join_with sep ((s @ sep @ t) # ss) = s @ sep @ join_with sep (t # ss)"
  by (cases ss) simp_all

lemma extend_name_join:
  "name \<noteq> [] \<Longrightarrow> list_all wf_label ls \<Longrightarrow>
   extend_name name ls = join_with ''.'' (name # map (\<lambda>l. to_ascii_lowercase (of_bytes l)) ls)"
  by (induction ls arbitrary: name)
     (simp_all add: wf_label_def join_with_append [where sep = "''.''", simplified])

lemma extend_name_text:
  assumes "wf_name ls"
  shows "extend_name [] ls = name_text ls" "name_text ls \<noteq> []"
proof -
  obtain l ls' where ls: "ls = l # ls'" using assms by (cases ls) (auto simp: wf_name_def)
  have "of_bytes l \<noteq> []" "to_ascii_lowercase (of_bytes l) \<noteq> []" "list_all wf_label ls'"
    using assms unfolding ls
    by (auto simp: wf_name_def wf_label_def of_bytes_def to_ascii_lowercase_def list_all_iff)
  then show "extend_name [] ls = name_text ls" "name_text ls \<noteq> []"
    using extend_name_join [of "to_ascii_lowercase (of_bytes l)" ls']
    by (auto simp: ls name_text_def split: list.splits) (cases ls'; simp)+
qed

lemma wire_not_zeros:
  assumes "wf_name n"
  shows "\<not> list_all (\<lambda>b. b = 0) (wire_name n @ xs)"
proof -
  obtain l ls where "n = l # ls" "wf_label l" using assms by (cases n) (auto simp: wf_name_def)
  then show ?thesis using label_length(1) by (simp add: wire_name_def)
qed

lemma domain_names_wire:
  "\<forall>n\<in>set ns. wf_name n \<Longrightarrow> length out + length ns \<le> MAX_DOMAINS \<Longrightarrow> ns \<noteq> [] \<Longrightarrow>
   domain_names (concat (map wire_name ns) @ replicate k 0) out = out @ map name_text ns"
proof (induction ns arbitrary: out)
  case Nil
  then show ?case by simp
next
  case (Cons n ns)
  let ?rest = "concat (map wire_name ns) @ replicate k 0"
  have n: "wf_name n" using Cons.prems(1) by simp
  then have "domain_name (wire_name n @ ?rest) [] = Some (name_text n, ?rest)"
    using domain_name_wire [of n "[]" ?rest] by (simp add: wf_name_def extend_name_text [OF n])
  moreover have "wire_name n \<noteq> []" by (simp add: wire_name_def)
  ultimately have eq: "domain_names (concat (map wire_name (n # ns)) @ replicate k 0) out =
      (if list_all (\<lambda>b. b = 0) ?rest then out @ [name_text n] else domain_names ?rest (out @ [name_text n]))"
    using Cons.prems(2) extend_name_text(2) [OF n] by (subst domain_names.simps) (simp add: Let_def)
  show ?case
  proof (cases ns)
    case Nil
    then show ?thesis using eq by (simp add: list_all_iff)
  next
    case (Cons n' ns')
    have "\<not> list_all (\<lambda>b. b = 0) ?rest"
      using wire_not_zeros [of n'] Cons.prems(1) Cons by simp
    with eq Cons.IH [of "out @ [name_text n]"] Cons.prems Cons show ?thesis by simp
  qed
qed

lemma domain_list_wire:
  assumes "\<forall>n\<in>set ns. wf_name n" "length ns \<le> MAX_DOMAINS"
  shows "domain_list (concat (map wire_name ns) @ replicate k 0) = map name_text ns"
proof (cases ns)
  case Nil
  have "domain_list (replicate k 0) = []"
    by (cases k) (auto simp: domain_list_def domain_names.simps domain_name.simps list_all_iff)
  then show ?thesis using Nil by simp
next
  case (Cons n ns')
  with domain_names_wire [of ns "[]" k] assms show ?thesis by (simp add: domain_list_def)
qed

section \<open>The properties of the decoder\<close>

text \<open>
  The search-list decoder is total and bounded on every input, and it reads every
  well-formed list: up to 16 names of graphic ASCII labels, padded with zeros, come
  back in order, in lower case, their labels joined with dots.
\<close>

theorem domain_list_correct:
  assumes "\<forall>n\<in>set ns. wf_name n" "length ns \<le> 16"
  shows "domain_list (concat (map wire_name ns) @ replicate k 0) = map name_text ns
    \<and> length (domain_list bytes) \<le> 16 \<and> (\<forall>n\<in>set (domain_list bytes). n \<noteq> [] \<and> domain_ok n)"
  using domain_list_wire [OF assms] domain_list_ok by blast

theorem domain_list_correct_witness:
  "domain_list [1, 65, 2, 98, 99, 0, 0, 0] = [name_text [[65], [98, 99]]]"
  using domain_list_correct [of "[[[65], [98, 99]]]" "Suc (Suc 0)"]
  by (simp add: wire_name_def wf_name_def wf_label_def is_ascii_graphic_def)
end
