(* ===== verification/Dhcp4_Packet.thy ===== *)
theory Dhcp4_Packet
  imports Dns_Names
begin

text \<open>
  The DHCPv4 message codec and the reading of a lease from an acknowledgement
  (\<^verbatim>\<open>dhcp4/src/packet.rs\<close>): the fixed BOOTP part, the option list, RFC 3442 classless
  routes, RFC 3397 search lists.  Shown here: a message survives encoding and
  decoding; whatever decodes is well formed; a lease read from any
  acknowledgement has T1 before T2 before expiry and a prefix a /32 can hold;
  the walk over compressed names ends on every input.
\<close>

section \<open>Constants\<close>

abbreviation (input) CLIENT_PORT :: u16 where "CLIENT_PORT \<equiv> 68"
abbreviation (input) SERVER_PORT :: u16 where "SERVER_PORT \<equiv> 67"

definition MAGIC_COOKIE :: bytes where
  "MAGIC_COOKIE = [0x63, 0x82, 0x53, 0x63]"

abbreviation (input) BOOTREQUEST :: u8 where "BOOTREQUEST \<equiv> 1"
abbreviation (input) BOOTREPLY :: u8 where "BOOTREPLY \<equiv> 2"
abbreviation (input) HTYPE_ETHERNET :: u8 where "HTYPE_ETHERNET \<equiv> 1"
abbreviation (input) FLAG_BROADCAST :: u16 where "FLAG_BROADCAST \<equiv> 0x8000"
abbreviation (input) FIXED_LEN :: nat where "FIXED_LEN \<equiv> 236"

abbreviation (input) OPT_PAD :: u8 where "OPT_PAD \<equiv> 0"
abbreviation (input) OPT_SUBNET_MASK :: u8 where "OPT_SUBNET_MASK \<equiv> 1"
abbreviation (input) OPT_ROUTER :: u8 where "OPT_ROUTER \<equiv> 3"
abbreviation (input) OPT_DNS :: u8 where "OPT_DNS \<equiv> 6"
abbreviation (input) OPT_HOSTNAME :: u8 where "OPT_HOSTNAME \<equiv> 12"
abbreviation (input) OPT_DOMAIN_NAME :: u8 where "OPT_DOMAIN_NAME \<equiv> 15"
abbreviation (input) OPT_MTU :: u8 where "OPT_MTU \<equiv> 26"
abbreviation (input) OPT_BROADCAST :: u8 where "OPT_BROADCAST \<equiv> 28"
abbreviation (input) OPT_NTP :: u8 where "OPT_NTP \<equiv> 42"
abbreviation (input) OPT_REQUESTED_IP :: u8 where "OPT_REQUESTED_IP \<equiv> 50"
abbreviation (input) OPT_LEASE_TIME :: u8 where "OPT_LEASE_TIME \<equiv> 51"
abbreviation (input) OPT_MESSAGE_TYPE :: u8 where "OPT_MESSAGE_TYPE \<equiv> 53"
abbreviation (input) OPT_SERVER_ID :: u8 where "OPT_SERVER_ID \<equiv> 54"
abbreviation (input) OPT_PARAMETER_REQUEST_LIST :: u8 where "OPT_PARAMETER_REQUEST_LIST \<equiv> 55"
abbreviation (input) OPT_MAX_MESSAGE_SIZE :: u8 where "OPT_MAX_MESSAGE_SIZE \<equiv> 57"
abbreviation (input) OPT_RENEWAL_T1 :: u8 where "OPT_RENEWAL_T1 \<equiv> 58"
abbreviation (input) OPT_REBINDING_T2 :: u8 where "OPT_REBINDING_T2 \<equiv> 59"
abbreviation (input) OPT_CLIENT_ID :: u8 where "OPT_CLIENT_ID \<equiv> 61"
abbreviation (input) OPT_DOMAIN_SEARCH :: u8 where "OPT_DOMAIN_SEARCH \<equiv> 119"
abbreviation (input) OPT_CLASSLESS_STATIC_ROUTE :: u8 where "OPT_CLASSLESS_STATIC_ROUTE \<equiv> 121"
abbreviation (input) OPT_END :: u8 where "OPT_END \<equiv> 255"

section \<open>Message types\<close>

datatype message_type =
  Discover | Offer | Request | Decline | Ack | Nak | Release | Inform

fun message_type_code :: "message_type \<Rightarrow> u8" where
  "message_type_code Discover = 1"
| "message_type_code Offer = 2"
| "message_type_code Request = 3"
| "message_type_code Decline = 4"
| "message_type_code Ack = 5"
| "message_type_code Nak = 6"
| "message_type_code Release = 7"
| "message_type_code Inform = 8"

definition message_type_from_u8 :: "u8 \<Rightarrow> message_type option" where
  "message_type_from_u8 v =
     (if v = 1 then Some Discover else if v = 2 then Some Offer
      else if v = 3 then Some Request else if v = 4 then Some Decline
      else if v = 5 then Some Ack else if v = 6 then Some Nak
      else if v = 7 then Some Release else if v = 8 then Some Inform
      else None)"

section \<open>Options\<close>

type_synonym options = "(u8 \<times> bytes) list"

definition opt_get :: "options \<Rightarrow> u8 \<Rightarrow> bytes option" where
  "opt_get os code = map_option snd (List.find (\<lambda>(c, _). c = code) os)"

definition opt_push :: "options \<Rightarrow> u8 \<Rightarrow> bytes \<Rightarrow> options" where
  "opt_push os code data = os @ [(code, data)]"

definition opt_message_type :: "options \<Rightarrow> message_type option" where
  "opt_message_type os =
     (case opt_get os OPT_MESSAGE_TYPE of
        None \<Rightarrow> None
      | Some [] \<Rightarrow> None
      | Some (v # _) \<Rightarrow> message_type_from_u8 v)"

definition ipv4_at :: "bytes \<Rightarrow> ipv4 option" where
  "ipv4_at v = (if 4 \<le> length v then Some (ipv4_of (take 4 v)) else None)"

definition opt_ipv4 :: "options \<Rightarrow> u8 \<Rightarrow> ipv4 option" where
  "opt_ipv4 os code = Option.bind (opt_get os code) ipv4_at"

definition opt_ipv4_list :: "options \<Rightarrow> u8 \<Rightarrow> ipv4 list" where
  "opt_ipv4_list os code =
     (case opt_get os code of None \<Rightarrow> [] | Some v \<Rightarrow> map ipv4_of (as_chunks 4 v))"

definition opt_u32 :: "options \<Rightarrow> u8 \<Rightarrow> u32 option" where
  "opt_u32 os code =
     (case opt_get os code of
        None \<Rightarrow> None
      | Some v \<Rightarrow> if length v = 4 then Some (u32_of v) else None)"

definition opt_u16 :: "options \<Rightarrow> u8 \<Rightarrow> u16 option" where
  "opt_u16 os code =
     (case opt_get os code of
        None \<Rightarrow> None
      | Some v \<Rightarrow> if length v = 2 then Some (u16_of v) else None)"

text \<open>The text up to the first NUL, when it is UTF-8.\<close>

definition opt_string :: "options \<Rightarrow> u8 \<Rightarrow> rstring option" where
  "opt_string os code =
     (case opt_get os code of
        None \<Rightarrow> None
      | Some v \<Rightarrow> from_utf8 (takeWhile (\<lambda>b. b \<noteq> 0) v))"

section \<open>Messages\<close>

record message =
  m_is_reply :: bool
  m_xid :: u32
  m_secs :: u16
  m_broadcast :: bool
  m_ciaddr :: ipv4
  m_yiaddr :: ipv4
  m_siaddr :: ipv4
  m_giaddr :: ipv4
  m_chaddr :: bytes
  m_options :: options

definition message_request :: "u32 \<Rightarrow> bytes \<Rightarrow> message" where
  "message_request xid chaddr =
     \<lparr>m_is_reply = False, m_xid = xid, m_secs = 0, m_broadcast = False,
      m_ciaddr = 0, m_yiaddr = 0, m_siaddr = 0, m_giaddr = 0,
      m_chaddr = chaddr, m_options = []\<rparr>"

definition message_message_type :: "message \<Rightarrow> message_type option" where
  "message_message_type m = opt_message_type (m_options m)"

text \<open>One option on the wire; a value past 255 bytes is cut there.\<close>

definition encode_option :: "u8 \<times> bytes \<Rightarrow> bytes" where
  "encode_option e =
     (case e of (code, data) \<Rightarrow>
        let d = take 255 data in code # word_of_nat (length d) # d)"

definition message_encode :: "message \<Rightarrow> bytes" where
  "message_encode m =
     (let out =
        [if m_is_reply m then BOOTREPLY else BOOTREQUEST, HTYPE_ETHERNET, 6, 0]
        @ be32 (m_xid m)
        @ be16 (m_secs m)
        @ be16 (if m_broadcast m then FLAG_BROADCAST else 0)
        @ octets4 (m_ciaddr m) @ octets4 (m_yiaddr m)
        @ octets4 (m_siaddr m) @ octets4 (m_giaddr m)
        @ m_chaddr m
        @ replicate 10 0 @ replicate 64 0 @ replicate 128 0
        @ MAGIC_COOKIE
        @ concat (map encode_option (m_options m))
        @ [OPT_END]
      in out @ replicate (300 - length out) 0)"

text \<open>
  The option loop of \<^verbatim>\<open>Message::decode\<close>, on what is left of the datagram: padding is
  skipped, the end mark stops it, a length or a value that runs past the end
  rejects the whole message.
\<close>

fun decode_options :: "bytes \<Rightarrow> options \<Rightarrow> options option" where
  "decode_options [] os = Some os"
| "decode_options (code # rest) os =
     (if code = OPT_PAD then decode_options rest os
      else if code = OPT_END then Some os
      else (case rest of
              [] \<Rightarrow> None
            | len # rest' \<Rightarrow>
                if length rest' < unat len then None
                else decode_options (drop (unat len) rest')
                       (opt_push os code (take (unat len) rest'))))"

definition message_decode :: "bytes \<Rightarrow> message option" where
  "message_decode b =
     (if length b < FIXED_LEN + 4 then None
      else if b ! 1 \<noteq> HTYPE_ETHERNET \<or> b ! 2 \<noteq> 6 then None
      else if slice b FIXED_LEN (FIXED_LEN + 4) \<noteq> MAGIC_COOKIE then None
      else (case decode_options (drop (FIXED_LEN + 4) b) [] of
              None \<Rightarrow> None
            | Some os \<Rightarrow>
                Some \<lparr>m_is_reply = (b ! 0 = BOOTREPLY),
                      m_xid = u32_of (slice b 4 8),
                      m_secs = u16_of (slice b 8 10),
                      m_broadcast = (u16_of (slice b 10 12) AND FLAG_BROADCAST \<noteq> 0),
                      m_ciaddr = ipv4_of (slice b 12 16),
                      m_yiaddr = ipv4_of (slice b 16 20),
                      m_siaddr = ipv4_of (slice b 20 24),
                      m_giaddr = ipv4_of (slice b 24 28),
                      m_chaddr = slice b 28 34,
                      m_options = os\<rparr>))"

section \<open>Leases\<close>

record static_route =
  sr_destination :: ipv4
  sr_prefix :: u8
  sr_gateway :: ipv4

record lease =
  l_address :: ipv4
  l_prefix :: u8
  l_server :: ipv4
  l_routers :: "ipv4 list"
  l_dns :: "ipv4 list"
  l_domain :: "rstring option"
  l_search :: "rstring list"
  l_hostname :: "rstring option"
  l_mtu :: "u16 option"
  l_broadcast :: "ipv4 option"
  l_ntp :: "ipv4 list"
  l_static_routes :: "static_route list"
  l_lease_time :: u32
  l_t1 :: u32
  l_t2 :: u32

text \<open>The complete route list, or none of it.\<close>

fun classless_routes :: "bytes \<Rightarrow> static_route list \<Rightarrow> static_route list option" where
  "classless_routes [] routes = Some routes"
| "classless_routes (prefix # rest) routes =
     (if 32 < prefix then None
      else (let octets = (unat prefix + 7) div 8
            in if length rest < octets then None
               else if length (drop octets rest) < 4 then None
               else classless_routes (drop (octets + 4) rest)
                      (routes @ [\<lparr>sr_destination = ipv4_of (take octets rest @ replicate (4 - octets) 0),
                                   sr_prefix = prefix,
                                   sr_gateway = ipv4_of (take 4 (drop octets rest))\<rparr>])))"

definition decode_classless_routes :: "bytes \<Rightarrow> static_route list option" where
  "decode_classless_routes v = classless_routes v []"

definition classful_prefix :: "ipv4 \<Rightarrow> u8" where
  "classful_prefix a =
     (let o0 = octets4 a ! 0
      in if o0 \<le> 127 then 8 else if o0 \<le> 191 then 16 else 24)"

text \<open>
  The inner loop of \<^verbatim>\<open>decode_domain_search\<close>: one name, from position \<^verbatim>\<open>p\<close>, following
  compression pointers.  The result is \<^verbatim>\<open>None\<close> where the code returns what it has so far,
  and otherwise the labels, the position and whether a pointer was followed.
  Each step goes forward, but for a pointer, of which it follows 16 at most.
\<close>

function search_name ::
  "bytes \<Rightarrow> nat \<Rightarrow> nat \<Rightarrow> bool \<Rightarrow> nat \<Rightarrow> rstring list \<Rightarrow> (rstring list \<times> nat \<times> nat \<times> bool) option"
where
  "search_name v pos p jumped hops labels =
     (if length v \<le> p then None
      else if v ! p = 0 then
        Some (labels, (if jumped then pos else p + 1), p, jumped)
      else if v ! p AND 0xC0 = 0xC0 then
        (if length v \<le> p + 1 then None
         else if 16 < hops + 1 then None
         else search_name v (if jumped then pos else p + 2)
                (256 * unat (v ! p AND 0x3F) + unat (v ! (p + 1))) True (hops + 1) labels)
      else (case slice_get v (p + 1) (p + 1 + unat (v ! p)) of
              None \<Rightarrow> None
            | Some label \<Rightarrow>
                search_name v pos (p + 1 + unat (v ! p)) jumped hops
                  (labels @ [from_utf8_lossy label])))"
  by pat_completeness auto
termination
  by (relation "measures [\<lambda>(v, pos, p, jumped, hops, labels). 16 - hops,
                          \<lambda>(v, pos, p, jumped, hops, labels). length v - p]") auto

declare search_name.simps [simp del]

lemma search_name_progress:
  "search_name v pos p jumped hops labels = Some (ls, pos', p', jumped') \<Longrightarrow>
   pos0 < pos \<and> jumped \<or> pos0 \<le> p \<and> \<not> jumped \<Longrightarrow> pos0 < pos'"
proof (induction v pos p jumped hops labels rule: search_name.induct)
  case (1 v pos p jumped hops labels)
  let ?q = "256 * unat (v ! p AND 0x3F) + unat (v ! (p + 1))"
  show ?case
  proof (cases "p < length v \<and> v ! p \<noteq> 0 \<and> v ! p AND 0xC0 = 0xC0")
    case True
    with "1.prems"(1) have short: "\<not> length v \<le> p + 1" "\<not> 16 < hops + 1"
      and "search_name v (if jumped then pos else p + 2) ?q True (hops + 1) labels
             = Some (ls, pos', p', jumped')"
      by (subst (asm) search_name.simps, auto split: if_splits)+
    with "1.IH"(1) True "1.prems"(2) show ?thesis by (auto split: if_splits)
  next
    case False
    with "1.prems" show ?thesis
      by (subst (asm) search_name.simps) (auto split: if_splits option.splits dest!: "1.IH"(2))
  qed
qed

text \<open>
  The outer loop.  The name that starts at \<^verbatim>\<open>pos\<close> always leaves a later position, which
  is why it ends.
\<close>

function search_names :: "bytes \<Rightarrow> nat \<Rightarrow> rstring list \<Rightarrow> rstring list" where
  "search_names v pos out =
     (if length v \<le> pos then out
      else (case search_name v pos pos False 0 [] of
              None \<Rightarrow> out
            | Some (labels, pos', p, jumped) \<Rightarrow>
                let out' = (if labels = [] then out else out @ [join_with ''.'' labels])
                in if \<not> jumped \<and> pos' = p then out' else search_names v pos' out'))"
  by pat_completeness auto
termination
proof (relation "measure (\<lambda>(v, pos, out). length v - pos)", goal_cases)
  case 1
  then show ?case by simp
next
  case (2 v pos out a labels y pos' z p jumped out')
  then have "pos < pos'"
    by (intro search_name_progress [of v pos pos False 0 "[]" labels pos' p jumped]) auto
  with 2 show ?case by simp
qed

declare search_names.simps [simp del]

definition decode_domain_search :: "bytes \<Rightarrow> rstring list" where
  "decode_domain_search v = search_names v 0 []"

definition count_ones :: "u32 \<Rightarrow> nat" where
  "count_ones w = length (filter (bit w) [0..<32])"

definition mask_prefix :: "u32 \<Rightarrow> u8 option" where
  "mask_prefix m =
     (if m \<noteq> 0 \<and> m OR (m - 1) = - 1 then Some (word_of_nat (count_ones m)) else None)"

definition lease_prefix :: "options \<Rightarrow> ipv4 \<Rightarrow> u8" where
  "lease_prefix os address =
     (case Option.bind (opt_ipv4 os OPT_SUBNET_MASK) mask_prefix of
        Some p \<Rightarrow> p | None \<Rightarrow> classful_prefix address)"

definition lease_static_routes :: "options \<Rightarrow> static_route list" where
  "lease_static_routes os =
     (case Option.bind (opt_get os OPT_CLASSLESS_STATIC_ROUTE) decode_classless_routes of
        Some rs \<Rightarrow> rs | None \<Rightarrow> [])"

definition lease_time_t1 :: "options \<Rightarrow> u32 \<Rightarrow> u32" where
  "lease_time_t1 os lease_time =
     (case opt_u32 os OPT_RENEWAL_T1 of
        Some t \<Rightarrow> if 0 < t \<and> t < lease_time - 2 then t else lease_time div 2
      | None \<Rightarrow> lease_time div 2)"

definition lease_time_t2 :: "options \<Rightarrow> u32 \<Rightarrow> u32 \<Rightarrow> u32" where
  "lease_time_t2 os lease_time t1 =
     (let t2_default = min (max (ucast ((ucast lease_time :: u64) * 7 div 8)) (t1 + 1))
                           (lease_time - 1)
      in case opt_u32 os OPT_REBINDING_T2 of
           Some t \<Rightarrow> if t1 < t \<and> t < lease_time then t else t2_default
         | None \<Rightarrow> t2_default)"

definition lease_from_ack :: "message \<Rightarrow> lease option" where
  "lease_from_ack m =
     (let os = m_options m; address = m_yiaddr m
      in if address = 0 then None
         else (case opt_ipv4 os OPT_SERVER_ID of
           None \<Rightarrow> None
         | Some server \<Rightarrow>
         (case opt_u32 os OPT_LEASE_TIME of
           None \<Rightarrow> None
         | Some lease_time \<Rightarrow>
           if lease_time < 4 then None
           else
             let static_routes = lease_static_routes os;
                 t1 = lease_time_t1 os lease_time
             in Some
               \<lparr>l_address = address,
                l_prefix = lease_prefix os address,
                l_server = server,
                l_routers = (if static_routes = [] then opt_ipv4_list os OPT_ROUTER else []),
                l_dns = opt_ipv4_list os OPT_DNS,
                l_domain = opt_string os OPT_DOMAIN_NAME,
                l_search = (case opt_get os OPT_DOMAIN_SEARCH of
                              None \<Rightarrow> [] | Some v \<Rightarrow> decode_domain_search v),
                l_hostname = opt_string os OPT_HOSTNAME,
                l_mtu = (case opt_u16 os OPT_MTU of
                           Some mtu \<Rightarrow> if 68 \<le> mtu then Some mtu else None
                         | None \<Rightarrow> None),
                l_broadcast = opt_ipv4 os OPT_BROADCAST,
                l_ntp = opt_ipv4_list os OPT_NTP,
                l_static_routes = static_routes,
                l_lease_time = lease_time,
                l_t1 = t1,
                l_t2 = lease_time_t2 os lease_time t1\<rparr>)))"

definition lease_gateway :: "lease \<Rightarrow> ipv4 option" where
  "lease_gateway l =
     (case l_routers l of
        r # _ \<Rightarrow> Some r
      | [] \<Rightarrow> map_option sr_gateway (List.find (\<lambda>r. sr_prefix r = 0) (l_static_routes l)))"


section \<open>The codec\<close>

lemma message_type_roundtrip [simp]:
  "message_type_from_u8 (message_type_code k) = Some k"
  by (cases k) (simp_all add: message_type_from_u8_def)

lemma opt_get_push [simp]:
  "opt_get (opt_push os c d) code =
     (case opt_get os code of Some v \<Rightarrow> Some v | None \<Rightarrow> if c = code then Some d else None)"
  by (induction os) (auto simp: opt_get_def opt_push_def)

definition wf_option :: "u8 \<times> bytes \<Rightarrow> bool" where
  "wf_option e = (fst e \<noteq> OPT_PAD \<and> fst e \<noteq> OPT_END \<and> length (snd e) \<le> 255)"

definition wf_message :: "message \<Rightarrow> bool" where
  "wf_message m = (length (m_chaddr m) = 6 \<and> list_all wf_option (m_options m))"

lemma unat_u8_of_length: "n \<le> 255 \<Longrightarrow> unat (word_of_nat n :: u8) = n"
  by (simp add: unat_of_nat)

lemma decode_options_encoded:
  "list_all wf_option os \<Longrightarrow>
   decode_options (concat (map encode_option os) @ OPT_END # pad) acc = Some (acc @ os)"
proof (induction os arbitrary: acc)
  case Nil
  then show ?case by simp
next
  case (Cons e os)
  then show ?case
    by (cases e) (simp add: encode_option_def wf_option_def unat_u8_of_length opt_push_def)
qed

lemma length_MAGIC_COOKIE [simp]: "length MAGIC_COOKIE = 4"
  by (simp add: MAGIC_COOKIE_def)

lemma broadcast_flag: "((if b then FLAG_BROADCAST else 0) AND FLAG_BROADCAST \<noteq> (0 :: u16)) = b"
  by simp

lemma message_decode_layout:
  assumes "length chaddr = 6"
    and "b = [op, HTYPE_ETHERNET, 6, 0] @ be32 xid @ be16 sec @ be16 flags
             @ octets4 ci @ octets4 yi @ octets4 si @ octets4 gi @ chaddr
             @ replicate 10 0 @ replicate 64 0 @ replicate 128 0 @ MAGIC_COOKIE @ rest"
  shows "message_decode b =
    map_option (\<lambda>os. \<lparr>m_is_reply = (op = BOOTREPLY), m_xid = xid, m_secs = sec,
        m_broadcast = (flags AND FLAG_BROADCAST \<noteq> 0), m_ciaddr = ci, m_yiaddr = yi,
        m_siaddr = si, m_giaddr = gi, m_chaddr = chaddr, m_options = os\<rparr>)
      (decode_options rest [])"
proof -
  have len: "length b = 240 + length rest" using assms by simp
  have nths: "b ! 0 = op" "b ! Suc 0 = HTYPE_ETHERNET" "b ! 2 = 6" using assms(2) by simp_all
  have fields: "slice b 4 8 = be32 xid" "slice b 8 10 = be16 sec" "slice b 10 12 = be16 flags"
    "slice b 12 16 = octets4 ci" "slice b 16 20 = octets4 yi" "slice b 20 24 = octets4 si"
    "slice b 24 28 = octets4 gi" "slice b 28 34 = chaddr" "slice b 236 240 = MAGIC_COOKIE"
    unfolding assms(2) by (simp_all add: slice_Cons slice_skip slice_here_n assms(1))
  have tail: "drop 240 b = rest" unfolding assms(2) using assms(1) by simp
  show ?thesis
    unfolding message_decode_def
    by (cases "decode_options rest []") (simp_all add: len nths fields tail)
qed

lemma message_encode_decode:
  assumes "wf_message m"
  shows "message_decode (message_encode m) = Some m"
proof -
  obtain pad where enc: "message_encode m =
      [if m_is_reply m then BOOTREPLY else BOOTREQUEST, HTYPE_ETHERNET, 6, 0]
        @ be32 (m_xid m) @ be16 (m_secs m)
        @ be16 (if m_broadcast m then FLAG_BROADCAST else 0)
        @ octets4 (m_ciaddr m) @ octets4 (m_yiaddr m)
        @ octets4 (m_siaddr m) @ octets4 (m_giaddr m) @ m_chaddr m
        @ replicate 10 0 @ replicate 64 0 @ replicate 128 0 @ MAGIC_COOKIE
        @ concat (map encode_option (m_options m)) @ OPT_END # pad"
    unfolding message_encode_def Let_def by (simp only: append_assoc append_Cons append_Nil)
  from assms show ?thesis
    unfolding wf_message_def
    by (subst message_decode_layout [OF _ enc]) (auto simp: decode_options_encoded)
qed

text \<open>Whatever decodes is a message the encoder can write: decoding establishes \<^const>\<open>wf_message\<close>.\<close>

lemma decode_options_wf:
  "decode_options b acc = Some os \<Longrightarrow> list_all wf_option acc \<Longrightarrow> list_all wf_option os"
proof (induction b acc arbitrary: os rule: decode_options.induct)
  case (1 acc)
  then show ?case by simp
next
  case (2 code rest acc)
  show ?case
  proof (cases "code = OPT_PAD \<or> code = OPT_END")
    case True
    with 2 show ?thesis by auto
  next
    case False
    with "2.prems"(1) obtain len rest' where r: "rest = len # rest'" "unat len \<le> length rest'"
      and d: "decode_options (drop (unat len) rest') (opt_push acc code (take (unat len) rest')) = Some os"
      by (auto split: list.splits if_splits)
    have "unat len \<le> 255" using unat_u8_less [of len] by linarith
    then have "list_all wf_option (opt_push acc code (take (unat len) rest'))"
      using False "2.prems"(2)
      by (simp add: opt_push_def wf_option_def [of "(code, _)"] min.coboundedI2)
    with 2(2) False r d show ?thesis by auto
  qed
qed

lemma message_decode_wf: "message_decode b = Some m \<Longrightarrow> wf_message m"
  unfolding message_decode_def wf_message_def
  by (auto split: if_splits option.splits intro: decode_options_wf)

section \<open>Masks and prefixes\<close>

lemma and_succ_zero: "n AND Suc n = 0 \<Longrightarrow> \<exists>t. Suc n = 2 ^ t"
proof (induction n rule: less_induct)
  case (less n)
  show ?case
  proof (cases "even n")
    case True
    then obtain a where a: "n = 2 * a" by auto
    have "2 * a AND Suc (2 * a) = 2 * a"
      by (subst and_rec) simp
    with a less.prems have "Suc n = 2 ^ 0" by simp
    then show ?thesis by blast
  next
    case False
    then obtain a where a: "n = Suc (2 * a)" by (auto elim: oddE)
    have "Suc (2 * a) AND Suc (Suc (2 * a)) = 2 * (a AND Suc a)"
      by (subst and_rec) simp
    with a less.prems have "a AND Suc a = 0" by simp
    moreover have "a < n" using a by simp
    ultimately obtain t where "Suc a = 2 ^ t" using less.IH by blast
    with a have "Suc n = 2 ^ Suc t" by simp
    then show ?thesis by blast
  qed
qed

text \<open>
  The test the code applies to a subnet mask holds of exactly the contiguous masks, and
  counting their ones gives the prefix length.
\<close>

lemma contiguous_mask:
  fixes m :: u32
  assumes "m \<noteq> 0" "m OR (m - 1) = - 1"
  shows "\<exists>k. 1 \<le> k \<and> k \<le> 32 \<and> m = NOT (mask (32 - k))"
proof -
  let ?n = "unat (NOT m)"
  have "NOT (m OR (m - 1)) = 0" using assms(2) by simp
  then have "NOT m AND NOT (m - 1) = 0" by simp
  then have z: "NOT m AND - m = 0" by (simp add: not_eq_complement)
  have m: "1 + NOT m = - m" by (simp add: not_eq_complement)
  have suc: "unat (- m) = Suc ?n" using unatSuc [of "NOT m"] assms(1) m by simp
  then have "?n AND Suc ?n = 0" using z by (metis unsigned_0 unsigned_and_eq)
  then obtain t where t: "unat (- m) = 2 ^ t" using and_succ_zero suc by metis
  have "2 ^ t < (2 ^ 32 :: nat)" using t unsigned_less [of "- m", where ?'a = nat] by simp
  then have "t < 32" by (intro power_less_imp_less_exp [of "2 :: nat" t 32]) simp_all
  moreover have "- m = 2 ^ t" using t of_nat_unat [of "- m", where ?'a = "32 word"] by simp
  then have "m = NOT (mask t)"
    by (simp add: mask_eq_exp_minus_1 not_eq_complement) (metis minus_minus)
  ultimately show ?thesis by (intro exI [of _ "32 - t"]) simp
qed

lemma count_ones_mask: "k \<le> 32 \<Longrightarrow> count_ones (NOT (mask (32 - k))) = k"
proof -
  assume k: "k \<le> 32"
  have "filter (bit (NOT (mask (32 - k)) :: u32)) [0..<32] = filter (\<lambda>i. 32 - k \<le> i) [0..<32]"
    by (rule filter_cong) (auto simp: bit_simps)
  moreover have "[0..<32] = [0..<32 - k] @ [32 - k..<32]"
    using k upt_add_eq_append [of 0 "32 - k" k] by simp
  ultimately show ?thesis using k by (simp add: count_ones_def)
qed

lemma mask_prefix_cases:
  "mask_prefix m = Some p \<longleftrightarrow>
     (\<exists>k. 1 \<le> k \<and> k \<le> 32 \<and> m = NOT (mask (32 - k)) \<and> p = word_of_nat k)"
proof
  assume "mask_prefix m = Some p"
  then have "m \<noteq> 0" "m OR (m - 1) = - 1" and p: "p = word_of_nat (count_ones m)"
    by (auto simp: mask_prefix_def split: if_splits)
  with contiguous_mask obtain k where "1 \<le> k" "k \<le> 32" "m = NOT (mask (32 - k))"
    by blast
  with p show "\<exists>k. 1 \<le> k \<and> k \<le> 32 \<and> m = NOT (mask (32 - k)) \<and> p = word_of_nat k"
    by (auto simp: count_ones_mask)
next
  assume "\<exists>k. 1 \<le> k \<and> k \<le> 32 \<and> m = NOT (mask (32 - k)) \<and> p = word_of_nat k"
  then obtain k where k: "1 \<le> k" "k \<le> 32" and m: "m = NOT (mask (32 - k))"
    and p: "p = word_of_nat k" by blast
  have "m - 1 = NOT (- m)" by (simp add: not_eq_complement)
  also have "- m = push_bit (32 - k) 1"
    unfolding m by (simp add: push_bit_eq_mult mask_eq_exp_minus_1 not_eq_complement)
  finally have minus: "m - 1 = NOT (push_bit (32 - k) 1)" .
  have "m OR (m - 1) = - 1"
    unfolding minus unfolding m by (rule bit_word_eqI) (auto simp: bit_simps)
  moreover have "m \<noteq> 0"
  proof
    assume "m = 0"
    then have "\<not> bit m 31" by simp
    then show False unfolding m using k by (simp add: bit_simps)
  qed
  ultimately show "mask_prefix m = Some p"
    using k m p by (simp add: mask_prefix_def count_ones_mask)
qed

section \<open>Leases\<close>

definition wf_lease :: "lease \<Rightarrow> bool" where
  "wf_lease l =
     (l_address l \<noteq> 0 \<and> 0 < l_t1 l \<and> l_t1 l < l_t2 l \<and> l_t2 l < l_lease_time l
      \<and> l_prefix l \<noteq> 0 \<and> l_prefix l \<le> 32
      \<and> (l_static_routes l \<noteq> [] \<longrightarrow> l_routers l = [])
      \<and> (\<forall>r\<in>set (l_static_routes l). sr_prefix r \<le> 32)
      \<and> (\<forall>m. l_mtu l = Some m \<longrightarrow> 68 \<le> m))"

lemma classless_routes_prefix:
  "classless_routes v rs = Some out \<Longrightarrow> \<forall>r\<in>set rs. sr_prefix r \<le> 32 \<Longrightarrow>
   \<forall>r\<in>set out. sr_prefix r \<le> 32"
proof (induction v rs arbitrary: out rule: classless_routes.induct)
  case (1 rs)
  then show ?case by simp
next
  case (2 p rest rs)
  then have "\<not> 32 < p" by (auto split: if_splits)
  then have "p \<le> 32" by simp
  with 2 show ?case by (auto simp: Let_def split: if_splits)
qed

text \<open>T1, T2 and the defaults they fall back to, as numbers.\<close>

lemma lease_times_bounds:
  fixes lease_time t1 t2 d2 :: u32
  assumes "\<not> lease_time < 4"
    and t1: "t1 = lease_time div 2 \<or> 0 < t1 \<and> t1 < lease_time - 2"
    and d2: "d2 = min (max x (t1 + 1)) (lease_time - 1)"
    and t2: "t2 = d2 \<or> t1 < t2 \<and> t2 < lease_time"
  shows "0 < t1 \<and> t1 < t2 \<and> t2 < lease_time"
proof -
  let ?L = "unat lease_time"
  have L: "4 \<le> ?L" using assms(1) by (simp add: word_less_nat_alt)
  have L2: "unat (lease_time - 2) = ?L - 2" and L1: "unat (lease_time - 1) = ?L - 1"
    using L by (simp_all add: unat_sub word_le_nat_alt)
  have half: "unat (lease_time div 2) = ?L div 2" by (simp add: unat_div)
  have t1b: "0 < unat t1 \<and> unat t1 < ?L - 1"
    using t1 L half L2 by (auto simp: word_less_nat_alt)
  have "?L < 2 ^ 32" using unsigned_less [of lease_time, where ?'a = nat] by simp
  then have "unat (t1 + 1) = unat t1 + 1"
    using t1b L by (subst unat_add_lem [THEN iffD1]) (simp, linarith, simp)
  then have "unat t1 < unat d2 \<and> unat d2 < ?L"
    using t1b L L1 unfolding d2 by (auto simp: min_def max_def word_le_nat_alt)
  with t1b t2 show ?thesis by (auto simp: word_less_nat_alt)
qed

lemma mask_prefix_bounds: "mask_prefix m = Some p \<Longrightarrow> p \<noteq> 0 \<and> p \<le> 32"
  by (auto simp: mask_prefix_cases word_le_nat_alt word_unat_eq_iff unat_u8_of_length)

lemma lease_prefix_bounds: "lease_prefix os a \<noteq> 0" "lease_prefix os a \<le> 32"
  by (auto simp: lease_prefix_def classful_prefix_def Let_def bind_eq_Some_conv
      split: option.splits dest!: sym [of "Some _"] mask_prefix_bounds)

lemma lease_static_routes_prefix: "r \<in> set (lease_static_routes os) \<Longrightarrow> sr_prefix r \<le> 32"
  by (auto simp: lease_static_routes_def decode_classless_routes_def bind_eq_Some_conv
      split: option.splits dest!: sym [of "Some _"] classless_routes_prefix)

lemma lease_times_ordered:
  assumes "\<not> lt < 4"
  shows "0 < lease_time_t1 os lt \<and> lease_time_t1 os lt < lease_time_t2 os lt (lease_time_t1 os lt)
         \<and> lease_time_t2 os lt (lease_time_t1 os lt) < lt"
  by (rule lease_times_bounds [OF assms _ refl])
     (auto simp: lease_time_t1_def lease_time_t2_def Let_def split: option.splits)

lemma lease_from_ack_wf: "lease_from_ack m = Some l \<Longrightarrow> wf_lease l"
  by (auto simp: lease_from_ack_def wf_lease_def Let_def lease_prefix_bounds lease_times_ordered
      split: if_splits option.splits dest: lease_static_routes_prefix)

lemma lease_from_ack_None_iff:
  "lease_from_ack m = None \<longleftrightarrow>
     m_yiaddr m = 0 \<or> opt_ipv4 (m_options m) OPT_SERVER_ID = None
     \<or> (case opt_u32 (m_options m) OPT_LEASE_TIME of None \<Rightarrow> True | Some t \<Rightarrow> t < 4)"
  unfolding lease_from_ack_def Let_def by (auto split: option.splits)

lemma opt_get_filter:
  "code \<noteq> c \<Longrightarrow> opt_get (filter (\<lambda>e. fst e \<noteq> c) os) code = opt_get os code"
  by (induction os) (auto simp: opt_get_def)

lemma opt_get_filtered [simp]: "opt_get (filter (\<lambda>e. fst e \<noteq> c) os) c = None"
  by (induction os) (auto simp: opt_get_def)

lemmas opt_readers = opt_ipv4_def opt_ipv4_list_def opt_u32_def opt_u16_def opt_string_def

lemma opt_readers_filter:
  "code \<noteq> c \<Longrightarrow> opt_ipv4 (filter (\<lambda>e. fst e \<noteq> c) os) code = opt_ipv4 os code"
  "code \<noteq> c \<Longrightarrow> opt_ipv4_list (filter (\<lambda>e. fst e \<noteq> c) os) code = opt_ipv4_list os code"
  "code \<noteq> c \<Longrightarrow> opt_u32 (filter (\<lambda>e. fst e \<noteq> c) os) code = opt_u32 os code"
  "code \<noteq> c \<Longrightarrow> opt_u16 (filter (\<lambda>e. fst e \<noteq> c) os) code = opt_u16 os code"
  "code \<noteq> c \<Longrightarrow> opt_string (filter (\<lambda>e. fst e \<noteq> c) os) code = opt_string os code"
  by (simp_all add: opt_readers opt_get_filter)

lemma lease_readers_filter:
  "c \<noteq> OPT_SUBNET_MASK \<Longrightarrow> lease_prefix (filter (\<lambda>e. fst e \<noteq> c) os) a = lease_prefix os a"
  "c \<noteq> OPT_RENEWAL_T1 \<Longrightarrow> lease_time_t1 (filter (\<lambda>e. fst e \<noteq> c) os) t = lease_time_t1 os t"
  "c \<noteq> OPT_REBINDING_T2 \<Longrightarrow> lease_time_t2 (filter (\<lambda>e. fst e \<noteq> c) os) t u = lease_time_t2 os t u"
  by (simp_all add: lease_prefix_def lease_time_t1_def lease_time_t2_def opt_readers_filter)

lemma malformed_routes:
  assumes "opt_get (m_options m) OPT_CLASSLESS_STATIC_ROUTE = Some v"
    and "decode_classless_routes v = None"
  shows "lease_from_ack m = lease_from_ack
           (m\<lparr>m_options := filter (\<lambda>e. fst e \<noteq> OPT_CLASSLESS_STATIC_ROUTE) (m_options m)\<rparr>)"
proof -
  have "lease_static_routes (filter (\<lambda>e. fst e \<noteq> OPT_CLASSLESS_STATIC_ROUTE) (m_options m))
        = lease_static_routes (m_options m)"
    using assms by (simp add: lease_static_routes_def)
  then show ?thesis
    by (simp add: lease_from_ack_def Let_def lease_readers_filter opt_readers_filter opt_get_filter
        cong: option.case_cong if_cong)
qed

section \<open>Search lists\<close>

lemma search_name_wire:
  "drop p v = wire_name ls @ rest \<Longrightarrow> list_all wf_label ls \<Longrightarrow>
   search_name v pos p False hops acc =
     Some (acc @ map from_utf8_lossy ls, p + length (wire_name ls),
           p + length (wire_name ls) - 1, False)"
proof (induction ls arbitrary: p acc)
  case Nil
  then have "p < length v" by (intro drop_not_Nil) (simp add: wire_name_def)
  moreover from Nil this have "v ! p = 0"
    by (simp add: wire_name_def Cons_nth_drop_Suc [symmetric])
  ultimately show ?case by (subst search_name.simps) (simp add: wire_name_def)
next
  case (Cons l ls)
  let ?w = "word_of_nat (length l) :: u8"
  have d: "drop p v = ?w # l @ wire_name ls @ rest"
    using Cons.prems(1) by (simp add: wire_name_def)
  then have p: "p < length v" by (intro drop_not_Nil) simp
  then have vp: "v ! p = ?w" and tl: "drop (Suc p) v = l @ wire_name ls @ rest"
    using d by (simp_all add: Cons_nth_drop_Suc [symmetric])
  have l: "wf_label l" using Cons.prems(2) by simp
  have "length (drop (Suc p) v) = length (l @ wire_name ls @ rest)" using tl by simp
  then have len: "Suc p + length l \<le> length v" using p by simp
  have sl: "slice_get v (p + 1) (p + 1 + length l) = Some l"
    using len tl by (simp add: slice_get_def)
  have "drop (Suc p + length l) v = wire_name ls @ rest"
    using arg_cong [OF tl, of "drop (length l)"] by (simp add: add.commute)
  from Cons.IH [of "Suc p + length l", OF this] Cons.prems(2)
  have IH: "search_name v pos (Suc p + length l) False hops (acc @ [from_utf8_lossy l])
      = Some (acc @ map from_utf8_lossy (l # ls), Suc p + length l + length (wire_name ls),
              Suc p + length l + length (wire_name ls) - 1, False)"
    by simp
  have "search_name v pos p False hops acc
      = search_name v pos (Suc p + length l) False hops (acc @ [from_utf8_lossy l])"
    using p vp label_length [OF l] sl by (subst search_name.simps) simp
  with IH show ?case by (simp add: wire_name_def)
qed

lemma search_names_wire:
  "drop pos v = concat (map wire_name ns) \<Longrightarrow> \<forall>n\<in>set ns. n \<noteq> [] \<and> list_all wf_label n \<Longrightarrow>
   search_names v pos out = out @ map (\<lambda>n. join_with ''.'' (map from_utf8_lossy n)) ns"
proof (induction ns arbitrary: pos out)
  case Nil
  then show ?case by (subst search_names.simps) simp
next
  case (Cons n ns)
  let ?pos = "pos + length (wire_name n)"
  have pos: "pos < length v"
    using Cons.prems(1) by (intro drop_not_Nil) (simp add: wire_name_def)
  have "search_name v pos pos False 0 [] = Some (map from_utf8_lossy n, ?pos, ?pos - 1, False)"
    using search_name_wire [of pos v n "concat (map wire_name ns)" pos 0 "[]"] Cons.prems by simp
  moreover have "?pos \<noteq> ?pos - 1" by (simp add: wire_name_def)
  moreover have "drop ?pos v = concat (map wire_name ns)"
    using arg_cong [OF Cons.prems(1), of "drop (length (wire_name n))"] by (simp add: add.commute)
  ultimately show ?case
    using pos Cons.prems(2) Cons.IH [of ?pos]
    by (subst search_names.simps) (simp add: Let_def)
qed

lemma decode_wire_names:
  assumes "\<forall>n\<in>set ns. n \<noteq> [] \<and> list_all wf_label n"
  shows "decode_domain_search (concat (map wire_name ns)) =
           map (\<lambda>n. join_with ''.'' (map from_utf8_lossy n)) ns"
  using search_names_wire [of 0 "concat (map wire_name ns)" ns "[]"] assms
  by (simp add: decode_domain_search_def)

section \<open>The properties of the codec\<close>

text \<open>
  C5: Round trip of the wire format: decoding the bytes of a message whose options
  fit their length byte gives the message back, whatever the padding; and what the
  decoder returns for any bytes is such a message, so it can be sent on unchanged.
\<close>

theorem message_roundtrip:
  "(wf_message m \<longrightarrow> message_decode (message_encode m) = Some m)
   \<and> (message_decode b = Some m' \<longrightarrow> wf_message m' \<and> message_decode (message_encode m') = Some m')"
  using message_encode_decode message_decode_wf by blast

theorem message_roundtrip_witness:
  "message_decode (message_encode (message_request 7 [1, 2, 3, 4, 5, 6]))
     = Some (message_request 7 [1, 2, 3, 4, 5, 6])"
  using message_roundtrip [of "message_request 7 [1, 2, 3, 4, 5, 6]" "[]"]
  by (simp add: wf_message_def message_request_def)

text \<open>
  C6: An acknowledgement yields a lease exactly when it assigns an address, names its
  server and grants at least four seconds; the lease then has 0 < T1 < T2 < lease
  time whatever T1 and T2 the server sent, a prefix of 1 to 32 bits, an MTU of at
  least 68 if any, and no routers when classless routes are present.
\<close>

theorem lease_from_ack_sound:
  "(lease_from_ack m = None \<longleftrightarrow>
      m_yiaddr m = 0 \<or> opt_ipv4 (m_options m) OPT_SERVER_ID = None
      \<or> (case opt_u32 (m_options m) OPT_LEASE_TIME of None \<Rightarrow> True | Some t \<Rightarrow> t < 4))
   \<and> (\<forall>l. lease_from_ack m = Some l \<longrightarrow> wf_lease l)"
  using lease_from_ack_None_iff lease_from_ack_wf by blast

definition ex_ack_message :: message where
  "ex_ack_message =
     (message_request 7 [1, 2, 3, 4, 5, 6])
       \<lparr>m_yiaddr := 0xC000020A,
        m_options := [(OPT_SERVER_ID, [192, 0, 2, 1]), (OPT_LEASE_TIME, [0, 0, 0, 4]),
                      (OPT_RENEWAL_T1, [255, 255, 255, 255])]\<rparr>"

theorem lease_from_ack_sound_witness: "\<exists>l. lease_from_ack ex_ack_message = Some l \<and> wf_lease l"
  using lease_from_ack_sound [of ex_ack_message]
  by (auto simp: ex_ack_message_def opt_readers opt_get_def ipv4_at_def codec_simps)

text \<open>
  A subnet mask is accepted exactly when it is a run of 1 to 32 one bits from the
  top, and the prefix length is the length of that run.
\<close>

theorem mask_prefix_iff:
  "mask_prefix m = Some p \<longleftrightarrow>
     (\<exists>k. 1 \<le> k \<and> k \<le> 32 \<and> m = NOT (mask (32 - k)) \<and> p = word_of_nat k)"
  by (rule mask_prefix_cases)

text \<open>
  A malformed classless-route option counts as absent: the lease is the one the
  acknowledgement gives without the option, with its routers.
\<close>

theorem malformed_routes_discarded:
  assumes "opt_get (m_options m) OPT_CLASSLESS_STATIC_ROUTE = Some v"
    and "decode_classless_routes v = None"
  shows "lease_from_ack m = lease_from_ack
           (m\<lparr>m_options := filter (\<lambda>e. fst e \<noteq> OPT_CLASSLESS_STATIC_ROUTE) (m_options m)\<rparr>)"
  using assms by (rule malformed_routes)

theorem malformed_routes_discarded_witness:
  "lease_from_ack (ex_ack_message\<lparr>m_options := m_options ex_ack_message @ [(121, [33])]\<rparr>)
     = lease_from_ack ex_ack_message"
  using malformed_routes_discarded
    [of "ex_ack_message\<lparr>m_options := m_options ex_ack_message @ [(121, [33])]\<rparr>" "[33]"]
  by (simp add: ex_ack_message_def opt_get_def decode_classless_routes_def)

text \<open>
  The search-list decoder reads every list of uncompressed names: names of
  non-empty labels under 64 bytes come back in order, labels joined with dots.
\<close>

theorem domain_search_roundtrip:
  assumes "\<forall>n\<in>set ns. n \<noteq> [] \<and> list_all wf_label n"
  shows "decode_domain_search (concat (map wire_name ns)) =
           map (\<lambda>n. join_with ''.'' (map from_utf8_lossy n)) ns"
  using assms by (rule decode_wire_names)

theorem domain_search_roundtrip_witness:
  "decode_domain_search [1, 97, 2, 98, 99, 0]
     = [join_with ''.'' [from_utf8_lossy [97], from_utf8_lossy [98, 99]]]"
  using domain_search_roundtrip [of "[[[97], [98, 99]]]"]
  by (simp add: wire_name_def wf_label_def)

end
