(* ===== verification/Timed_Machine.thy ===== *)
theory Timed_Machine
  imports Netd_Prelude
begin

text \<open>
  The contract between the daemon's poll loop and the clock-injected state
  machines it drives (\<^verbatim>\<open>dhcp4::Client\<close>, \<^verbatim>\<open>dhcp6::Client\<close>, \<^verbatim>\<open>ndp::Engine\<close>): the loop sleeps until
  the earliest deadline and then ticks every machine.  A machine keeps its side
  when a bounded number of ticks at one instant leaves no deadline at or before
  that instant (else the loop would poll with a timeout of zero for ever), and
  when ticking before the deadline leaves the deadline ahead.

  A tick is a relation, so that a machine whose tick may fail to return fits too.
\<close>

primrec ticks :: "('m \<Rightarrow> instant \<Rightarrow> 'm \<Rightarrow> bool) \<Rightarrow> nat \<Rightarrow> 'm \<Rightarrow> instant \<Rightarrow> 'm \<Rightarrow> bool" where
  "ticks tick 0 m now m' = (m' = m)"
| "ticks tick (Suc n) m now m' = (\<exists>m1. tick m now m1 \<and> ticks tick n m1 now m')"

lemma ticks_add:
  "ticks tick (a + b) m now m' \<longleftrightarrow> (\<exists>m1. ticks tick a m now m1 \<and> ticks tick b m1 now m')"
  by (induction a arbitrary: m) auto

locale timed_machine =
  fixes tick :: "'m \<Rightarrow> instant \<Rightarrow> 'm \<Rightarrow> bool"
    and deadline :: "'m \<Rightarrow> instant option"
    and invar :: "'m \<Rightarrow> bool"
    and settle :: nat
  assumes invar_tick: "invar m \<Longrightarrow> tick m now m' \<Longrightarrow> invar m'"
    and settles: "invar m \<Longrightarrow> ticks tick settle m now m' \<Longrightarrow> later (deadline m') now"
    and stays: "invar m \<Longrightarrow> later (deadline m) now \<Longrightarrow> tick m now m' \<Longrightarrow> later (deadline m') now"
begin

lemma invar_ticks: "invar m \<Longrightarrow> ticks tick n m now m' \<Longrightarrow> invar m'"
  by (induction n arbitrary: m) (auto intro: invar_tick)

lemma later_ticks:
  "invar m \<Longrightarrow> later (deadline m) now \<Longrightarrow> ticks tick n m now m' \<Longrightarrow> later (deadline m') now"
  by (induction n arbitrary: m) (auto intro: invar_tick stays)

text \<open>The loop does not spin: from the \<^verbatim>\<open>settle\<close>-th tick on, the deadline lies ahead.\<close>

lemma no_spin:
  assumes "invar m" "settle \<le> n" "ticks tick n m now m'"
  shows "later (deadline m') now"
proof -
  have "ticks tick (settle + (n - settle)) m now m'" using assms(2,3) by simp
  then show ?thesis
    using assms(1) settles later_ticks invar_ticks unfolding ticks_add by blast
qed

text \<open>Nor does a set of machines that share one instant: the earliest of their deadlines lies ahead.\<close>

lemma no_spin_all:
  assumes "list_all2 (\<lambda>m m'. invar m \<and> ticks tick settle m now m') ms ms'"
  shows "later (foldl (\<lambda>d m. earlier d (deadline m)) None ms') now"
proof -
  have "\<forall>m'\<in>set ms'. later (deadline m') now"
    using assms by (induction rule: list_all2_induct) (auto intro: settles)
  then show ?thesis by (simp add: later_foldl_earlier)
qed

end

end
