(* ===== verification/Dhcp4_Client.thy ===== *)
theory Dhcp4_Client
  imports Dhcp4_Packet Timed_Machine
begin

text \<open>
  The RFC 2131 client (\<^verbatim>\<open>dhcp4/src/client.rs\<close>): its state is a record, each method a
  function that returns the new state and the actions for the caller.  Time is
  an argument, the randomness is the client's own xorshift generator.
\<close>

section \<open>Types\<close>

datatype destination = Broadcast | Unicast (unicast_server: ipv4) (unicast_from: ipv4)

datatype dhcp4_action =
    Send message destination
  | BoundTo lease
  | NoOffer
  | Lost

record dhcp4_config =
  cfg_chaddr :: bytes
  cfg_client_id :: bytes
  cfg_hostname :: "rstring option"
  cfg_seed :: u64

datatype dhcp4_state =
  Init | Selecting | Requesting | Rebooting | Bound | Renewing | Rebinding

fun dhcp4_state_as_str :: "dhcp4_state \<Rightarrow> rstring" where
  "dhcp4_state_as_str Init = ''init''"
| "dhcp4_state_as_str Selecting = ''selecting''"
| "dhcp4_state_as_str Requesting = ''requesting''"
| "dhcp4_state_as_str Rebooting = ''rebooting''"
| "dhcp4_state_as_str Bound = ''bound''"
| "dhcp4_state_as_str Renewing = ''renewing''"
| "dhcp4_state_as_str Rebinding = ''rebinding''"

abbreviation (input) DISCOVERS_BEFORE_NO_OFFER :: u32 where "DISCOVERS_BEFORE_NO_OFFER \<equiv> 3"
abbreviation (input) MAX_REQUESTS :: u32 where "MAX_REQUESTS \<equiv> 4"

definition MAX_BACKOFF :: duration where [time_simps]: "MAX_BACKOFF = secs 64"
definition FIRST_BACKOFF :: duration where [time_simps]: "FIRST_BACKOFF = secs 4"
definition MIN_RETRANSMIT :: duration where [time_simps]: "MIN_RETRANSMIT = secs 60"

record dhcp4 =
  c_config :: dhcp4_config
  c_state :: dhcp4_state
  c_rng :: u64
  c_xid :: u32
  c_started :: instant
  c_retransmit_at :: "instant option"
  c_backoff :: duration
  c_attempts :: u32
  c_no_offer_reported :: bool
  c_offer :: "message option"
  c_lease :: "lease option"
  c_bound_at :: "instant option"
  c_reboot_address :: "ipv4 option"

text \<open>\<^verbatim>\<open>Client::new\<close>; the instant is what \<^verbatim>\<open>Instant::now()\<close> returned.\<close>

definition dhcp4_new :: "dhcp4_config \<Rightarrow> instant \<Rightarrow> dhcp4" where
  "dhcp4_new config now =
     \<lparr>c_config = config, c_state = Init, c_rng = cfg_seed config OR 1, c_xid = 0,
      c_started = now, c_retransmit_at = None, c_backoff = FIRST_BACKOFF, c_attempts = 0,
      c_no_offer_reported = False, c_offer = None, c_lease = None, c_bound_at = None,
      c_reboot_address = None\<rparr>"

section \<open>Queries\<close>

definition lease_at :: "instant \<Rightarrow> u32 \<Rightarrow> instant" where
  "lease_at bound_at s = bound_at + secs (unat s)"

definition dhcp4_expires_in :: "dhcp4 \<Rightarrow> instant \<Rightarrow> nat option" where
  "dhcp4_expires_in c now =
     (case (c_lease c, c_bound_at c) of
        (Some l, Some b) \<Rightarrow>
          Some (as_secs (saturating_duration_since (lease_at b (l_lease_time l)) now))
      | _ \<Rightarrow> None)"

text \<open>The lease-time boundary that ends the current state, if it has one.\<close>

definition dhcp4_boundary :: "dhcp4 \<Rightarrow> instant option" where
  "dhcp4_boundary c =
     (case (c_lease c, c_bound_at c) of
        (Some l, Some b) \<Rightarrow>
          (case c_state c of
             Bound \<Rightarrow> Some (lease_at b (l_t1 l))
           | Renewing \<Rightarrow> Some (lease_at b (l_t2 l))
           | Rebinding \<Rightarrow> Some (lease_at b (l_lease_time l))
           | _ \<Rightarrow> None)
      | _ \<Rightarrow> None)"

definition dhcp4_next_deadline :: "dhcp4 \<Rightarrow> instant option" where
  "dhcp4_next_deadline c = earlier (c_retransmit_at c) (dhcp4_boundary c)"

section \<open>Randomness and messages\<close>

text \<open>xorshift64*, its top half.\<close>

definition dhcp4_next_random :: "dhcp4 \<Rightarrow> dhcp4 \<times> u32" where
  "dhcp4_next_random c =
     (let x = c_rng c;
          x = x XOR drop_bit 12 x;
          x = x XOR push_bit 25 x;
          x = x XOR drop_bit 27 x
      in (c\<lparr>c_rng := x\<rparr>, ucast (drop_bit 32 (x * 0x2545F4914F6CDD1D))))"

definition base_message :: "dhcp4 \<Rightarrow> instant \<Rightarrow> message" where
  "base_message c now =
     (message_request (c_xid c) (cfg_chaddr (c_config c)))
       \<lparr>m_secs := word_of_nat (min (as_secs (saturating_duration_since now (c_started c))) 65535)\<rparr>"

definition parameter_request_list :: bytes where
  "parameter_request_list =
     [OPT_SUBNET_MASK, OPT_ROUTER, OPT_DNS, OPT_HOSTNAME, OPT_DOMAIN_NAME, OPT_MTU,
      OPT_BROADCAST, OPT_NTP, OPT_LEASE_TIME, OPT_RENEWAL_T1, OPT_REBINDING_T2,
      OPT_DOMAIN_SEARCH, OPT_CLASSLESS_STATIC_ROUTE]"

definition m_push :: "u8 \<Rightarrow> bytes \<Rightarrow> message \<Rightarrow> message" where
  "m_push code data m = m\<lparr>m_options := opt_push (m_options m) code data\<rparr>"

definition common_options :: "dhcp4 \<Rightarrow> message \<Rightarrow> message_type \<Rightarrow> message" where
  "common_options c m kind =
     (let m = m_push OPT_MESSAGE_TYPE [message_type_code kind] m;
          m = m_push OPT_CLIENT_ID (cfg_client_id (c_config c)) m;
          m = m_push OPT_MAX_MESSAGE_SIZE (be16 1500) m;
          m = m_push OPT_PARAMETER_REQUEST_LIST parameter_request_list m
      in case cfg_hostname (c_config c) of
           None \<Rightarrow> m
         | Some h \<Rightarrow> m_push OPT_HOSTNAME (as_bytes h) m)"

definition schedule_backoff :: "dhcp4 \<Rightarrow> instant \<Rightarrow> dhcp4" where
  "schedule_backoff c now =
     (let (c, r) = dhcp4_next_random c;
          jitter = millis (unat r mod 2000)
      in c\<lparr>c_retransmit_at := Some (now + c_backoff c + jitter - secs 1),
           c_backoff := min (c_backoff c * 2) MAX_BACKOFF\<rparr>)"

section \<open>Transitions\<close>

definition send_discover :: "dhcp4 \<Rightarrow> instant \<Rightarrow> dhcp4 \<times> dhcp4_action list" where
  "send_discover c now =
     (let m = (base_message c now)\<lparr>m_broadcast := True\<rparr>;
          m = common_options c m Discover;
          m = (case c_reboot_address c of
                 None \<Rightarrow> m | Some a \<Rightarrow> m_push OPT_REQUESTED_IP (octets4 a) m)
      in (schedule_backoff c now, [Send m Broadcast]))"

definition enter_selecting :: "dhcp4 \<Rightarrow> instant \<Rightarrow> dhcp4 \<times> dhcp4_action list" where
  "enter_selecting c now =
     (let c = c\<lparr>c_state := Selecting\<rparr>;
          (c, r) = dhcp4_next_random c
      in send_discover (c\<lparr>c_xid := r, c_attempts := 0, c_backoff := FIRST_BACKOFF,
                           c_offer := None\<rparr>) now)"

definition send_request_for_offer :: "dhcp4 \<Rightarrow> instant \<Rightarrow> dhcp4 \<times> dhcp4_action list" where
  "send_request_for_offer c now =
     (case c_offer c of
        None \<Rightarrow> enter_selecting c now
      | Some offer \<Rightarrow>
          (let m = (base_message c now)\<lparr>m_broadcast := True\<rparr>;
               m = common_options c m Request;
               m = m_push OPT_REQUESTED_IP (octets4 (m_yiaddr offer)) m;
               m = (case opt_get (m_options offer) OPT_SERVER_ID of
                      None \<Rightarrow> m | Some server \<Rightarrow> m_push OPT_SERVER_ID server m)
           in (schedule_backoff c now, [Send m Broadcast])))"

definition send_reboot_request :: "dhcp4 \<Rightarrow> instant \<Rightarrow> dhcp4 \<times> dhcp4_action list" where
  "send_reboot_request c now =
     (case c_reboot_address c of
        None \<Rightarrow> enter_selecting c now
      | Some address \<Rightarrow>
          (let m = (base_message c now)\<lparr>m_broadcast := True\<rparr>;
               m = common_options c m Request;
               m = m_push OPT_REQUESTED_IP (octets4 address) m
           in (schedule_backoff c now, [Send m Broadcast])))"

definition send_renewal :: "dhcp4 \<Rightarrow> instant \<Rightarrow> dhcp4 \<times> dhcp4_action list" where
  "send_renewal c now =
     (case (c_lease c, c_bound_at c) of
        (Some l, Some bound_at) \<Rightarrow>
          (let m = (base_message c now)\<lparr>m_ciaddr := l_address l\<rparr>;
               m = common_options c m Request;
               destination = (if c_state c = Renewing then Unicast (l_server l) (l_address l)
                              else Broadcast);
               boundary = (if c_state c = Renewing then l_t2 l else l_lease_time l);
               remaining = saturating_duration_since (lease_at bound_at boundary) now
           in (c\<lparr>c_retransmit_at := Some (now + max (remaining div 2) MIN_RETRANSMIT)\<rparr>,
               [Send m destination]))
      | _ \<Rightarrow> (c, []))"

definition enter_requesting :: "dhcp4 \<Rightarrow> instant \<Rightarrow> dhcp4 \<times> dhcp4_action list" where
  "enter_requesting c now =
     send_request_for_offer
       (c\<lparr>c_state := Requesting, c_attempts := 0, c_backoff := FIRST_BACKOFF\<rparr>) now"

definition enter_rebooting :: "dhcp4 \<Rightarrow> instant \<Rightarrow> dhcp4 \<times> dhcp4_action list" where
  "enter_rebooting c now =
     (let (c, r) = dhcp4_next_random (c\<lparr>c_state := Rebooting\<rparr>)
      in send_reboot_request
           (c\<lparr>c_xid := r, c_attempts := 0, c_backoff := FIRST_BACKOFF\<rparr>) now)"

definition enter_renewing :: "dhcp4 \<Rightarrow> instant \<Rightarrow> dhcp4 \<times> dhcp4_action list" where
  "enter_renewing c now =
     (let (c, r) = dhcp4_next_random (c\<lparr>c_state := Renewing\<rparr>)
      in send_renewal (c\<lparr>c_xid := r, c_attempts := 0\<rparr>) now)"

definition enter_rebinding :: "dhcp4 \<Rightarrow> instant \<Rightarrow> dhcp4 \<times> dhcp4_action list" where
  "enter_rebinding c now =
     (let (c, r) = dhcp4_next_random (c\<lparr>c_state := Rebinding\<rparr>)
      in send_renewal (c\<lparr>c_xid := r, c_attempts := 0\<rparr>) now)"

definition dhcp4_retransmit :: "dhcp4 \<Rightarrow> instant \<Rightarrow> dhcp4 \<times> dhcp4_action list" where
  "dhcp4_retransmit c now =
     (case c_state c of
        Selecting \<Rightarrow>
          (let c = c\<lparr>c_attempts := c_attempts c + 1\<rparr>;
               report = DISCOVERS_BEFORE_NO_OFFER \<le> c_attempts c \<and> \<not> c_no_offer_reported c;
               c = (if report then c\<lparr>c_no_offer_reported := True\<rparr> else c);
               (c, actions) = send_discover c now
           in (c, (if report then [NoOffer] else []) @ actions))
      | Requesting \<Rightarrow>
          (let c = c\<lparr>c_attempts := c_attempts c + 1\<rparr>
           in if MAX_REQUESTS \<le> c_attempts c then enter_selecting c now
              else send_request_for_offer c now)
      | Rebooting \<Rightarrow>
          (let c = c\<lparr>c_attempts := c_attempts c + 1\<rparr>
           in if 2 \<le> c_attempts c then enter_selecting (c\<lparr>c_reboot_address := None\<rparr>) now
              else send_reboot_request c now)
      | Renewing \<Rightarrow> send_renewal c now
      | Rebinding \<Rightarrow> send_renewal c now
      | _ \<Rightarrow> (c, []))"

section \<open>The interface\<close>

definition dhcp4_start :: "dhcp4 \<Rightarrow> instant \<Rightarrow> ipv4 option \<Rightarrow> dhcp4 \<times> dhcp4_action list" where
  "dhcp4_start c now previous =
     (let c = c\<lparr>c_started := now, c_lease := None, c_bound_at := None, c_offer := None,
                c_no_offer_reported := False\<rparr>
      in case previous of
           Some address \<Rightarrow> enter_rebooting (c\<lparr>c_reboot_address := Some address\<rparr>) now
         | None \<Rightarrow> enter_selecting c now)"

definition dhcp4_release :: "dhcp4 \<Rightarrow> instant \<Rightarrow> dhcp4 \<times> dhcp4_action list" where
  "dhcp4_release c now =
     (let actions =
        (case c_lease c of
           None \<Rightarrow> []
         | Some l \<Rightarrow>
             if c_state c \<in> {Bound, Renewing, Rebinding} then
               (let m = (base_message c now)\<lparr>m_ciaddr := l_address l\<rparr>;
                    m = m_push OPT_MESSAGE_TYPE [message_type_code Release] m;
                    m = m_push OPT_SERVER_ID (octets4 (l_server l)) m;
                    m = m_push OPT_CLIENT_ID (cfg_client_id (c_config c)) m
                in [Send m (Unicast (l_server l) (l_address l))])
             else [])
      in (c\<lparr>c_state := Init, c_lease := None, c_bound_at := None, c_retransmit_at := None\<rparr>,
          actions))"

definition dhcp4_renew_now :: "dhcp4 \<Rightarrow> instant \<Rightarrow> dhcp4 \<times> dhcp4_action list" where
  "dhcp4_renew_now c now =
     (if c_state c \<in> {Bound, Renewing, Rebinding} then enter_renewing c now else (c, []))"

text \<open>The second half of \<^verbatim>\<open>tick\<close>: retransmit when due, after the actions so far.\<close>

definition tick_retransmit :: "dhcp4 \<times> dhcp4_action list \<Rightarrow> instant \<Rightarrow> dhcp4 \<times> dhcp4_action list" where
  "tick_retransmit ca now =
     (case ca of (c, actions) \<Rightarrow>
        (case c_retransmit_at c of
           Some at \<Rightarrow>
             if at \<le> now then (let (c', more) = dhcp4_retransmit c now in (c', actions @ more))
             else (c, actions)
         | None \<Rightarrow> (c, actions)))"

definition dhcp4_tick :: "dhcp4 \<Rightarrow> instant \<Rightarrow> dhcp4 \<times> dhcp4_action list" where
  "dhcp4_tick c now =
     (case (c_lease c, c_bound_at c) of
        (Some l, Some b) \<Rightarrow>
          if c_state c = Bound \<and> lease_at b (l_t1 l) \<le> now then
            tick_retransmit (enter_renewing c now) now
          else if c_state c = Renewing \<and> lease_at b (l_t2 l) \<le> now then
            tick_retransmit (enter_rebinding c now) now
          else if c_state c = Rebinding \<and> lease_at b (l_lease_time l) \<le> now then
            (let (c', actions) = enter_selecting (c\<lparr>c_lease := None, c_bound_at := None\<rparr>) now
             in (c', Lost # actions))
          else tick_retransmit (c, []) now
      | _ \<Rightarrow> tick_retransmit (c, []) now)"

text \<open>The server an acknowledgement or refusal must come from, once one has been chosen.\<close>

definition chosen_server :: "dhcp4 \<Rightarrow> ipv4 option" where
  "chosen_server c =
     (case c_lease c of
        Some l \<Rightarrow> Some (l_server l)
      | None \<Rightarrow> Option.bind (c_offer c) (\<lambda>offer. opt_ipv4 (m_options offer) OPT_SERVER_ID))"

definition from_stranger :: "dhcp4 \<Rightarrow> message \<Rightarrow> message_type \<Rightarrow> bool" where
  "from_stranger c m kind =
     (kind \<in> {Ack, Nak} \<and>
      (case chosen_server c of
         None \<Rightarrow> False
       | Some chosen \<Rightarrow> opt_ipv4 (m_options m) OPT_SERVER_ID \<noteq> Some chosen))"

definition receive_ack :: "dhcp4 \<Rightarrow> instant \<Rightarrow> message \<Rightarrow> dhcp4 \<times> dhcp4_action list" where
  "receive_ack c now m =
     (case lease_from_ack m of
        Some l \<Rightarrow>
          (c\<lparr>c_no_offer_reported := False, c_state := Bound, c_retransmit_at := None,
             c_bound_at := Some now, c_lease := Some l, c_reboot_address := Some (l_address l)\<rparr>,
           [BoundTo l])
      | None \<Rightarrow> (c, []))"

definition dhcp4_receive :: "dhcp4 \<Rightarrow> instant \<Rightarrow> message \<Rightarrow> dhcp4 \<times> dhcp4_action list" where
  "dhcp4_receive c now m =
     (if \<not> m_is_reply m \<or> m_xid m \<noteq> c_xid c \<or> m_chaddr m \<noteq> cfg_chaddr (c_config c) then (c, [])
      else (case message_message_type m of
        None \<Rightarrow> (c, [])
      | Some kind \<Rightarrow>
          if from_stranger c m kind then (c, [])
          else if c_state c = Selecting \<and> kind = Offer then
            (if m_yiaddr m = 0 \<or> opt_ipv4 (m_options m) OPT_SERVER_ID = None then (c, [])
             else enter_requesting (c\<lparr>c_offer := Some m\<rparr>) now)
          else if c_state c \<in> {Requesting, Rebooting, Renewing, Rebinding} \<and> kind = Ack then
            receive_ack c now m
          else if c_state c \<in> {Requesting, Rebooting} \<and> kind = Nak then
            enter_selecting (c\<lparr>c_reboot_address := None, c_offer := None\<rparr>) now
          else if c_state c \<in> {Renewing, Rebinding} \<and> kind = Nak then
            (let (c', actions) = enter_selecting
                   (c\<lparr>c_lease := None, c_bound_at := None, c_reboot_address := None\<rparr>) now
             in (c', Lost # actions))
          else (c, [])))"


section \<open>What the transitions leave\<close>

lemma dhcp4_next_random_fields [simp]:
  "c_config (fst (dhcp4_next_random c)) = c_config c"
  "c_state (fst (dhcp4_next_random c)) = c_state c"
  "c_xid (fst (dhcp4_next_random c)) = c_xid c"
  "c_started (fst (dhcp4_next_random c)) = c_started c"
  "c_retransmit_at (fst (dhcp4_next_random c)) = c_retransmit_at c"
  "c_backoff (fst (dhcp4_next_random c)) = c_backoff c"
  "c_attempts (fst (dhcp4_next_random c)) = c_attempts c"
  "c_no_offer_reported (fst (dhcp4_next_random c)) = c_no_offer_reported c"
  "c_offer (fst (dhcp4_next_random c)) = c_offer c"
  "c_lease (fst (dhcp4_next_random c)) = c_lease c"
  "c_bound_at (fst (dhcp4_next_random c)) = c_bound_at c"
  "c_reboot_address (fst (dhcp4_next_random c)) = c_reboot_address c"
  by (simp_all add: dhcp4_next_random_def Let_def)

lemma schedule_backoff_fields [simp]:
  "c_config (schedule_backoff c now) = c_config c"
  "c_state (schedule_backoff c now) = c_state c"
  "c_xid (schedule_backoff c now) = c_xid c"
  "c_started (schedule_backoff c now) = c_started c"
  "c_backoff (schedule_backoff c now) = min (c_backoff c * 2) MAX_BACKOFF"
  "c_attempts (schedule_backoff c now) = c_attempts c"
  "c_no_offer_reported (schedule_backoff c now) = c_no_offer_reported c"
  "c_offer (schedule_backoff c now) = c_offer c"
  "c_lease (schedule_backoff c now) = c_lease c"
  "c_bound_at (schedule_backoff c now) = c_bound_at c"
  "c_reboot_address (schedule_backoff c now) = c_reboot_address c"
  by (simp_all add: schedule_backoff_def Let_def split_def)

text \<open>The jitter: one second either way of the backoff.\<close>

lemma schedule_backoff_retransmit:
  obtains t where "c_retransmit_at (schedule_backoff c now) = Some t"
    and "now + c_backoff c - secs 1 \<le> t" and "secs 1 \<le> c_backoff c \<Longrightarrow> t < now + c_backoff c + secs 1"
proof -
  have "unat (snd (dhcp4_next_random c)) mod 2000 < 2000" by simp
  then have "millis (unat (snd (dhcp4_next_random c)) mod 2000) < secs 2"
    by (simp add: time_simps)
  then show ?thesis
    by (intro that [of "now + c_backoff c + millis (unat (snd (dhcp4_next_random c)) mod 2000) - secs 1"])
       (auto simp: schedule_backoff_def Let_def split_def time_simps)
qed

lemma schedule_backoff_armed [simp]: "\<exists>t. c_retransmit_at (schedule_backoff c now) = Some t"
  by (rule schedule_backoff_retransmit [of c now]) blast

lemma send_discover_fst [simp]: "fst (send_discover c now) = schedule_backoff c now"
  by (simp add: send_discover_def Let_def)

lemma enter_selecting_fields [simp]:
  "c_config (fst (enter_selecting c now)) = c_config c"
  "c_state (fst (enter_selecting c now)) = Selecting"
  "c_started (fst (enter_selecting c now)) = c_started c"
  "c_backoff (fst (enter_selecting c now)) = secs 8"
  "c_attempts (fst (enter_selecting c now)) = 0"
  "c_no_offer_reported (fst (enter_selecting c now)) = c_no_offer_reported c"
  "c_offer (fst (enter_selecting c now)) = None"
  "c_lease (fst (enter_selecting c now)) = c_lease c"
  "c_bound_at (fst (enter_selecting c now)) = c_bound_at c"
  "c_reboot_address (fst (enter_selecting c now)) = c_reboot_address c"
  by (simp_all add: enter_selecting_def Let_def split_def time_simps)

lemma send_renewal_fields [simp]:
  "c_config (fst (send_renewal c now)) = c_config c"
  "c_state (fst (send_renewal c now)) = c_state c"
  "c_started (fst (send_renewal c now)) = c_started c"
  "c_backoff (fst (send_renewal c now)) = c_backoff c"
  "c_attempts (fst (send_renewal c now)) = c_attempts c"
  "c_no_offer_reported (fst (send_renewal c now)) = c_no_offer_reported c"
  "c_offer (fst (send_renewal c now)) = c_offer c"
  "c_lease (fst (send_renewal c now)) = c_lease c"
  "c_bound_at (fst (send_renewal c now)) = c_bound_at c"
  "c_reboot_address (fst (send_renewal c now)) = c_reboot_address c"
  by (simp_all add: send_renewal_def Let_def split: option.splits)

text \<open>The deadline a retransmission sets is always at least three seconds away.\<close>

definition rearmed :: "dhcp4 \<Rightarrow> instant \<Rightarrow> bool" where
  "rearmed c now = (\<exists>t. c_retransmit_at c = Some t \<and> now + secs 3 \<le> t)"

definition backoff_ok :: "dhcp4 \<Rightarrow> bool" where
  "backoff_ok c = (secs 4 \<le> c_backoff c \<and> c_backoff c \<le> secs 64)"

lemma backoff_ok_schedule [simp]: "backoff_ok c \<Longrightarrow> backoff_ok (schedule_backoff c now)"
  by (auto simp: backoff_ok_def time_simps)

lemma rearmed_schedule: "backoff_ok c \<Longrightarrow> rearmed (schedule_backoff c now) now"
  by (rule schedule_backoff_retransmit [of c now]) (auto simp: rearmed_def backoff_ok_def time_simps)

lemma rearmed_enter_selecting [simp]: "rearmed (fst (enter_selecting c now)) now"
  by (auto simp: enter_selecting_def Let_def split_def backoff_ok_def time_simps intro!: rearmed_schedule)

lemma rearmed_send_renewal:
  "c_lease c = Some l \<Longrightarrow> c_bound_at c = Some b \<Longrightarrow> rearmed (fst (send_renewal c now)) now"
  by (auto simp: send_renewal_def Let_def rearmed_def time_simps)

lemma rearmed_later: "rearmed c now \<Longrightarrow> later (c_retransmit_at c) now"
  by (auto simp: rearmed_def time_simps)

section \<open>The invariant\<close>

definition usable_offer :: "message \<Rightarrow> bool" where
  "usable_offer m = (m_yiaddr m \<noteq> 0 \<and> opt_ipv4 (m_options m) OPT_SERVER_ID \<noteq> None)"

definition leased :: "dhcp4 \<Rightarrow> bool" where
  "leased c = (\<exists>l b. c_lease c = Some l \<and> c_bound_at c = Some b \<and> wf_lease l)"

definition unleased :: "dhcp4 \<Rightarrow> bool" where
  "unleased c = (c_lease c = None \<and> c_bound_at c = None)"

definition dhcp4_inv :: "dhcp4 \<Rightarrow> bool" where
  "dhcp4_inv c =
     (backoff_ok c \<and>
      (case c_state c of
         Init \<Rightarrow> unleased c \<and> c_retransmit_at c = None
       | Selecting \<Rightarrow> unleased c \<and> c_retransmit_at c \<noteq> None \<and> c_offer c = None
       | Requesting \<Rightarrow> unleased c \<and> c_retransmit_at c \<noteq> None
                      \<and> (\<exists>m. c_offer c = Some m \<and> usable_offer m)
       | Rebooting \<Rightarrow> unleased c \<and> c_retransmit_at c \<noteq> None \<and> c_reboot_address c \<noteq> None
                     \<and> c_offer c = None
       | Bound \<Rightarrow> leased c \<and> c_retransmit_at c = None
       | Renewing \<Rightarrow> leased c \<and> c_retransmit_at c \<noteq> None
       | Rebinding \<Rightarrow> leased c \<and> c_retransmit_at c \<noteq> None))"

lemma rearmed_not_None: "rearmed c now \<Longrightarrow> c_retransmit_at c \<noteq> None"
  by (auto simp: rearmed_def)

lemma inv_enter_selecting: "unleased c \<Longrightarrow> dhcp4_inv (fst (enter_selecting c now))"
  using rearmed_not_None [OF rearmed_enter_selecting]
  by (auto simp: dhcp4_inv_def unleased_def backoff_ok_def time_simps)

lemma inv_send_renewal:
  "leased c \<Longrightarrow> backoff_ok c \<Longrightarrow> c_state c \<in> {Renewing, Rebinding} \<Longrightarrow>
   dhcp4_inv (fst (send_renewal c now))"
  using rearmed_not_None [OF rearmed_send_renewal]
  by (fastforce simp: dhcp4_inv_def leased_def backoff_ok_def)

lemma inv_enter_renewing:
  "leased c \<Longrightarrow> backoff_ok c \<Longrightarrow> dhcp4_inv (fst (enter_renewing c now))"
  unfolding enter_renewing_def Let_def split_def
  by (rule inv_send_renewal) (auto simp: leased_def backoff_ok_def)

lemma inv_enter_rebinding:
  "leased c \<Longrightarrow> backoff_ok c \<Longrightarrow> dhcp4_inv (fst (enter_rebinding c now))"
  unfolding enter_rebinding_def Let_def split_def
  by (rule inv_send_renewal) (auto simp: leased_def backoff_ok_def)

lemma inv_send_request_for_offer:
  assumes "unleased c" "backoff_ok c" "c_state c = Requesting"
    "c_offer c = Some m" "usable_offer m"
  shows "dhcp4_inv (fst (send_request_for_offer c now))"
  using assms rearmed_not_None [OF rearmed_schedule [of c now]]
  by (auto simp: send_request_for_offer_def Let_def dhcp4_inv_def unleased_def)

lemma inv_send_reboot_request:
  assumes "unleased c" "backoff_ok c" "c_state c = Rebooting"
    "c_reboot_address c \<noteq> None" "c_offer c = None"
  shows "dhcp4_inv (fst (send_reboot_request c now))"
  using assms rearmed_not_None [OF rearmed_schedule [of c now]]
  by (auto simp: send_reboot_request_def Let_def dhcp4_inv_def unleased_def)

lemma inv_enter_rebooting:
  assumes "unleased c" "c_reboot_address c \<noteq> None" "c_offer c = None"
  shows "dhcp4_inv (fst (enter_rebooting c now))"
  unfolding enter_rebooting_def Let_def split_def
  by (rule inv_send_reboot_request) (use assms in \<open>auto simp: unleased_def backoff_ok_def time_simps\<close>)

lemma inv_backoff: "dhcp4_inv c \<Longrightarrow> backoff_ok c"
  by (simp add: dhcp4_inv_def)

lemma inv_leased_iff:
  "dhcp4_inv c \<Longrightarrow> leased c \<longleftrightarrow> c_state c \<in> {Bound, Renewing, Rebinding}"
  by (auto simp: dhcp4_inv_def leased_def unleased_def split: dhcp4_state.splits)

lemma inv_unleased_iff:
  "dhcp4_inv c \<Longrightarrow> unleased c \<longleftrightarrow> c_state c \<notin> {Bound, Renewing, Rebinding}"
  by (auto simp: dhcp4_inv_def leased_def unleased_def split: dhcp4_state.splits)

lemma inv_retransmit:
  assumes "dhcp4_inv c"
  shows "dhcp4_inv (fst (dhcp4_retransmit c now))"
proof (cases "c_state c")
  case Selecting
  with assms show ?thesis
    by (auto simp: dhcp4_retransmit_def Let_def split_def dhcp4_inv_def unleased_def backoff_ok_def
        time_simps)
next
  case Requesting
  then obtain m where "c_offer c = Some m" "usable_offer m" "unleased c" "backoff_ok c"
    using assms by (auto simp: dhcp4_inv_def)
  then show ?thesis
    using Requesting
    by (auto simp: dhcp4_retransmit_def Let_def unleased_def backoff_ok_def
        intro!: inv_enter_selecting inv_send_request_for_offer)
next
  case Rebooting
  then have "unleased c" "backoff_ok c" "c_reboot_address c \<noteq> None" "c_offer c = None"
    using assms by (auto simp: dhcp4_inv_def)
  then show ?thesis
    using Rebooting
    by (auto simp: dhcp4_retransmit_def Let_def unleased_def backoff_ok_def
        intro!: inv_enter_selecting inv_send_reboot_request)
next
  case Renewing
  with assms show ?thesis
    by (auto simp: dhcp4_retransmit_def inv_leased_iff inv_backoff intro!: inv_send_renewal)
next
  case Rebinding
  with assms show ?thesis
    by (auto simp: dhcp4_retransmit_def inv_leased_iff inv_backoff intro!: inv_send_renewal)
qed (use assms in \<open>simp_all add: dhcp4_retransmit_def\<close>)

lemma inv_tick_retransmit: "dhcp4_inv (fst ca) \<Longrightarrow> dhcp4_inv (fst (tick_retransmit ca now))"
  using inv_retransmit [of "fst ca" now]
  by (auto simp: tick_retransmit_def Let_def split_def split: option.splits)

lemma inv_start: "dhcp4_inv (fst (dhcp4_start c now previous))"
  by (auto simp: dhcp4_start_def Let_def unleased_def split: option.splits
      intro!: inv_enter_selecting inv_enter_rebooting)

lemma inv_release: "dhcp4_inv c \<Longrightarrow> dhcp4_inv (fst (dhcp4_release c now))"
  by (simp add: dhcp4_release_def dhcp4_inv_def unleased_def backoff_ok_def)

lemma inv_renew_now: "dhcp4_inv c \<Longrightarrow> dhcp4_inv (fst (dhcp4_renew_now c now))"
  by (auto simp: dhcp4_renew_now_def inv_leased_iff inv_backoff intro!: inv_enter_renewing)

lemma inv_tick: "dhcp4_inv c \<Longrightarrow> dhcp4_inv (fst (dhcp4_tick c now))"
  by (auto simp: dhcp4_tick_def Let_def split_def inv_leased_iff inv_backoff unleased_def
      split: option.splits
      intro!: inv_tick_retransmit inv_enter_renewing inv_enter_rebinding inv_enter_selecting)

lemma inv_receive_ack: "dhcp4_inv c \<Longrightarrow> dhcp4_inv (fst (receive_ack c now m))"
  by (cases "lease_from_ack m")
     (auto simp: receive_ack_def dhcp4_inv_def leased_def backoff_ok_def dest: lease_from_ack_wf)

lemma inv_receive:
  assumes "dhcp4_inv c"
  shows "dhcp4_inv (fst (dhcp4_receive c now m))"
proof -
  have "dhcp4_inv (fst (enter_requesting (c\<lparr>c_offer := Some m\<rparr>) now))"
    if "c_state c = Selecting" "usable_offer m"
    using assms that unfolding enter_requesting_def
    by (intro inv_send_request_for_offer [of _ m])
       (auto simp: dhcp4_inv_def unleased_def backoff_ok_def time_simps)
  with assms show ?thesis
    by (auto simp: dhcp4_receive_def Let_def split_def usable_offer_def unleased_def inv_receive_ack
        inv_unleased_iff [unfolded unleased_def]
        split: option.splits intro!: inv_enter_selecting)
qed

section \<open>Runs\<close>

datatype dhcp4_event =
    EvStart "ipv4 option"
  | EvRelease
  | EvRenew
  | EvTick
  | EvReceive message

text \<open>One call of the interface: what the caller does next, at what time, is its choice.\<close>

fun dhcp4_step :: "dhcp4 \<Rightarrow> instant \<Rightarrow> dhcp4_event \<Rightarrow> dhcp4 \<times> dhcp4_action list" where
  "dhcp4_step c now (EvStart previous) = dhcp4_start c now previous"
| "dhcp4_step c now EvRelease = dhcp4_release c now"
| "dhcp4_step c now EvRenew = dhcp4_renew_now c now"
| "dhcp4_step c now EvTick = dhcp4_tick c now"
| "dhcp4_step c now (EvReceive m) = dhcp4_receive c now m"

fun dhcp4_run :: "dhcp4 \<Rightarrow> (instant \<times> dhcp4_event) list \<Rightarrow> dhcp4 \<times> dhcp4_action list" where
  "dhcp4_run c [] = (c, [])"
| "dhcp4_run c ((now, e) # es) =
     (let (c1, as1) = dhcp4_step c now e; (c2, as2) = dhcp4_run c1 es in (c2, as1 @ as2))"

inductive dhcp4_reachable :: "dhcp4_config \<Rightarrow> dhcp4 \<Rightarrow> bool" for config where
  fresh: "dhcp4_reachable config (dhcp4_new config now)"
| step: "dhcp4_reachable config c \<Longrightarrow> dhcp4_step c now e = (c', as) \<Longrightarrow> dhcp4_reachable config c'"

inductive_cases dhcp4_reachable_cases: "dhcp4_reachable config c"

lemma inv_new: "dhcp4_inv (dhcp4_new config now)"
  by (simp add: dhcp4_new_def dhcp4_inv_def unleased_def backoff_ok_def time_simps)

lemma inv_step: "dhcp4_inv c \<Longrightarrow> dhcp4_inv (fst (dhcp4_step c now e))"
  by (cases e) (simp_all add: inv_start inv_release inv_renew_now inv_tick inv_receive)

lemma reachable_inv: "dhcp4_reachable config c \<Longrightarrow> dhcp4_inv c"
proof (induction rule: dhcp4_reachable.induct)
  case (fresh now)
  show ?case by (rule inv_new)
next
  case (step c now e c' as)
  then show ?case using inv_step [of c now e] by simp
qed

lemma run_inv: "dhcp4_inv c \<Longrightarrow> dhcp4_inv (fst (dhcp4_run c es))"
proof (induction es arbitrary: c)
  case (Cons x es)
  then show ?case using inv_step [of c "fst x" "snd x"]
    by (cases x) (auto simp: split_def Let_def)
qed simp

lemma run_reachable: "dhcp4_reachable config c \<Longrightarrow> dhcp4_reachable config (fst (dhcp4_run c es))"
proof (induction es arbitrary: c)
  case (Cons x es)
  obtain now e where x: "x = (now, e)" by force
  have "dhcp4_reachable config (fst (dhcp4_step c now e))"
    by (rule dhcp4_reachable.step [OF Cons.prems]) (rule prod.collapse [symmetric])
  with Cons.IH x show ?case by (simp add: split_def Let_def)
qed simp

section \<open>Deadlines\<close>

definition dhcp4_phase :: "dhcp4 \<Rightarrow> nat" where
  "dhcp4_phase c = (case c_state c of Bound \<Rightarrow> 2 | Renewing \<Rightarrow> 1 | _ \<Rightarrow> 0)"

lemma boundary_unleased [simp]: "unleased c \<Longrightarrow> dhcp4_boundary c = None"
  by (simp add: unleased_def dhcp4_boundary_def)

lemma later_next_deadline [simp]:
  "later (dhcp4_next_deadline c) now \<longleftrightarrow> later (c_retransmit_at c) now \<and> later (dhcp4_boundary c) now"
  by (simp add: dhcp4_next_deadline_def)

text \<open>Before the deadline a tick does nothing at all.\<close>

lemma tick_idle: "later (dhcp4_next_deadline c) now \<Longrightarrow> dhcp4_tick c now = (c, [])"
  by (auto simp: dhcp4_tick_def tick_retransmit_def dhcp4_boundary_def
      split: option.splits dhcp4_state.splits)

lemma retransmit_unleased:
  assumes "dhcp4_inv c" "c_state c \<in> {Selecting, Requesting, Rebooting}"
  shows "unleased (fst (dhcp4_retransmit c now))" "rearmed (fst (dhcp4_retransmit c now)) now"
  using assms
  by (auto simp: dhcp4_retransmit_def Let_def split_def dhcp4_inv_def unleased_def backoff_ok_def
      send_request_for_offer_def send_reboot_request_def intro!: rearmed_schedule
      split: option.splits)

lemma tick_unleased:
  assumes "dhcp4_inv c" "c_state c \<in> {Init, Selecting, Requesting, Rebooting}"
  shows "later (dhcp4_next_deadline (fst (dhcp4_tick c now))) now"
proof -
  have un: "unleased c" using assms by (auto simp: inv_unleased_iff)
  then have "dhcp4_tick c now = tick_retransmit (c, []) now"
    by (simp add: dhcp4_tick_def unleased_def)
  moreover have "c_state c = Init \<Longrightarrow> c_retransmit_at c = None"
    using assms(1) by (simp add: dhcp4_inv_def)
  ultimately show ?thesis
    using assms un retransmit_unleased [of c now]
    by (auto simp: tick_retransmit_def Let_def split_def rearmed_later split: option.splits)
qed

lemma renewal_later:
  assumes "leased c" "c_state c \<in> {Renewing, Rebinding}" "later (dhcp4_boundary c) now"
  shows "later (dhcp4_next_deadline (fst (dhcp4_retransmit c now))) now"
proof -
  obtain l b where "c_lease c = Some l" "c_bound_at c = Some b"
    using assms(1) by (auto simp: leased_def)
  then have "rearmed (fst (send_renewal c now)) now" by (rule rearmed_send_renewal)
  moreover have "dhcp4_boundary (fst (send_renewal c now)) = dhcp4_boundary c"
    by (simp add: dhcp4_boundary_def cong: option.case_cong)
  ultimately show ?thesis
    using assms(2,3) by (auto simp: dhcp4_retransmit_def rearmed_later)
qed

lemma tick_in_boundary:
  assumes "dhcp4_inv c" "leased c" "later (dhcp4_boundary c) now"
  shows "dhcp4_tick c now = tick_retransmit (c, []) now"
    "later (dhcp4_next_deadline (fst (dhcp4_tick c now))) now"
proof -
  show eq: "dhcp4_tick c now = tick_retransmit (c, []) now"
    using assms(2,3)
    by (auto simp: dhcp4_tick_def leased_def dhcp4_boundary_def split: dhcp4_state.splits)
  have "c_state c = Bound \<Longrightarrow> c_retransmit_at c = None"
    using assms(1) by (simp add: dhcp4_inv_def)
  moreover have "c_state c \<in> {Bound, Renewing, Rebinding}"
    using assms(1,2) inv_leased_iff by blast
  ultimately show "later (dhcp4_next_deadline (fst (dhcp4_tick c now))) now"
    using assms renewal_later [of c now] unfolding eq
    by (auto simp: tick_retransmit_def Let_def split_def split: option.splits)
qed

lemma tick_at_boundary:
  assumes "dhcp4_inv c" "leased c" "\<not> later (dhcp4_boundary c) now"
  shows "c_state c = Bound \<Longrightarrow> c_state (fst (dhcp4_tick c now)) = Renewing"
    "c_state c = Renewing \<Longrightarrow> c_state (fst (dhcp4_tick c now)) = Rebinding"
    "c_state c = Rebinding \<Longrightarrow> fst (dhcp4_tick c now) =
       fst (enter_selecting (c\<lparr>c_lease := None, c_bound_at := None\<rparr>) now)
       \<and> Lost \<in> set (snd (dhcp4_tick c now))"
proof -
  obtain l b where lb: "c_lease c = Some l" "c_bound_at c = Some b"
    using assms(2) by (auto simp: leased_def)
  let ?c1 = "fst (enter_renewing c now)" and ?c2 = "fst (enter_rebinding c now)"
  have r: "rearmed ?c1 now" "rearmed ?c2 now"
    unfolding enter_renewing_def enter_rebinding_def Let_def split_def
    by (rule rearmed_send_renewal [of _ l b], simp_all add: lb)+
  have st: "c_state ?c1 = Renewing" "c_state ?c2 = Rebinding"
    by (simp_all add: enter_renewing_def enter_rebinding_def Let_def split_def)
  have keep: "tick_retransmit ca now = ca" if "rearmed (fst ca) now" for ca
    using that by (auto simp: tick_retransmit_def rearmed_def split_def time_simps)
  show "c_state c = Bound \<Longrightarrow> c_state (fst (dhcp4_tick c now)) = Renewing"
    "c_state c = Renewing \<Longrightarrow> c_state (fst (dhcp4_tick c now)) = Rebinding"
    using assms(3) r st
    by (auto simp: dhcp4_tick_def lb dhcp4_boundary_def keep)
  show "c_state c = Rebinding \<Longrightarrow> fst (dhcp4_tick c now) =
       fst (enter_selecting (c\<lparr>c_lease := None, c_bound_at := None\<rparr>) now)
       \<and> Lost \<in> set (snd (dhcp4_tick c now))"
    using assms(3) by (auto simp: dhcp4_tick_def lb dhcp4_boundary_def Let_def split_def)
qed

lemma tick_progress:
  assumes "dhcp4_inv c"
  shows "later (dhcp4_next_deadline (fst (dhcp4_tick c now))) now
         \<or> dhcp4_phase (fst (dhcp4_tick c now)) < dhcp4_phase c"
proof (cases "leased c")
  case False
  then show ?thesis
    using assms tick_unleased [OF assms] inv_leased_iff [OF assms] by (cases "c_state c") auto
next
  case True
  show ?thesis
  proof (cases "later (dhcp4_boundary c) now")
    case True
    with assms \<open>leased c\<close> show ?thesis using tick_in_boundary(2) by blast
  next
    case False
    have "unleased (fst (enter_selecting (c\<lparr>c_lease := None, c_bound_at := None\<rparr>) now))"
      by (simp add: unleased_def)
    with tick_at_boundary [OF assms \<open>leased c\<close> False] inv_leased_iff [OF assms] \<open>leased c\<close>
    show ?thesis by (auto simp: dhcp4_phase_def rearmed_later)
  qed
qed

abbreviation dhcp4_ticked :: "dhcp4 \<Rightarrow> instant \<Rightarrow> dhcp4 \<Rightarrow> bool" where
  "dhcp4_ticked c now c' \<equiv> fst (dhcp4_tick c now) = c'"

lemma ticks_settle:
  "dhcp4_inv c \<Longrightarrow> dhcp4_phase c < n \<Longrightarrow> ticks dhcp4_ticked n c now c' \<Longrightarrow>
   later (dhcp4_next_deadline c') now"
proof (induction n arbitrary: c)
  case 0
  then show ?case by simp
next
  case (Suc n)
  let ?c1 = "fst (dhcp4_tick c now)"
  have rest: "ticks dhcp4_ticked n ?c1 now c'" using Suc.prems(3) by auto
  have inv: "dhcp4_inv ?c1" using Suc.prems(1) by (rule inv_tick)
  show ?case
  proof (cases "dhcp4_phase ?c1 < dhcp4_phase c")
    case True
    with Suc.IH [OF inv] rest Suc.prems(2) show ?thesis by simp
  next
    case False
    then have "later (dhcp4_next_deadline ?c1) now"
      using tick_progress [OF Suc.prems(1), of now] by blast
    then have "ticks dhcp4_ticked k ?c1 now d \<Longrightarrow> d = ?c1" for k d
      by (induction k arbitrary: d) (auto simp: tick_idle)
    with rest \<open>later (dhcp4_next_deadline ?c1) now\<close> show ?thesis by blast
  qed
qed

lemma dhcp4_phase_le: "dhcp4_phase c < 3"
  by (simp add: dhcp4_phase_def split: dhcp4_state.splits)

interpretation dhcp4_timed: timed_machine dhcp4_ticked dhcp4_next_deadline dhcp4_inv 3
proof
  show "dhcp4_inv m \<Longrightarrow> dhcp4_ticked m now m' \<Longrightarrow> dhcp4_inv m'" for m now m'
    using inv_tick by blast
  show "dhcp4_inv m \<Longrightarrow> ticks dhcp4_ticked 3 m now m' \<Longrightarrow> later (dhcp4_next_deadline m') now" for m now m'
    using ticks_settle dhcp4_phase_le by blast
  show "dhcp4_inv m \<Longrightarrow> later (dhcp4_next_deadline m) now \<Longrightarrow> dhcp4_ticked m now m' \<Longrightarrow>
      later (dhcp4_next_deadline m') now" for m now m'
    using tick_idle by (metis fst_conv)
qed

section \<open>What goes on the wire\<close>

text \<open>A configuration whose options fit the one-byte length field.\<close>

definition wf_config :: "dhcp4_config \<Rightarrow> bool" where
  "wf_config cfg =
     (length (cfg_chaddr cfg) = 6 \<and> length (cfg_client_id cfg) \<le> 255
      \<and> (case cfg_hostname cfg of None \<Rightarrow> True | Some h \<Rightarrow> length h \<le> 255))"

definition wire_ok :: "dhcp4 \<Rightarrow> bool" where
  "wire_ok c = (wf_config (c_config c) \<and> (\<forall>m. c_offer c = Some m \<longrightarrow> wf_message m))"

definition sends_wf :: "dhcp4_action list \<Rightarrow> bool" where
  "sends_wf as = (\<forall>m d. Send m d \<in> set as \<longrightarrow> wf_message m)"

lemma sends_wf_simps [simp]:
  "sends_wf []" "sends_wf (Send m d # as) \<longleftrightarrow> wf_message m \<and> sends_wf as"
  "sends_wf (NoOffer # as) = sends_wf as" "sends_wf (Lost # as) = sends_wf as"
  "sends_wf (BoundTo l # as) = sends_wf as" "sends_wf (as @ bs) \<longleftrightarrow> sends_wf as \<and> sends_wf bs"
  by (auto simp: sends_wf_def)

lemma wf_message_push [simp]:
  "wf_message (m_push code data m) \<longleftrightarrow> wf_message m \<and> wf_option (code, data)"
  by (auto simp: m_push_def wf_message_def opt_push_def)

lemma wf_message_fields [simp]:
  "wf_message (m\<lparr>m_broadcast := b\<rparr>) = wf_message m"
  "wf_message (m\<lparr>m_ciaddr := a\<rparr>) = wf_message m"
  by (simp_all add: wf_message_def)

lemma base_message_wf [simp]: "wf_config (c_config c) \<Longrightarrow> wf_message (base_message c now)"
  by (simp add: base_message_def message_request_def wf_message_def wf_config_def)

lemma common_options_wf [simp]:
  "wf_config (c_config c) \<Longrightarrow> wf_message (common_options c m kind) = wf_message m"
  by (auto simp: common_options_def Let_def wf_option_def wf_config_def parameter_request_list_def
      as_bytes_def split: option.splits)

lemma opt_get_wf:
  assumes "wf_message m" "opt_get (m_options m) code = Some v"
  shows "length v \<le> 255"
  using assms
  by (force simp: opt_get_def find_Some_iff wf_message_def wf_option_def list_all_length)

lemma wire_send_discover:
  "wire_ok c \<Longrightarrow> wire_ok (fst (send_discover c now)) \<and> sends_wf (snd (send_discover c now))"
  by (auto simp: send_discover_def wire_ok_def Let_def wf_option_def split: option.splits)

lemma wire_enter_selecting:
  "wire_ok c \<Longrightarrow> wire_ok (fst (enter_selecting c now)) \<and> sends_wf (snd (enter_selecting c now))"
  unfolding enter_selecting_def Let_def split_def
  by (rule wire_send_discover) (simp add: wire_ok_def)

lemma wire_send_request_for_offer:
  "wire_ok c \<Longrightarrow> wire_ok (fst (send_request_for_offer c now))
     \<and> sends_wf (snd (send_request_for_offer c now))"
  using wire_enter_selecting [of c now]
  by (auto simp: send_request_for_offer_def wire_ok_def Let_def wf_option_def opt_get_wf
      split: option.splits)

lemma wire_send_reboot_request:
  "wire_ok c \<Longrightarrow> wire_ok (fst (send_reboot_request c now))
     \<and> sends_wf (snd (send_reboot_request c now))"
  using wire_enter_selecting [of c now]
  by (auto simp: send_reboot_request_def wire_ok_def Let_def wf_option_def split: option.splits)

lemma wire_send_renewal:
  "wire_ok c \<Longrightarrow> wire_ok (fst (send_renewal c now)) \<and> sends_wf (snd (send_renewal c now))"
  by (auto simp: send_renewal_def wire_ok_def Let_def split: option.splits)

lemma wire_ok_update [simp]:
  "wire_ok (c\<lparr>c_state := s\<rparr>) = wire_ok c" "wire_ok (c\<lparr>c_xid := x\<rparr>) = wire_ok c"
  "wire_ok (c\<lparr>c_attempts := n\<rparr>) = wire_ok c" "wire_ok (c\<lparr>c_backoff := b\<rparr>) = wire_ok c"
  "wire_ok (c\<lparr>c_no_offer_reported := r\<rparr>) = wire_ok c"
  "wire_ok (c\<lparr>c_lease := l\<rparr>) = wire_ok c" "wire_ok (c\<lparr>c_bound_at := t\<rparr>) = wire_ok c"
  "wire_ok (c\<lparr>c_reboot_address := a\<rparr>) = wire_ok c" "wire_ok (c\<lparr>c_started := t'\<rparr>) = wire_ok c"
  "wire_ok (c\<lparr>c_retransmit_at := d\<rparr>) = wire_ok c"
  "wire_ok (fst (dhcp4_next_random c)) = wire_ok c"
  by (simp_all add: wire_ok_def)

lemma wire_ok_offer:
  "wire_ok c \<Longrightarrow> wire_ok (c\<lparr>c_offer := None\<rparr>)"
  "wire_ok c \<Longrightarrow> wf_message m \<Longrightarrow> wire_ok (c\<lparr>c_offer := Some m\<rparr>)"
  by (simp_all add: wire_ok_def)

lemmas wire_calls = wire_send_discover wire_enter_selecting wire_send_request_for_offer
  wire_send_reboot_request wire_send_renewal

lemma wire_enter:
  assumes "wire_ok c"
  shows "wire_ok (fst (enter_requesting c now)) \<and> sends_wf (snd (enter_requesting c now))"
    "wire_ok (fst (enter_rebooting c now)) \<and> sends_wf (snd (enter_rebooting c now))"
    "wire_ok (fst (enter_renewing c now)) \<and> sends_wf (snd (enter_renewing c now))"
    "wire_ok (fst (enter_rebinding c now)) \<and> sends_wf (snd (enter_rebinding c now))"
  unfolding enter_requesting_def enter_rebooting_def enter_renewing_def enter_rebinding_def
    Let_def split_def
  by (rule wire_calls, simp add: assms)+

lemma wire_retransmit:
  "wire_ok c \<Longrightarrow> wire_ok (fst (dhcp4_retransmit c now)) \<and> sends_wf (snd (dhcp4_retransmit c now))"
  by (cases "c_state c") (simp_all add: dhcp4_retransmit_def Let_def split_def wire_calls del: send_discover_fst)

lemma wire_tick_retransmit:
  "wire_ok (fst ca) \<Longrightarrow> sends_wf (snd ca) \<Longrightarrow>
   wire_ok (fst (tick_retransmit ca now)) \<and> sends_wf (snd (tick_retransmit ca now))"
  by (auto simp: tick_retransmit_def Let_def split_def wire_retransmit split: option.splits)

text \<open>A received message is one the decoder returned, so it is well formed.\<close>

fun event_ok :: "dhcp4_event \<Rightarrow> bool" where
  "event_ok (EvReceive m) = wf_message m"
| "event_ok _ = True"

lemma wire_receive:
  assumes "wire_ok c" "wf_message m"
  shows "wire_ok (fst (dhcp4_receive c now m)) \<and> sends_wf (snd (dhcp4_receive c now m))"
proof -
  have "wire_ok (c\<lparr>c_reboot_address := None, c_offer := None\<rparr>)"
    using assms(1) by (simp add: wire_ok_def)
  with assms show ?thesis
    by (auto simp: dhcp4_receive_def receive_ack_def Let_def split_def wire_calls wire_enter
        wire_ok_offer split: option.splits)
qed

lemma wire_tick:
  "wire_ok c \<Longrightarrow> wire_ok (fst (dhcp4_tick c now)) \<and> sends_wf (snd (dhcp4_tick c now))"
  by (auto simp: dhcp4_tick_def Let_def split_def wire_calls wire_enter wire_tick_retransmit
      split: option.splits)

lemma wire_start:
  assumes "wire_ok c"
  shows "wire_ok (fst (dhcp4_start c now p)) \<and> sends_wf (snd (dhcp4_start c now p))"
proof -
  have "wire_ok (c\<lparr>c_started := now, c_lease := None, c_bound_at := None, c_offer := None,
      c_no_offer_reported := False\<rparr>)"
    using assms by (simp add: wire_ok_def)
  then show ?thesis
    by (auto simp: dhcp4_start_def Let_def wire_calls wire_enter split: option.splits)
qed

lemma wire_release:
  "wire_ok c \<Longrightarrow> wire_ok (fst (dhcp4_release c now)) \<and> sends_wf (snd (dhcp4_release c now))"
  by (auto simp: dhcp4_release_def Let_def wire_ok_def wf_option_def wf_config_def
      base_message_wf [unfolded wf_config_def] split: option.splits)

lemma wire_step:
  assumes "wire_ok c" "event_ok e"
  shows "wire_ok (fst (dhcp4_step c now e)) \<and> sends_wf (snd (dhcp4_step c now e))"
  using assms
  by (cases e) (auto simp: wire_start wire_release wire_tick wire_receive wire_enter dhcp4_renew_now_def)

lemma wire_run:
  "wire_ok c \<Longrightarrow> \<forall>(now, e)\<in>set es. event_ok e \<Longrightarrow> sends_wf (snd (dhcp4_run c es))"
proof (induction es arbitrary: c)
  case (Cons x es)
  then show ?case using wire_step [of c "snd x" "fst x"]
    by (cases x) (auto simp: split_def Let_def)
qed simp

lemma wire_new: "wf_config config \<Longrightarrow> wire_ok (dhcp4_new config now)"
  by (simp add: wire_ok_def dhcp4_new_def)

section \<open>The state diagram of RFC 2131\<close>

text \<open>
  The client as its caller sees it: which phase it is in, the server it has
  chosen, the lease it holds and since when.  The diagram is time-forcing: a tick
  leaves a lease phase exactly when its boundary has passed.  The fourth argument
  lists the notices the caller gets about its lease.
\<close>

datatype rfc_state =
    RInit
  | RSelecting
  | RRequesting ipv4
  | RRebooting ipv4
  | RBound lease instant
  | RRenewing lease instant
  | RRebinding lease instant

definition server_of :: "message \<Rightarrow> ipv4 option" where
  "server_of m = opt_ipv4 (m_options m) OPT_SERVER_ID"

inductive rfc2131 :: "rfc_state \<Rightarrow> instant \<Rightarrow> dhcp4_event \<Rightarrow> dhcp4_action list \<Rightarrow> rfc_state \<Rightarrow> bool" where
  discover: "rfc2131 s now (EvStart None) [] RSelecting"
| reboot: "rfc2131 s now (EvStart (Some a)) [] (RRebooting a)"
| release: "rfc2131 s now EvRelease [] RInit"
| renew: "s \<in> {RBound l b, RRenewing l b, RRebinding l b} \<Longrightarrow> rfc2131 s now EvRenew [] (RRenewing l b)"
| renew_none: "s \<in> {RInit, RSelecting, RRequesting a, RRebooting a} \<Longrightarrow> rfc2131 s now EvRenew [] s"
| t1: "lease_at b (l_t1 l) \<le> now \<Longrightarrow> rfc2131 (RBound l b) now EvTick [] (RRenewing l b)"
| t2: "lease_at b (l_t2 l) \<le> now \<Longrightarrow> rfc2131 (RRenewing l b) now EvTick [] (RRebinding l b)"
| expired: "lease_at b (l_lease_time l) \<le> now \<Longrightarrow> rfc2131 (RRebinding l b) now EvTick [Lost] RSelecting"
| before_t1: "now < lease_at b (l_t1 l) \<Longrightarrow> rfc2131 (RBound l b) now EvTick [] (RBound l b)"
| before_t2: "now < lease_at b (l_t2 l) \<Longrightarrow> rfc2131 (RRenewing l b) now EvTick [] (RRenewing l b)"
| before_expiry: "now < lease_at b (l_lease_time l) \<Longrightarrow>
    rfc2131 (RRebinding l b) now EvTick [] (RRebinding l b)"
| waiting: "s \<in> {RInit, RSelecting, RRequesting a, RRebooting a} \<Longrightarrow> rfc2131 s now EvTick [] s"
| give_up: "s \<in> {RRequesting a, RRebooting a} \<Longrightarrow> rfc2131 s now EvTick [] RSelecting"
| discard: "rfc2131 s now (EvReceive m) [] s"
| offer: "m_yiaddr m \<noteq> 0 \<Longrightarrow> server_of m = Some a \<Longrightarrow>
    rfc2131 RSelecting now (EvReceive m) [] (RRequesting a)"
| ack: "s = RRequesting a \<and> server_of m = Some a \<or> s = RRebooting a'
      \<or> s \<in> {RRenewing l b, RRebinding l b} \<and> server_of m = Some (l_server l) \<Longrightarrow>
    lease_from_ack m = Some l' \<Longrightarrow> rfc2131 s now (EvReceive m) [BoundTo l'] (RBound l' now)"
| nak: "s = RRequesting a \<and> server_of m = Some a \<or> s = RRebooting a' \<Longrightarrow>
    rfc2131 s now (EvReceive m) [] RSelecting"
| nak_lease: "s \<in> {RRenewing l b, RRebinding l b} \<Longrightarrow> server_of m = Some (l_server l) \<Longrightarrow>
    rfc2131 s now (EvReceive m) [Lost] RSelecting"

inductive_cases rfc2131_tickE: "rfc2131 s now EvTick ns s'"

definition dhcp4_abs :: "dhcp4 \<Rightarrow> rfc_state" where
  "dhcp4_abs c =
     (case c_state c of
        Init \<Rightarrow> RInit
      | Selecting \<Rightarrow> RSelecting
      | Requesting \<Rightarrow> RRequesting (the (Option.bind (c_offer c) server_of))
      | Rebooting \<Rightarrow> RRebooting (the (c_reboot_address c))
      | Bound \<Rightarrow> RBound (the (c_lease c)) (the (c_bound_at c))
      | Renewing \<Rightarrow> RRenewing (the (c_lease c)) (the (c_bound_at c))
      | Rebinding \<Rightarrow> RRebinding (the (c_lease c)) (the (c_bound_at c)))"

fun is_notice :: "dhcp4_action \<Rightarrow> bool" where
  "is_notice (BoundTo l) = True"
| "is_notice Lost = True"
| "is_notice _ = False"

abbreviation notices :: "dhcp4_action list \<Rightarrow> dhcp4_action list" where
  "notices \<equiv> filter is_notice"

lemma notices_send [simp]:
  "notices (snd (send_discover c now)) = []"
  "notices (snd (enter_selecting c now)) = []"
  "notices (snd (send_request_for_offer c now)) = []"
  "notices (snd (send_reboot_request c now)) = []"
  "notices (snd (send_renewal c now)) = []"
  "notices (snd (enter_requesting c now)) = []"
  "notices (snd (enter_rebooting c now)) = []"
  "notices (snd (enter_renewing c now)) = []"
  "notices (snd (enter_rebinding c now)) = []"
  "notices (snd (dhcp4_release c now)) = []"
  "notices (snd (dhcp4_start c now p)) = []"
  by (auto simp: send_discover_def enter_selecting_def send_request_for_offer_def send_reboot_request_def
      send_renewal_def enter_requesting_def enter_rebooting_def enter_renewing_def enter_rebinding_def
      dhcp4_release_def dhcp4_start_def Let_def split_def split: option.splits)

lemma abs_enter_selecting [simp]: "dhcp4_abs (fst (enter_selecting c now)) = RSelecting"
  by (simp add: dhcp4_abs_def)

lemma abs_enter_renewing [simp]:
  "dhcp4_abs (fst (enter_renewing c now)) = RRenewing (the (c_lease c)) (the (c_bound_at c))"
  "dhcp4_abs (fst (enter_rebinding c now)) = RRebinding (the (c_lease c)) (the (c_bound_at c))"
  by (simp_all add: dhcp4_abs_def enter_renewing_def enter_rebinding_def Let_def split_def)

lemma abs_send_renewal [simp]: "dhcp4_abs (fst (send_renewal c now)) = dhcp4_abs c"
  by (simp add: dhcp4_abs_def cong: dhcp4_state.case_cong)

lemma abs_schedule_backoff [simp]: "dhcp4_abs (schedule_backoff c now) = dhcp4_abs c"
  by (simp add: dhcp4_abs_def cong: dhcp4_state.case_cong)

lemma abs_retransmit:
  "notices (snd (dhcp4_retransmit c now)) = []"
  "dhcp4_abs (fst (dhcp4_retransmit c now)) = dhcp4_abs c
   \<or> c_state c \<in> {Requesting, Rebooting} \<and> dhcp4_abs (fst (dhcp4_retransmit c now)) = RSelecting"
  by (cases "c_state c";
      auto simp: dhcp4_retransmit_def Let_def split_def send_request_for_offer_def
        send_reboot_request_def dhcp4_abs_def split: option.splits)+

lemma abs_leased:
  assumes "dhcp4_inv c" "c_lease c = Some l"
  obtains b where "c_bound_at c = Some b" "dhcp4_abs c \<in> {RBound l b, RRenewing l b, RRebinding l b}"
  using assms by (auto simp: dhcp4_inv_def leased_def unleased_def dhcp4_abs_def split: dhcp4_state.splits)

lemma abs_unleased:
  assumes "dhcp4_inv c" "c_lease c = None"
  obtains a where "dhcp4_abs c \<in> {RInit, RSelecting, RRequesting a, RRebooting a}"
  using assms by (auto simp: dhcp4_inv_def leased_def unleased_def dhcp4_abs_def split: dhcp4_state.splits)

lemma rearmed_keep: "rearmed (fst ca) now \<Longrightarrow> tick_retransmit ca now = ca"
  by (auto simp: tick_retransmit_def rearmed_def split_def time_simps)

lemma rearmed_enter_renewing:
  assumes "leased c"
  shows "rearmed (fst (enter_renewing c now)) now" "rearmed (fst (enter_rebinding c now)) now"
proof -
  obtain l b where lb: "c_lease c = Some l" "c_bound_at c = Some b"
    using assms by (auto simp: leased_def)
  show "rearmed (fst (enter_renewing c now)) now" "rearmed (fst (enter_rebinding c now)) now"
    unfolding enter_renewing_def enter_rebinding_def Let_def split_def
    by (rule rearmed_send_renewal [of _ l b], simp_all add: lb)+
qed

lemma refines_tick_retransmit:
  assumes "\<And>s'. s' = dhcp4_abs c \<or> c_state c \<in> {Requesting, Rebooting} \<and> s' = RSelecting \<Longrightarrow>
      rfc2131 (dhcp4_abs c) now e [] s'"
  shows "rfc2131 (dhcp4_abs c) now e (notices (snd (tick_retransmit (c, []) now)))
           (dhcp4_abs (fst (tick_retransmit (c, []) now)))"
  using assms abs_retransmit [of c now]
  by (auto simp: tick_retransmit_def Let_def split_def split: option.splits)

lemma refines_tick:
  assumes "dhcp4_inv c"
  shows "rfc2131 (dhcp4_abs c) now EvTick (notices (snd (dhcp4_tick c now))) (dhcp4_abs (fst (dhcp4_tick c now)))"
proof (cases "c_lease c")
  case None
  then have "dhcp4_tick c now = tick_retransmit (c, []) now" by (simp add: dhcp4_tick_def)
  moreover obtain a where a: "dhcp4_abs c \<in> {RInit, RSelecting, RRequesting a, RRebooting a}"
    using abs_unleased [OF assms None] .
  moreover have "c_state c \<in> {Requesting, Rebooting} \<Longrightarrow> dhcp4_abs c \<in> {RRequesting a, RRebooting a}"
    using a by (auto simp: dhcp4_abs_def)
  ultimately show ?thesis
    using refines_tick_retransmit [of c now EvTick] rfc2131.waiting [of "dhcp4_abs c" a]
      rfc2131.give_up [of "dhcp4_abs c" a] by auto
next
  case (Some l)
  then obtain b where b: "c_bound_at c = Some b" and s: "dhcp4_abs c \<in> {RBound l b, RRenewing l b, RRebinding l b}"
    using abs_leased [OF assms] by blast
  have "leased c" using assms Some b by (auto simp: inv_leased_iff dhcp4_inv_def unleased_def split: dhcp4_state.splits)
  note keep = rearmed_enter_renewing [OF this, THEN rearmed_keep]
  note tr = refines_tick_retransmit [of c now EvTick]
  from s consider "c_state c = Bound" | "c_state c = Renewing" | "c_state c = Rebinding"
    by (auto simp: dhcp4_abs_def split: dhcp4_state.splits)
  then show ?thesis
  proof cases
    case 1
    then have "dhcp4_abs c = RBound l b" using Some b by (simp add: dhcp4_abs_def)
    then show ?thesis using 1 Some b keep tr
      by (auto simp: dhcp4_tick_def not_le intro: rfc2131.intros)
  next
    case 2
    then have "dhcp4_abs c = RRenewing l b" using Some b by (simp add: dhcp4_abs_def)
    then show ?thesis using 2 Some b keep tr
      by (auto simp: dhcp4_tick_def not_le intro: rfc2131.intros)
  next
    case 3
    then have "dhcp4_abs c = RRebinding l b" using Some b by (simp add: dhcp4_abs_def)
    then show ?thesis using 3 Some b keep tr
      by (auto simp: dhcp4_tick_def not_le Let_def split_def intro: rfc2131.intros)
  qed
qed

lemma from_stranger_server:
  "\<not> from_stranger c m kind \<Longrightarrow> kind \<in> {Ack, Nak} \<Longrightarrow> chosen_server c = Some a \<Longrightarrow> server_of m = Some a"
  by (auto simp: from_stranger_def server_of_def)

text \<open>Every branch of \<^verbatim>\<open>receive\<close> that does anything, with its guards.\<close>

lemma dhcp4_receive_cases:
  obtains (ignored) "dhcp4_receive c now m = (c, [])"
  | (offered) "c_state c = Selecting" "usable_offer m" "message_message_type m = Some Offer"
      "dhcp4_receive c now m = enter_requesting (c\<lparr>c_offer := Some m\<rparr>) now"
  | (acked) "c_state c \<in> {Requesting, Rebooting, Renewing, Rebinding}" "message_message_type m = Some Ack"
      "\<not> from_stranger c m Ack" "dhcp4_receive c now m = receive_ack c now m"
  | (refused) "c_state c \<in> {Requesting, Rebooting}" "message_message_type m = Some Nak"
      "\<not> from_stranger c m Nak"
      "dhcp4_receive c now m = enter_selecting (c\<lparr>c_reboot_address := None, c_offer := None\<rparr>) now"
  | (revoked) "c_state c \<in> {Renewing, Rebinding}" "message_message_type m = Some Nak"
      "\<not> from_stranger c m Nak"
      "dhcp4_receive c now m =
        (let (c', actions) = enter_selecting
               (c\<lparr>c_lease := None, c_bound_at := None, c_reboot_address := None\<rparr>) now
         in (c', Lost # actions))"
proof -
  define r where "r = dhcp4_receive c now m"
  note cases' = that [folded r_def]
  show thesis
    using r_def unfolding dhcp4_receive_def
    by (auto split: if_splits option.splits intro: cases' simp: usable_offer_def)
qed

lemma abs_enter_requesting:
  "c_offer c = Some m \<Longrightarrow> server_of m = Some a \<Longrightarrow> dhcp4_abs (fst (enter_requesting c now)) = RRequesting a"
  by (simp add: enter_requesting_def send_request_for_offer_def Let_def dhcp4_abs_def)

lemma abs_chosen:
  assumes "dhcp4_inv c" "c_state c \<in> {Requesting, Renewing, Rebinding}"
  obtains (requesting) a where "dhcp4_abs c = RRequesting a" "chosen_server c = Some a" "c_state c = Requesting"
  | (leased) l b where "dhcp4_abs c \<in> {RRenewing l b, RRebinding l b}" "chosen_server c = Some (l_server l)"
      "c_state c \<in> {Renewing, Rebinding}"
  using assms
  by (auto simp: dhcp4_inv_def dhcp4_abs_def chosen_server_def server_of_def leased_def unleased_def
      usable_offer_def split: dhcp4_state.splits)

lemma refines_receive:
  assumes "dhcp4_inv c"
  shows "rfc2131 (dhcp4_abs c) now (EvReceive m) (notices (snd (dhcp4_receive c now m)))
           (dhcp4_abs (fst (dhcp4_receive c now m)))"
proof (cases rule: dhcp4_receive_cases [of c now m])
  case ignored
  then show ?thesis by (simp add: rfc2131.discard)
next
  case offered
  then obtain a where "server_of m = Some a" "m_yiaddr m \<noteq> 0"
    by (auto simp: usable_offer_def server_of_def)
  with offered show ?thesis
    by (simp add: abs_enter_requesting [of _ m] rfc2131.offer dhcp4_abs_def [of c])
next
  case acked
  show ?thesis
  proof (cases "lease_from_ack m")
    case None
    with acked(4) show ?thesis by (simp add: receive_ack_def rfc2131.discard)
  next
    case (Some l)
    then have "notices (snd (dhcp4_receive c now m)) = [BoundTo l]"
      "dhcp4_abs (fst (dhcp4_receive c now m)) = RBound l now"
      using acked(4) by (simp_all add: receive_ack_def dhcp4_abs_def)
    moreover have "rfc2131 (dhcp4_abs c) now (EvReceive m) [BoundTo l] (RBound l now)"
    proof (cases "c_state c = Rebooting")
      case True
      then show ?thesis using Some by (auto simp: dhcp4_abs_def intro: rfc2131.ack)
    next
      case False
      with acked(1) have "c_state c \<in> {Requesting, Renewing, Rebinding}" by auto
      with assms show ?thesis
      proof (cases rule: abs_chosen)
        case (requesting a)
        with from_stranger_server [OF acked(3)] show ?thesis by (auto intro: rfc2131.ack [OF _ Some])
      next
        case (leased l' b)
        with from_stranger_server [OF acked(3)] rfc2131.ack [OF _ Some, of "dhcp4_abs c"]
        show ?thesis by blast
      qed
    qed
    ultimately show ?thesis by simp
  qed
next
  case refused
  show ?thesis
  proof (cases "c_state c = Rebooting")
    case True
    with refused show ?thesis by (auto simp: dhcp4_abs_def intro: rfc2131.nak)
  next
    case False
    with refused(1) have "c_state c \<in> {Requesting, Renewing, Rebinding}" by auto
    with assms show ?thesis
    proof (cases rule: abs_chosen)
      case (requesting a)
      then have "rfc2131 (dhcp4_abs c) now (EvReceive m) [] RSelecting"
        using from_stranger_server [OF refused(3)] rfc2131.nak by blast
      then show ?thesis by (simp add: refused(4))
    qed (use False refused(1) in auto)
  qed
next
  case revoked
  then have "c_state c \<in> {Requesting, Renewing, Rebinding}" by auto
  with assms show ?thesis
  proof (cases rule: abs_chosen)
    case (leased l b)
    then have "rfc2131 (dhcp4_abs c) now (EvReceive m) [Lost] RSelecting"
      using from_stranger_server [OF revoked(3)] rfc2131.nak_lease by blast
    then show ?thesis by (simp add: revoked(4) Let_def split_def)
  qed (use revoked(1) in auto)
qed

lemma refines_start:
  "rfc2131 (dhcp4_abs c) now (EvStart p) (notices (snd (dhcp4_start c now p)))
     (dhcp4_abs (fst (dhcp4_start c now p)))"
proof (cases p)
  case None
  then show ?thesis by (simp add: rfc2131.discover) (simp add: dhcp4_start_def Let_def rfc2131.discover)
next
  case (Some a)
  then have "dhcp4_abs (fst (dhcp4_start c now p)) = RRebooting a"
    by (simp add: dhcp4_start_def Let_def split_def enter_rebooting_def send_reboot_request_def dhcp4_abs_def)
  then show ?thesis using Some by (simp add: rfc2131.reboot)
qed

lemma refines_renew_now:
  assumes "dhcp4_inv c"
  shows "rfc2131 (dhcp4_abs c) now EvRenew (notices (snd (dhcp4_renew_now c now)))
           (dhcp4_abs (fst (dhcp4_renew_now c now)))"
proof (cases "c_lease c")
  case None
  then obtain a where "dhcp4_abs c \<in> {RInit, RSelecting, RRequesting a, RRebooting a}"
    using abs_unleased [OF assms] by blast
  moreover have "dhcp4_renew_now c now = (c, [])"
    using assms None by (auto simp: dhcp4_renew_now_def dhcp4_inv_def leased_def)
  ultimately show ?thesis using rfc2131.renew_none [of "dhcp4_abs c" a] by simp
next
  case (Some l)
  obtain b where "c_bound_at c = Some b" "dhcp4_abs c \<in> {RBound l b, RRenewing l b, RRebinding l b}"
    using abs_leased [OF assms Some] .
  moreover from this have "dhcp4_renew_now c now = enter_renewing c now"
    by (auto simp: dhcp4_renew_now_def dhcp4_abs_def split: dhcp4_state.splits)
  ultimately show ?thesis using Some rfc2131.renew [of "dhcp4_abs c" l b] by simp
qed

lemma refines_release:
  "rfc2131 (dhcp4_abs c) now EvRelease (notices (snd (dhcp4_release c now)))
     (dhcp4_abs (fst (dhcp4_release c now)))"
proof -
  have "dhcp4_abs (fst (dhcp4_release c now)) = RInit"
    by (simp add: dhcp4_release_def dhcp4_abs_def)
  then show ?thesis by (simp add: rfc2131.release)
qed

lemma refines_step:
  "dhcp4_inv c \<Longrightarrow> rfc2131 (dhcp4_abs c) now e (notices (snd (dhcp4_step c now e)))
     (dhcp4_abs (fst (dhcp4_step c now e)))"
  by (cases e) (simp_all only: dhcp4_step.simps refines_start refines_tick refines_receive
    refines_renew_now refines_release)

section \<open>Losing a lease\<close>

lemma tick_keeps_lease:
  assumes "dhcp4_inv c" "c_lease c = Some l" "c_bound_at c = Some b" "now < lease_at b (l_lease_time l)"
  shows "c_lease (fst (dhcp4_tick c now)) = Some l" "c_bound_at (fst (dhcp4_tick c now)) = Some b"
    "Lost \<notin> set (snd (dhcp4_tick c now))"
proof -
  have "rfc2131 (dhcp4_abs c) now EvTick (notices (snd (dhcp4_tick c now))) (dhcp4_abs (fst (dhcp4_tick c now)))"
    using assms(1) by (rule refines_tick)
  moreover have "dhcp4_abs c \<in> {RBound l b, RRenewing l b, RRebinding l b}"
    using abs_leased [OF assms(1,2)] assms(3) by auto
  ultimately have *: "notices (snd (dhcp4_tick c now)) = []"
      "dhcp4_abs (fst (dhcp4_tick c now)) \<in> {RBound l b, RRenewing l b, RRebinding l b}"
    using assms(4) by (auto elim!: rfc2131_tickE)
  then show "c_lease (fst (dhcp4_tick c now)) = Some l" "c_bound_at (fst (dhcp4_tick c now)) = Some b"
    using inv_tick [OF assms(1), of now]
    by (auto simp: dhcp4_abs_def dhcp4_inv_def leased_def split: dhcp4_state.splits)
  show "Lost \<notin> set (snd (dhcp4_tick c now))"
    using *(1) by (auto simp: filter_empty_conv)
qed

text \<open>Past its expiry a lease is gone after three ticks, and the caller has been told.\<close>

lemma rfc2131_expiry:
  assumes "s0 \<in> {RBound l b, RRenewing l b, RRebinding l b}"
    and "lease_at b (l_t1 l) \<le> now" "lease_at b (l_t2 l) \<le> now" "lease_at b (l_lease_time l) \<le> now"
    and "rfc2131 s0 now EvTick n1 s1" "rfc2131 s1 now EvTick n2 s2" "rfc2131 s2 now EvTick n3 s3"
  shows "n1 @ n2 @ n3 = [Lost] \<and> s3 = RSelecting"
  using assms by (auto elim!: rfc2131_tickE)

lemma wf_lease_times:
  assumes "wf_lease l" "lease_at b (l_lease_time l) \<le> now"
  shows "lease_at b (l_t1 l) \<le> now" "lease_at b (l_t2 l) \<le> now"
  using assms by (auto simp: wf_lease_def lease_at_def secs_def word_less_nat_alt)

lemma run_expiry:
  assumes "dhcp4_inv c" "c_lease c = Some l" "c_bound_at c = Some b" "lease_at b (l_lease_time l) \<le> now"
    and run: "dhcp4_run c [(now, EvTick), (now, EvTick), (now, EvTick)] = (c', as)"
  shows "notices as = [Lost] \<and> c_lease c' = None \<and> c_state c' = Selecting"
proof -
  define c1 where "c1 = fst (dhcp4_tick c now)"
  define c2 where "c2 = fst (dhcp4_tick c1 now)"
  have inv: "dhcp4_inv c1" "dhcp4_inv c2"
    unfolding c1_def c2_def using assms(1) by (intro inv_tick, assumption)+
  have c': "c' = fst (dhcp4_tick c2 now)"
    and as: "as = snd (dhcp4_tick c now) @ snd (dhcp4_tick c1 now) @ snd (dhcp4_tick c2 now)"
    using run by (auto simp: Let_def split_def c1_def c2_def)
  have "dhcp4_abs c \<in> {RBound l b, RRenewing l b, RRebinding l b}" "wf_lease l"
    using abs_leased [OF assms(1,2)] assms(1-3)
    by (auto simp: dhcp4_inv_def leased_def unleased_def split: dhcp4_state.splits)
  from rfc2131_expiry [OF this(1) wf_lease_times [OF this(2) assms(4)] assms(4)
      refines_tick [OF assms(1), of now, folded c1_def] refines_tick [OF inv(1), of now, folded c2_def]
      refines_tick [OF inv(2), of now]]
  have "notices as = [Lost]" "dhcp4_abs c' = RSelecting"
    by (simp_all add: as c')
  moreover have "dhcp4_inv c'" unfolding c' using inv(2) by (rule inv_tick)
  ultimately show ?thesis
    by (auto simp: dhcp4_abs_def dhcp4_inv_def unleased_def split: dhcp4_state.splits)
qed

section \<open>Reports and rates\<close>

text \<open>\<^verbatim>\<open>NoOffer\<close> is reported when the flag rises, and only a start or a lease lowers the flag.\<close>

abbreviation reports :: "dhcp4_action list \<Rightarrow> nat" where
  "reports as \<equiv> count_list as NoOffer"

lemma reports_send [simp]:
  "reports (snd (send_discover c now)) = 0"
  "reports (snd (enter_selecting c now)) = 0"
  "reports (snd (send_request_for_offer c now)) = 0"
  "reports (snd (send_reboot_request c now)) = 0"
  "reports (snd (send_renewal c now)) = 0"
  "reports (snd (enter_requesting c now)) = 0"
  "reports (snd (enter_rebooting c now)) = 0"
  "reports (snd (enter_renewing c now)) = 0"
  "reports (snd (enter_rebinding c now)) = 0"
  "reports (snd (dhcp4_release c now)) = 0"
  by (auto simp: send_discover_def enter_selecting_def send_request_for_offer_def send_reboot_request_def
      send_renewal_def enter_requesting_def enter_rebooting_def enter_renewing_def enter_rebinding_def
      dhcp4_release_def Let_def split_def split: option.splits)

lemma reported_enter [simp]:
  "c_no_offer_reported (fst (send_request_for_offer c now)) = c_no_offer_reported c"
  "c_no_offer_reported (fst (send_reboot_request c now)) = c_no_offer_reported c"
  "c_no_offer_reported (fst (enter_requesting c now)) = c_no_offer_reported c"
  "c_no_offer_reported (fst (enter_renewing c now)) = c_no_offer_reported c"
  "c_no_offer_reported (fst (enter_rebinding c now)) = c_no_offer_reported c"
  by (auto simp: send_request_for_offer_def send_reboot_request_def enter_requesting_def
      enter_renewing_def enter_rebinding_def Let_def split_def split: option.splits)

definition reported :: "dhcp4 \<Rightarrow> nat" where
  "reported c = of_bool (c_no_offer_reported c)"

lemma reported_same: "c_no_offer_reported c = c_no_offer_reported c' \<Longrightarrow> reported c = reported c'"
  by (simp add: reported_def)

lemma reports_retransmit:
  "reports (snd (dhcp4_retransmit c now)) + reported c = reported (fst (dhcp4_retransmit c now))"
  by (cases "c_state c") (simp_all add: dhcp4_retransmit_def Let_def split_def reported_def)

lemma reports_tick_retransmit:
  "reports (snd ca) = 0 \<Longrightarrow>
   reports (snd (tick_retransmit ca now)) + reported (fst ca) = reported (fst (tick_retransmit ca now))"
  using reports_retransmit [of "fst ca" now]
  by (auto simp: tick_retransmit_def Let_def split_def split: option.splits)

lemma reports_tick:
  "reports (snd (dhcp4_tick c now)) + reported c = reported (fst (dhcp4_tick c now))"
  using reports_tick_retransmit [of "(c, [])" now] reports_tick_retransmit [of "enter_renewing c now" now]
    reports_tick_retransmit [of "enter_rebinding c now" now]
    reported_same [of c "fst (enter_renewing c now)"] reported_same [of c "fst (enter_rebinding c now)"]
    reported_same [of c "fst (enter_selecting (c\<lparr>c_lease := None, c_bound_at := None\<rparr>) now)"]
  by (auto simp: dhcp4_tick_def Let_def split_def split: option.splits)

lemma reports_receive:
  assumes "\<forall>l. BoundTo l \<notin> set (snd (dhcp4_receive c now m))"
  shows "reports (snd (dhcp4_receive c now m)) + reported c = reported (fst (dhcp4_receive c now m))"
  using assms
  by (cases rule: dhcp4_receive_cases [of c now m])
     (auto simp: Let_def split_def receive_ack_def reported_def split: option.splits)

lemma reported_release [simp]: "c_no_offer_reported (fst (dhcp4_release c now)) = c_no_offer_reported c"
  by (simp add: dhcp4_release_def)

lemma reports_step:
  assumes "\<forall>l. BoundTo l \<notin> set (snd (dhcp4_step c now e))" "\<nexists>p. e = EvStart p"
  shows "reports (snd (dhcp4_step c now e)) + reported c = reported (fst (dhcp4_step c now e))"
  using assms
  by (cases e) (auto simp: reports_tick reports_receive dhcp4_renew_now_def intro!: reported_same)

lemma reports_run:
  "\<forall>l. BoundTo l \<notin> set (snd (dhcp4_run c es)) \<Longrightarrow> \<forall>now p. (now, EvStart p) \<notin> set es \<Longrightarrow>
   reports (snd (dhcp4_run c es)) + reported c = reported (fst (dhcp4_run c es))"
proof (induction es arbitrary: c)
  case (Cons x es)
  obtain now e where x: "x = (now, e)" by force
  from Cons.prems have "\<forall>l. BoundTo l \<notin> set (snd (dhcp4_step c now e))" "\<nexists>p. e = EvStart p"
    and "\<forall>l. BoundTo l \<notin> set (snd (dhcp4_run (fst (dhcp4_step c now e)) es))"
    by (auto simp: x Let_def split_def)
  with reports_step [of c now e] Cons.IH [of "fst (dhcp4_step c now e)"] Cons.prems(2) show ?case
    by (simp add: x Let_def split_def)
qed simp

text \<open>A tick that acts has set the next retransmission at least three seconds ahead.\<close>

fun is_send :: "dhcp4_action \<Rightarrow> bool" where
  "is_send (Send m d) = True"
| "is_send _ = False"

abbreviation sent :: "dhcp4_action list \<Rightarrow> nat" where
  "sent as \<equiv> length (filter is_send as)"

lemma sent_send:
  "sent (snd (send_discover c now)) = 1"
  "sent (snd (enter_selecting c now)) = 1"
  "sent (snd (send_request_for_offer c now)) = 1"
  "sent (snd (send_reboot_request c now)) = 1"
  "sent (snd (send_renewal c now)) \<le> 1"
  "sent (snd (enter_renewing c now)) \<le> 1"
  "sent (snd (enter_rebinding c now)) \<le> 1"
  by (auto simp: send_discover_def enter_selecting_def send_request_for_offer_def send_reboot_request_def
      send_renewal_def enter_renewing_def enter_rebinding_def Let_def split_def split: option.splits)

lemma sent_retransmit: "sent (snd (dhcp4_retransmit c now)) \<le> 1"
  by (cases "c_state c") (simp_all add: dhcp4_retransmit_def Let_def split_def sent_send [simplified])

lemma rate_retransmit:
  assumes "dhcp4_inv c" "snd (dhcp4_retransmit c now) \<noteq> []"
  shows "rearmed (fst (dhcp4_retransmit c now)) now"
proof (cases "c_state c \<in> {Selecting, Requesting, Rebooting}")
  case True
  with assms(1) show ?thesis by (rule retransmit_unleased(2))
next
  case False
  with assms have "c_state c \<in> {Renewing, Rebinding}" "leased c"
    by (auto simp: dhcp4_retransmit_def inv_leased_iff split: dhcp4_state.splits)
  then show ?thesis
    by (auto simp: dhcp4_retransmit_def leased_def intro: rearmed_send_renewal)
qed

lemma rate_tick:
  assumes "dhcp4_inv c" "snd (dhcp4_tick c now) \<noteq> []"
  shows "sent (snd (dhcp4_tick c now)) \<le> 1 \<and> rearmed (fst (dhcp4_tick c now)) now"
proof -
  have tr: "sent (snd (tick_retransmit (c, []) now)) \<le> 1
      \<and> rearmed (fst (tick_retransmit (c, []) now)) now"
    if "snd (tick_retransmit (c, []) now) \<noteq> []"
    using that sent_retransmit [of c now] rate_retransmit [OF assms(1), of now]
    by (auto simp: tick_retransmit_def Let_def split_def split: option.splits if_splits)
  have "c_state c \<in> {Bound, Renewing, Rebinding} \<Longrightarrow> leased c"
    using assms(1) inv_leased_iff by blast
  from rearmed_enter_renewing [OF this, of now] rearmed_keep tr assms(2) show ?thesis
    by (auto simp: dhcp4_tick_def Let_def split_def sent_send [simplified] split: option.splits if_splits)
qed

section \<open>A concrete exchange\<close>

definition ex_config :: dhcp4_config where
  "ex_config = \<lparr>cfg_chaddr = [2, 0, 0, 0, 0, 1], cfg_client_id = [1, 2, 0, 0, 0, 0, 1],
                cfg_hostname = Some ''host'', cfg_seed = 42\<rparr>"

definition ex_reply :: "u32 \<Rightarrow> message_type \<Rightarrow> message" where
  "ex_reply xid kind =
     \<lparr>m_is_reply = True, m_xid = xid, m_secs = 0, m_broadcast = True, m_ciaddr = 0,
      m_yiaddr = 0xC000020A, m_siaddr = 0, m_giaddr = 0, m_chaddr = [2, 0, 0, 0, 0, 1],
      m_options = [(OPT_MESSAGE_TYPE, [message_type_code kind]), (OPT_SERVER_ID, [192, 0, 2, 1]),
                   (OPT_LEASE_TIME, [0, 0, 14, 16]), (OPT_SUBNET_MASK, [255, 255, 255, 0]),
                   (OPT_ROUTER, [192, 0, 2, 1])]\<rparr>"

definition ex_xid :: u32 where
  "ex_xid = c_xid (fst (dhcp4_run (dhcp4_new ex_config 0) [(0, EvStart None)]))"

definition ex_events :: "(instant \<times> dhcp4_event) list" where
  "ex_events = [(0, EvStart None), (1, EvReceive (ex_reply ex_xid Offer)),
                (2, EvReceive (ex_reply ex_xid Ack))]"

definition ex_bound :: dhcp4 where
  "ex_bound = fst (dhcp4_run (dhcp4_new ex_config 0) ex_events)"

definition ex_lease :: lease where
  "ex_lease = the (lease_from_ack (ex_reply 0 Ack))"

lemma ex_reply_fields [simp]:
  "m_is_reply (ex_reply x k)" "m_xid (ex_reply x k) = x"
  "m_chaddr (ex_reply x k) = cfg_chaddr ex_config" "m_yiaddr (ex_reply x k) = 0xC000020A"
  "message_message_type (ex_reply x k) = Some k"
  "opt_ipv4 (m_options (ex_reply x k)) OPT_SERVER_ID = Some 0xC0000201"
  by (simp_all add: ex_reply_def ex_config_def message_message_type_def opt_message_type_def opt_get_def
      opt_ipv4_def ipv4_at_def codec_simps)

lemma ex_reply_options: "m_options (ex_reply x k) = m_options (ex_reply 0 k)"
  by (simp add: ex_reply_def)

lemma ex_ack: "lease_from_ack (ex_reply x Ack) = Some ex_lease"
proof -
  have "lease_from_ack (ex_reply x Ack) = lease_from_ack (ex_reply 0 Ack)"
    unfolding lease_from_ack_def ex_reply_options [of x] by simp
  moreover have "lease_from_ack (ex_reply 0 Ack) \<noteq> None"
    by (simp add: lease_from_ack_None_iff) (simp add: ex_reply_def opt_u32_def opt_get_def codec_simps)
  ultimately show ?thesis by (auto simp: ex_lease_def)
qed

lemma ex_lease_facts [simp]: "l_lease_time ex_lease = 3600" "l_server ex_lease = 0xC0000201"
  "l_t1 ex_lease = 1800"
  by (simp_all add: ex_lease_def lease_from_ack_def Let_def ex_reply_def opt_readers opt_get_def codec_simps
     ipv4_at_def lease_time_t1_def)

lemma ex_bound_state: "c_state ex_bound = Bound" "c_lease ex_bound = Some ex_lease"
  "c_bound_at ex_bound = Some 2" "c_retransmit_at ex_bound = None" "c_config ex_bound = ex_config"
  by (simp_all add: ex_bound_def ex_events_def ex_xid_def dhcp4_start_def Let_def split_def dhcp4_receive_def from_stranger_def
     enter_requesting_def send_request_for_offer_def chosen_server_def receive_ack_def ex_ack dhcp4_new_def)

lemma ex_bound_reachable: "dhcp4_reachable ex_config ex_bound"
  unfolding ex_bound_def by (rule run_reachable) (rule dhcp4_reachable.fresh)

section \<open>The properties of the client\<close>



text \<open>
  C4: In every reachable state the client holds a lease, and the instant it was
  bound at, exactly when it is bound, renewing or rebinding; the lease has a
  usable address and prefix and 0 < T1 < T2 < lease time; and a retransmission
  is scheduled exactly when the client is waiting for an answer.
\<close>

theorem dhcp4_state_invariant:
  assumes "dhcp4_reachable config c"
  shows "(c_lease c \<noteq> None \<longleftrightarrow> c_state c \<in> {Bound, Renewing, Rebinding})
    \<and> (c_bound_at c \<noteq> None \<longleftrightarrow> c_lease c \<noteq> None)
    \<and> (\<forall>l. c_lease c = Some l \<longrightarrow> wf_lease l)
    \<and> (c_retransmit_at c = None \<longleftrightarrow> c_state c \<in> {Init, Bound})"
  using reachable_inv [OF assms]
  by (auto simp: dhcp4_inv_def leased_def unleased_def split: dhcp4_state.splits)

theorem dhcp4_state_invariant_witness: "c_lease ex_bound = Some ex_lease \<and> wf_lease ex_lease"
  using dhcp4_state_invariant [OF ex_bound_reachable] by (simp add: ex_bound_state)

text \<open>
  Sleeping until the reported deadline loses nothing: a tick before
  \<^verbatim>\<open>next_deadline\<close> changes no field of the client and asks for no action.
\<close>

theorem dhcp4_sleep_until_deadline:
  assumes "later (dhcp4_next_deadline c) now"
  shows "dhcp4_tick c now = (c, [])"
  using assms by (rule tick_idle)

theorem dhcp4_sleep_until_deadline_witness: "dhcp4_tick ex_bound 1000 = (ex_bound, [])"
  by (rule dhcp4_sleep_until_deadline)
     (simp add: dhcp4_next_deadline_def dhcp4_boundary_def ex_bound_state lease_at_def time_simps)

text \<open>
  The poll loop cannot spin on the client: whatever state it is in, after
  three ticks at one instant (and after any further ones) the deadline it reports
  lies strictly in the future.
\<close>

theorem dhcp4_no_spin:
  assumes "dhcp4_reachable config c" "3 \<le> n" "ticks dhcp4_ticked n c now c'"
  shows "later (dhcp4_next_deadline c') now"
  using reachable_inv [OF assms(1)] assms(2,3) by (rule dhcp4_timed.no_spin)

theorem dhcp4_no_spin_witness:
  "\<exists>c'. ticks dhcp4_ticked 3 ex_bound (secs 4000) c' \<and> later (dhcp4_next_deadline c') (secs 4000)"
  using dhcp4_no_spin [OF ex_bound_reachable, of 3 "secs 4000"] by (force simp: numeral_3_eq_3)

text \<open>
  C2: A lease is neither kept past its expiry nor dropped early by the clock: before
  the expiry a tick keeps the lease and reports no loss; from the expiry on, three
  ticks report the loss exactly once and leave the client looking for a server.
\<close>

theorem dhcp4_lease_expiry:
  assumes "dhcp4_reachable config c" "c_lease c = Some l" "c_bound_at c = Some b"
  shows "if now < lease_at b (l_lease_time l)
         then c_lease (fst (dhcp4_tick c now)) = Some l \<and> Lost \<notin> set (snd (dhcp4_tick c now))
         else let (c', as) = dhcp4_run c [(now, EvTick), (now, EvTick), (now, EvTick)]
              in notices as = [Lost] \<and> c_lease c' = None \<and> c_state c' = Selecting"
  using tick_keeps_lease [OF reachable_inv [OF assms(1)] assms(2,3)]
    run_expiry [OF reachable_inv [OF assms(1)] assms(2,3)]
  by (auto simp: not_less simp del: dhcp4_run.simps)

theorem dhcp4_lease_expiry_witness:
  "c_state (fst (dhcp4_run ex_bound [(secs 4000, EvTick), (secs 4000, EvTick), (secs 4000, EvTick)]))
     = Selecting"
  using dhcp4_lease_expiry [OF ex_bound_reachable ex_bound_state(2,3), of "secs 4000"]
  by (simp add: lease_at_def time_simps split_def Let_def del: dhcp4_run.simps)

text \<open>
  C3: A message the client did not ask for changes nothing.  If a received message
  has any effect, it is a reply with the transaction id and the hardware address
  of the outstanding request, and while a lease is held it carries the server
  identifier of the server that granted it; an acknowledgement or a refusal of an
  offer carries the identifier of the server whose offer was taken.
\<close>

theorem dhcp4_strangers_ignored:
  assumes "dhcp4_reachable config c" "dhcp4_receive c now m \<noteq> (c, [])"
  shows "m_is_reply m \<and> m_xid m = c_xid c \<and> m_chaddr m = cfg_chaddr (c_config c)
    \<and> (\<forall>l. c_lease c = Some l \<longrightarrow> server_of m = Some (l_server l))
    \<and> (\<forall>offer. c_state c = Requesting \<and> c_offer c = Some offer \<longrightarrow> server_of m = server_of offer)"
proof -
  have guards: "m_is_reply m \<and> m_xid m = c_xid c \<and> m_chaddr m = cfg_chaddr (c_config c)"
    using assms(2) by (auto simp: dhcp4_receive_def split: if_splits)
  have inv: "dhcp4_inv c" using assms(1) by (rule reachable_inv)
  have "server_of m = Some a" if "c_state c \<noteq> Selecting" "chosen_server c = Some a" for a
    using assms(2) that
    by (cases rule: dhcp4_receive_cases [of c now m]) (auto dest: from_stranger_server)
  moreover have "c_state c = Selecting \<Longrightarrow> c_lease c = None"
    using inv by (simp add: dhcp4_inv_def unleased_def)
  moreover have "\<exists>a. server_of offer = Some a \<and> chosen_server c = Some a"
    if "c_state c = Requesting" "c_offer c = Some offer" for offer
    using inv that by (auto simp: dhcp4_inv_def chosen_server_def server_of_def unleased_def usable_offer_def)
  ultimately show ?thesis using guards by (fastforce simp: chosen_server_def)
qed

theorem dhcp4_strangers_ignored_witness:
  "let c = fst (dhcp4_run (dhcp4_new ex_config 0) [(0, EvStart None)])
   in dhcp4_receive c 1 (ex_reply ex_xid Offer) \<noteq> (c, []) \<and> m_xid (ex_reply ex_xid Offer) = c_xid c"
proof -
  let ?c = "fst (dhcp4_run (dhcp4_new ex_config 0) [(0, EvStart None)])"
  have r: "dhcp4_reachable ex_config ?c"
    by (rule run_reachable) (rule dhcp4_reachable.fresh)
  have "dhcp4_receive ?c 1 (ex_reply ex_xid Offer) \<noteq> (?c, [])"
    by (simp add: ex_xid_def dhcp4_start_def Let_def split_def dhcp4_receive_def from_stranger_def
        enter_requesting_def send_request_for_offer_def dhcp4_new_def)
  with dhcp4_strangers_ignored [OF r this] show ?thesis unfolding Let_def by blast
qed

text \<open>
  The caller hears of a missing server at most once: over any sequence of calls
  in which it neither starts the client again nor gets a lease, at most one
  \<^verbatim>\<open>NoOffer\<close> action is returned.
\<close>

theorem dhcp4_no_offer_once:
  assumes "\<forall>l. BoundTo l \<notin> set (snd (dhcp4_run c es))" "\<forall>now p. (now, EvStart p) \<notin> set es"
  shows "count_list (snd (dhcp4_run c es)) NoOffer \<le> 1"
  using reports_run [OF assms] by (simp add: reported_def of_bool_def split: if_splits)

theorem dhcp4_no_offer_once_witness:
  "count_list (snd (dhcp4_run (dhcp4_new ex_config 0) [(0, EvTick), (1, EvRelease)])) NoOffer \<le> 1"
  by (rule dhcp4_no_offer_once)
     (auto simp: dhcp4_new_def dhcp4_tick_def tick_retransmit_def dhcp4_release_def)

text \<open>
  What the client sends, a peer reads back: over any run of a client whose
  identifier and host name fit their option, fed with messages as the decoder
  returns them, decoding the bytes of each message sent gives that message.
\<close>

theorem dhcp4_sends_decode:
  assumes "wf_config config" "\<forall>(now, e)\<in>set es. event_ok e"
    and "Send m d \<in> set (snd (dhcp4_run (dhcp4_new config t0) es))"
  shows "message_decode (message_encode m) = Some m"
proof -
  have "sends_wf (snd (dhcp4_run (dhcp4_new config t0) es))"
    using wire_new [OF assms(1)] assms(2) by (rule wire_run)
  with assms(3) show ?thesis using message_encode_decode by (auto simp: sends_wf_def)
qed

theorem dhcp4_sends_decode_witness:
  "\<exists>m. Send m Broadcast \<in> set (snd (dhcp4_run (dhcp4_new ex_config 0) [(0, EvStart None)]))
       \<and> message_decode (message_encode m) = Some m"
proof -
  have "\<exists>m. Send m Broadcast \<in> set (snd (dhcp4_run (dhcp4_new ex_config 0) [(0, EvStart None)]))"
    by (simp add: dhcp4_start_def enter_selecting_def send_discover_def Let_def split_def)
  moreover have "wf_config ex_config" by (simp add: wf_config_def ex_config_def)
  ultimately show ?thesis
    using dhcp4_sends_decode [of ex_config "[(0, EvStart None)]" _ Broadcast 0] by auto
qed

text \<open>
  Traffic is rate limited: a tick sends at most one message, and a tick that does
  anything leaves the next retransmission at least three seconds away.
\<close>

theorem dhcp4_tick_rate:
  assumes "dhcp4_reachable config c" "dhcp4_tick c now = (c', as)" "as \<noteq> []"
  shows "length (filter is_send as) \<le> 1 \<and> (\<exists>t. c_retransmit_at c' = Some t \<and> now + secs 3 \<le> t)"
  using rate_tick [OF reachable_inv [OF assms(1)], of now] assms(2,3) by (simp add: rearmed_def)

theorem dhcp4_tick_rate_witness:
  "\<exists>t. c_retransmit_at (fst (dhcp4_tick ex_bound (lease_at 2 1800))) = Some t \<and> lease_at 2 1800 + secs 3 \<le> t"
proof -
  have "snd (dhcp4_tick ex_bound (lease_at 2 1800)) \<noteq> []"
    by (auto simp: dhcp4_tick_def ex_bound_state enter_renewing_def send_renewal_def Let_def split_def
        tick_retransmit_def split: option.splits)
  with dhcp4_tick_rate [OF ex_bound_reachable prod.collapse [symmetric]] show ?thesis by blast
qed
end
