(* ===== verification/Ndp_Packet.thy ===== *)
theory Ndp_Packet
  imports Dns_Names
begin

text \<open>
  The ICMPv6 neighbour-discovery codec (\<^verbatim>\<open>ndp/src/packet.rs\<close>): router solicitations out,
  router advertisements in.  An advertisement is decoded option by option; a
  malformed option is skipped, a malformed message is none at all.
\<close>

section \<open>Types\<close>

abbreviation (input) ROUTER_SOLICIT :: u8 where "ROUTER_SOLICIT \<equiv> 133"
abbreviation (input) ROUTER_ADVERT :: u8 where "ROUTER_ADVERT \<equiv> 134"
abbreviation (input) OPTION_SOURCE_LLA :: u8 where "OPTION_SOURCE_LLA \<equiv> 1"
abbreviation (input) OPTION_PREFIX_INFO :: u8 where "OPTION_PREFIX_INFO \<equiv> 3"
abbreviation (input) OPTION_MTU :: u8 where "OPTION_MTU \<equiv> 5"
abbreviation (input) OPTION_RDNSS :: u8 where "OPTION_RDNSS \<equiv> 25"
abbreviation (input) OPTION_DNSSL :: u8 where "OPTION_DNSSL \<equiv> 31"
abbreviation (input) MAX_PREFIXES :: nat where "MAX_PREFIXES \<equiv> 16"
abbreviation (input) MAX_SERVERS :: nat where "MAX_SERVERS \<equiv> 16"

record prefix_info =
  pi_prefix :: ipv6
  pi_length :: u8
  pi_on_link :: bool
  pi_autonomous :: bool
  pi_valid :: u32
  pi_preferred :: u32

record rdnss =
  rd_lifetime :: u32
  rd_servers :: "ipv6 list"

record dnssl =
  ds_lifetime :: u32
  ds_domains :: "rstring list"

record router_advert =
  ra_managed :: bool
  ra_other_config :: bool
  ra_router_lifetime :: u16
  ra_mtu :: "u32 option"
  ra_prefixes :: "prefix_info list"
  ra_rdnss :: "rdnss list"
  ra_dnssl :: "dnssl list"

section \<open>Options\<close>

definition prefix_info_of :: "bytes \<Rightarrow> prefix_info option" where
  "prefix_info_of opt =
     (if length opt \<noteq> 32 then None
      else if 128 < opt ! 2 then None
      else (let prefix = ipv6_of (slice opt 16 32)
            in if v6_is_multicast prefix \<or> segment0 prefix AND 0xffc0 = 0xfe80 then None
               else Some \<lparr>pi_prefix = prefix,
                          pi_length = opt ! 2,
                          pi_on_link = (opt ! 3 AND 0x80 \<noteq> 0),
                          pi_autonomous = (opt ! 3 AND 0x40 \<noteq> 0),
                          pi_valid = u32_of (slice opt 4 8),
                          pi_preferred = u32_of (slice opt 8 12)\<rparr>))"

text \<open>The servers of a list of addresses, as both \<^verbatim>\<open>rdnss\<close> and the DHCPv6 client read them.\<close>

definition server_usable :: "ipv6 \<Rightarrow> bool" where
  "server_usable a = (\<not> v6_is_unspecified a \<and> \<not> v6_is_multicast a \<and> \<not> v6_is_loopback a)"

definition server_list :: "bytes \<Rightarrow> ipv6 list" where
  "server_list bytes = filter server_usable (map ipv6_of (take MAX_SERVERS (as_chunks 16 bytes)))"

definition rdnss_of :: "bytes \<Rightarrow> rdnss option" where
  "rdnss_of opt =
     (if length opt < 24 \<or> (length opt - 8) mod 16 \<noteq> 0 then None
      else Some \<lparr>rd_lifetime = u32_of (slice opt 4 8), rd_servers = server_list (drop 8 opt)\<rparr>)"

definition dnssl_of :: "bytes \<Rightarrow> dnssl option" where
  "dnssl_of opt =
     (if length opt < 16 then None
      else Some \<lparr>ds_lifetime = u32_of (slice opt 4 8), ds_domains = domain_list (drop 8 opt)\<rparr>)"

section \<open>The advertisement\<close>

text \<open>One turn of the option loop: what an option adds to the advertisement.\<close>

definition ra_option :: "router_advert \<Rightarrow> u8 \<Rightarrow> bytes \<Rightarrow> router_advert" where
  "ra_option ra kind opt =
     (if kind = OPTION_PREFIX_INFO \<and> length (ra_prefixes ra) < MAX_PREFIXES then
        (case prefix_info_of opt of
           Some p \<Rightarrow> ra\<lparr>ra_prefixes := ra_prefixes ra @ [p]\<rparr> | None \<Rightarrow> ra)
      else if kind = OPTION_MTU \<and> length opt = 8 then
        ra\<lparr>ra_mtu := Some (u32_of (slice opt 4 8))\<rparr>
      else if kind = OPTION_RDNSS then
        (case rdnss_of opt of Some r \<Rightarrow> ra\<lparr>ra_rdnss := ra_rdnss ra @ [r]\<rparr> | None \<Rightarrow> ra)
      else if kind = OPTION_DNSSL then
        (case dnssl_of opt of Some d \<Rightarrow> ra\<lparr>ra_dnssl := ra_dnssl ra @ [d]\<rparr> | None \<Rightarrow> ra)
      else ra)"

function ra_options :: "bytes \<Rightarrow> router_advert \<Rightarrow> router_advert option" where
  "ra_options rest ra =
     (if rest = [] then Some ra
      else if length rest < 2 then None
      else (let kind = rest ! 0; len = unat (rest ! 1) * 8
            in if len = 0 \<or> length rest < len then None
               else ra_options (drop len rest) (ra_option ra kind (take len rest))))"
  by pat_completeness auto
termination
  by (relation "measure (\<lambda>(rest, ra). length rest)") auto

declare ra_options.simps [simp del]

definition router_advert_decode :: "bytes \<Rightarrow> router_advert option" where
  "router_advert_decode body =
     (if length body < 16 \<or> body ! 0 \<noteq> ROUTER_ADVERT \<or> body ! 1 \<noteq> 0 then None
      else ra_options (drop 16 body)
             \<lparr>ra_managed = (body ! 5 AND 0x80 \<noteq> 0),
              ra_other_config = (body ! 5 AND 0x40 \<noteq> 0),
              ra_router_lifetime = u16_of (slice body 6 8),
              ra_mtu = None, ra_prefixes = [], ra_rdnss = [], ra_dnssl = []\<rparr>)"

definition solicit :: "bytes option \<Rightarrow> bytes" where
  "solicit source_mac =
     [ROUTER_SOLICIT, 0, 0, 0, 0, 0, 0, 0] @
     (case source_mac of Some mac \<Rightarrow> [OPTION_SOURCE_LLA, 1] @ mac | None \<Rightarrow> [])"

section \<open>What the decoder accepts\<close>

definition prefix_ok :: "prefix_info \<Rightarrow> bool" where
  "prefix_ok p = (pi_length p \<le> 128 \<and> \<not> v6_is_multicast (pi_prefix p)
                  \<and> segment0 (pi_prefix p) AND 0xffc0 \<noteq> 0xfe80)"

definition ra_ok :: "router_advert \<Rightarrow> bool" where
  "ra_ok ra =
     (length (ra_prefixes ra) \<le> MAX_PREFIXES \<and> list_all prefix_ok (ra_prefixes ra)
      \<and> list_all (\<lambda>r. length (rd_servers r) \<le> MAX_SERVERS \<and> list_all server_usable (rd_servers r)) (ra_rdnss ra)
      \<and> list_all (\<lambda>d. length (ds_domains d) \<le> MAX_DOMAINS
                     \<and> list_all (\<lambda>n. n \<noteq> [] \<and> domain_ok n) (ds_domains d)) (ra_dnssl ra))"

lemma prefix_info_ok: "prefix_info_of opt = Some p \<Longrightarrow> prefix_ok p"
  by (auto simp: prefix_info_of_def prefix_ok_def Let_def split: if_splits)

lemma server_list_ok: "length (server_list bs) \<le> MAX_SERVERS" "list_all server_usable (server_list bs)"
proof -
  have "length (server_list bs) \<le> length (map ipv6_of (take MAX_SERVERS (as_chunks 16 bs)))"
    unfolding server_list_def by (rule length_filter_le)
  then show "length (server_list bs) \<le> MAX_SERVERS" by simp
  show "list_all server_usable (server_list bs)" by (auto simp: server_list_def list_all_iff)
qed

lemma ra_option_ok:
  assumes "ra_ok ra"
  shows "ra_ok (ra_option ra kind opt)"
proof -
  have d: "length (domain_list bs) \<le> MAX_DOMAINS"
    "list_all (\<lambda>n. n \<noteq> [] \<and> domain_ok n) (domain_list bs)" for bs
    using domain_list_ok [of bs] by (auto simp: list_all_iff)
  have r: "rdnss_of opt = Some r \<Longrightarrow> length (rd_servers r) \<le> MAX_SERVERS \<and> list_all server_usable (rd_servers r)"
    "dnssl_of opt = Some e \<Longrightarrow> length (ds_domains e) \<le> MAX_DOMAINS
       \<and> list_all (\<lambda>n. n \<noteq> [] \<and> domain_ok n) (ds_domains e)" for r e
    using server_list_ok d by (auto simp: rdnss_of_def dnssl_of_def split: if_splits)
  show ?thesis
    using assms r prefix_info_ok [of opt]
    by (simp add: ra_option_def ra_ok_def split: option.splits)
qed

lemma ra_options_ok: "ra_options rest ra = Some ra' \<Longrightarrow> ra_ok ra \<Longrightarrow> ra_ok ra'"
proof (induction rest ra rule: ra_options.induct)
  case (1 rest ra)
  show ?case
  proof (cases "rest = [] \<or> length rest < 2 \<or> unat (rest ! 1) * 8 = 0 \<or> length rest < unat (rest ! 1) * 8")
    case True
    with "1.prems" show ?thesis by (subst (asm) ra_options.simps) (auto simp: Let_def split: if_splits)
  next
    case False
    then have rec: "ra_options rest ra = ra_options (drop (unat (rest ! 1) * 8) rest)
        (ra_option ra (rest ! 0) (take (unat (rest ! 1) * 8) rest))"
      by (subst ra_options.simps) (simp add: Let_def)
    have "rest \<noteq> []" "\<not> length rest < 2"
      "\<not> (unat (rest ! 1) * 8 = 0 \<or> length rest < unat (rest ! 1) * 8)"
      using False by blast+
    from "1.IH" [OF this(1,2) refl refl this(3)] "1.prems" show ?thesis
      unfolding rec by (simp add: ra_option_ok)
  qed
qed

lemma router_advert_decode_ok: "router_advert_decode body = Some ra \<Longrightarrow> ra_ok ra"
  by (auto simp: router_advert_decode_def ra_ok_def split: if_splits dest!: ra_options_ok)

section \<open>Option by option\<close>

text \<open>A framed option: its length byte counts the eight-byte units of the whole.\<close>

definition framed :: "bytes \<Rightarrow> bool" where
  "framed opt = (opt \<noteq> [] \<and> 2 \<le> length opt \<and> length opt = unat (opt ! 1) * 8)"

lemma ra_options_framed:
  assumes "framed opt"
  shows "ra_options (opt @ rest) ra = ra_options rest (ra_option ra (opt ! 0) opt)"
proof -
  have "(opt @ rest) ! 0 = opt ! 0" "(opt @ rest) ! 1 = opt ! 1" "0 < length opt"
    using assms by (auto simp: framed_def nth_append)
  moreover have "unat (opt ! 1) * 8 = length opt" using assms by (simp add: framed_def)
  ultimately show ?thesis
    using assms by (subst ra_options.simps) (simp add: framed_def Let_def)
qed

lemma ra_options_all:
  "list_all framed opts \<Longrightarrow>
   ra_options (concat opts) ra = Some (foldl (\<lambda>ra opt. ra_option ra (opt ! 0) opt) ra opts)"
proof (induction opts arbitrary: ra)
  case Nil
  then show ?case by (simp add: ra_options.simps)
next
  case (Cons opt opts)
  then show ?case by (simp add: ra_options_framed)
qed

lemma ra_option_unknown:
  "kind \<notin> {OPTION_PREFIX_INFO, OPTION_MTU, OPTION_RDNSS, OPTION_DNSSL} \<Longrightarrow> ra_option ra kind opt = ra"
  by (simp add: ra_option_def)

text \<open>What the decoder accepts is a sequence of framed options.\<close>

lemma ra_options_split:
  "ra_options rest ra = Some ra' \<Longrightarrow> \<exists>opts. rest = concat opts \<and> list_all framed opts"
proof (induction rest ra rule: ra_options.induct)
  case (1 rest ra)
  show ?case
  proof (cases "rest = []")
    case True
    then show ?thesis by (intro exI [of _ "[]"]) simp
  next
    case False
    let ?n = "unat (rest ! 1) * 8"
    have ok: "\<not> length rest < 2" "\<not> (?n = 0 \<or> length rest < ?n)"
      and rec: "ra_options (drop ?n rest) (ra_option ra (rest ! 0) (take ?n rest)) = Some ra'"
      using "1.prems" False by (subst (asm) ra_options.simps, auto simp: Let_def split: if_splits)+
    from "1.IH" [OF False ok(1) refl refl ok(2) rec] obtain opts
      where o: "drop ?n rest = concat opts" "list_all framed opts" by blast
    have "framed (take ?n rest)"
      using ok by (auto simp: framed_def)
    then show ?thesis
      using o append_take_drop_id [of ?n rest] by (intro exI [of _ "take ?n rest # opts"]) simp
  qed
qed


section \<open>The properties of the codec\<close>

text \<open>
  Whatever bytes arrive, a decoded advertisement is within bounds: at most 16
  prefixes, none longer than 128 bits, multicast or link-local; at most 16 servers
  per option, none unspecified, multicast or loopback; at most 16 search domains
  per option, each non-empty, at most 253 bytes of graphic ASCII in lower case.
\<close>

theorem ra_decode_bounded:
  assumes "router_advert_decode body = Some ra"
  shows "length (ra_prefixes ra) \<le> 16
    \<and> (\<forall>p\<in>set (ra_prefixes ra). pi_length p \<le> 128 \<and> \<not> v6_is_multicast (pi_prefix p)
          \<and> segment0 (pi_prefix p) AND 0xffc0 \<noteq> 0xfe80)
    \<and> (\<forall>r\<in>set (ra_rdnss ra). length (rd_servers r) \<le> 16 \<and> (\<forall>a\<in>set (rd_servers r). server_usable a))
    \<and> (\<forall>d\<in>set (ra_dnssl ra). length (ds_domains d) \<le> 16 \<and> (\<forall>n\<in>set (ds_domains d). n \<noteq> [] \<and> domain_ok n))"
  using router_advert_decode_ok [OF assms] by (auto simp: ra_ok_def prefix_ok_def list_all_iff)

definition empty_ra :: router_advert where
  "empty_ra = \<lparr>ra_managed = False, ra_other_config = False, ra_router_lifetime = 0, ra_mtu = None,
               ra_prefixes = [], ra_rdnss = [], ra_dnssl = []\<rparr>"

definition ex_ra :: bytes where
  "ex_ra = [134, 0, 0, 0, 64, 0xC0, 7, 8, 0, 0, 0, 0, 0, 0, 0, 0] @ [5, 1, 0, 0, 0, 0, 5, 0xDC]"

lemma ex_ra_decodes:
  "router_advert_decode ex_ra =
     Some \<lparr>ra_managed = True, ra_other_config = True, ra_router_lifetime = 1800, ra_mtu = Some 1500,
           ra_prefixes = [], ra_rdnss = [], ra_dnssl = []\<rparr>"
proof -
  have "framed [5, 1, 0, 0, 0, 0, 5, 0xDC]" by (simp add: framed_def)
  then have "ra_options [5, 1, 0, 0, 0, 0, 5, 0xDC] ra = Some (ra_option ra 5 [5, 1, 0, 0, 0, 0, 5, 0xDC])" for ra
    using ra_options_all [of "[[5, 1, 0, 0, 0, 0, 5, 0xDC]]" ra] by simp
  then show ?thesis
    by (simp add: router_advert_decode_def ex_ra_def ra_option_def slice_def u16_of_def u32_of_def be_nat_def)
qed

theorem ra_decode_bounded_witness:
  "\<exists>ra. router_advert_decode ex_ra = Some ra \<and> length (ra_prefixes ra) \<le> 16"
  using ra_decode_bounded [OF ex_ra_decodes] ex_ra_decodes by blast

text \<open>
  The option walk is exact.  After the fixed header, a body is accepted exactly
  when it is a sequence of options that fill the length their length byte says,
  none of length zero; its meaning is that of the options applied in order, and
  an option of an unknown kind changes nothing.
\<close>

theorem ra_option_walk:
  assumes "list_all framed opts"
  shows "ra_options (concat opts) ra = Some (foldl (\<lambda>ra opt. ra_option ra (opt ! 0) opt) ra opts)
    \<and> (ra_options rest ra \<noteq> None \<longleftrightarrow> (\<exists>os. rest = concat os \<and> list_all framed os))
    \<and> (kind \<notin> {OPTION_PREFIX_INFO, OPTION_MTU, OPTION_RDNSS, OPTION_DNSSL} \<longrightarrow> ra_option ra kind opt = ra)"
  using ra_options_all [OF assms] ra_options_all ra_options_split ra_option_unknown by blast

theorem ra_option_walk_witness:
  "ra_options [5, 1, 0, 0, 0, 0, 5, 0xDC] empty_ra
     = Some (ra_option empty_ra 5 [5, 1, 0, 0, 0, 0, 5, 0xDC])"
  using ra_option_walk [of "[[5, 1, 0, 0, 0, 0, 5, 0xDC]]" empty_ra] by (simp add: framed_def)
end
