(* ===== verification/Ordered_Map.thy ===== *)
theory Ordered_Map
  imports Netd_Prelude
begin

text \<open>
  Rust's \<^verbatim>\<open>BTreeMap\<close>, as the sources use it: insertion, removal, lookup, \<^verbatim>\<open>retain\<close>,
  in-place update of the values, and iteration in ascending key order.  The
  contract is the locale \<^verbatim>\<open>ordered_map\<close>; the model is the list of the entries in key
  order, and the interpretation at the end discharges the contract for it.
\<close>

section \<open>The contract\<close>

locale ordered_map =
  fixes empty :: "'m"
    and insert :: "'k::linorder \<Rightarrow> 'v \<Rightarrow> 'm \<Rightarrow> 'm"
    and remove :: "'k \<Rightarrow> 'm \<Rightarrow> 'm"
    and retain :: "('k \<Rightarrow> 'v \<Rightarrow> bool) \<Rightarrow> 'm \<Rightarrow> 'm"
    and get :: "'m \<Rightarrow> 'k \<Rightarrow> 'v option"
    and entries :: "'m \<Rightarrow> ('k \<times> 'v) list"
    and invar :: "'m \<Rightarrow> bool"
  assumes invar_empty: "invar empty"
    and invar_insert: "invar m \<Longrightarrow> invar (insert k v m)"
    and invar_remove: "invar m \<Longrightarrow> invar (remove k m)"
    and invar_retain: "invar m \<Longrightarrow> invar (retain P m)"
    and get_empty: "get empty k = None"
    and get_insert: "invar m \<Longrightarrow> get (insert k v m) k' = (if k' = k then Some v else get m k')"
    and get_remove: "invar m \<Longrightarrow> get (remove k m) k' = (if k' = k then None else get m k')"
    and get_retain: "invar m \<Longrightarrow> get (retain P m) k =
          (case get m k of None \<Rightarrow> None | Some v \<Rightarrow> if P k v then Some v else None)"
    and entries_get: "invar m \<Longrightarrow> (k, v) \<in> set (entries m) \<longleftrightarrow> get m k = Some v"
    and entries_sorted: "invar m \<Longrightarrow> sorted_wrt (<) (map fst (entries m))"
begin

lemmas invars = invar_empty invar_insert invar_remove invar_retain
lemmas gets = get_empty get_insert get_remove get_retain

text \<open>The entries are determined by the lookups: the list is canonical.\<close>

lemma entries_unique:
  assumes "invar m" "invar m'" "\<And>k. get m k = get m' k"
  shows "entries m = entries m'"
proof -
  have same: "set (entries m) = set (entries m')"
    using assms by (auto simp: entries_get)
  have keys: "map fst (entries m) = map fst (entries m')"
  proof (rule sorted_distinct_set_unique)
    show "sorted (map fst (entries m))" "distinct (map fst (entries m))"
      using entries_sorted [OF assms(1)] by (simp_all add: strict_sorted_iff)
    show "sorted (map fst (entries m'))" "distinct (map fst (entries m'))"
      using entries_sorted [OF assms(2)] by (simp_all add: strict_sorted_iff)
    show "set (map fst (entries m)) = set (map fst (entries m'))"
      using same by simp
  qed
  have "inj_on fst (set (entries m) \<union> set (entries m'))"
    unfolding same using entries_get [OF assms(2)] by (auto simp: inj_on_def)
  with keys show ?thesis by (rule map_inj_on)
qed

lemma insert_overwrites:
  "invar m \<Longrightarrow> entries (insert k v (insert k w m)) = entries (insert k v m)"
  by (rule entries_unique) (simp_all add: invars gets)

lemma insert_commutes:
  "invar m \<Longrightarrow> k \<noteq> k' \<Longrightarrow>
     entries (insert k v (insert k' v' m)) = entries (insert k' v' (insert k v m))"
  by (rule entries_unique) (simp_all add: invars gets)

lemma remove_inserted:
  "invar m \<Longrightarrow> get m k = None \<Longrightarrow> entries (remove k (insert k v m)) = entries m"
  by (rule entries_unique) (simp_all add: invars gets)

lemma retain_retain:
  "invar m \<Longrightarrow> entries (retain P (retain Q m)) = entries (retain (\<lambda>k v. Q k v \<and> P k v) m)"
  by (rule entries_unique) (auto simp: invars gets split: option.splits)

end

section \<open>The model\<close>

type_synonym ('k, 'v) btree = "('k \<times> 'v) list"

fun bt_insert :: "'k::linorder \<Rightarrow> 'v \<Rightarrow> ('k, 'v) btree \<Rightarrow> ('k, 'v) btree" where
  "bt_insert k v [] = [(k, v)]"
| "bt_insert k v ((k', v') # m) =
     (if k < k' then (k, v) # (k', v') # m
      else if k = k' then (k, v) # m
      else (k', v') # bt_insert k v m)"

definition bt_remove :: "'k \<Rightarrow> ('k, 'v) btree \<Rightarrow> ('k, 'v) btree" where
  "bt_remove k m = filter (\<lambda>e. fst e \<noteq> k) m"

definition bt_retain :: "('k \<Rightarrow> 'v \<Rightarrow> bool) \<Rightarrow> ('k, 'v) btree \<Rightarrow> ('k, 'v) btree" where
  "bt_retain P m = filter (\<lambda>e. P (fst e) (snd e)) m"

definition bt_get :: "('k, 'v) btree \<Rightarrow> 'k \<Rightarrow> 'v option" where
  "bt_get m k = map_of m k"

text \<open>\<^verbatim>\<open>for (key, value) in &mut map\<close>: every value replaced in place.\<close>

definition bt_map :: "('k \<Rightarrow> 'v \<Rightarrow> 'w) \<Rightarrow> ('k, 'v) btree \<Rightarrow> ('k, 'w) btree" where
  "bt_map f m = map (\<lambda>e. (fst e, f (fst e) (snd e))) m"

definition bt_ok :: "('k::linorder, 'v) btree \<Rightarrow> bool" where
  "bt_ok m = sorted_wrt (<) (map fst m)"

lemma bt_ok_simps [simp]:
  "bt_ok []"
  "bt_ok ((k, v) # m) \<longleftrightarrow> (\<forall>e\<in>set m. k < fst e) \<and> bt_ok m"
  by (auto simp: bt_ok_def)

lemma set_bt_insert: "bt_ok m \<Longrightarrow>
    set (bt_insert k v m) = insert (k, v) {e \<in> set m. fst e \<noteq> k}"
  by (induction k v m rule: bt_insert.induct) (auto simp: order.strict_iff_not)

lemma bt_ok_insert [simp]: "bt_ok m \<Longrightarrow> bt_ok (bt_insert k v m)"
  by (induction k v m rule: bt_insert.induct) (auto simp: set_bt_insert)

lemma bt_ok_filter [simp]: "bt_ok m \<Longrightarrow> bt_ok (filter P m)"
  by (induction m) auto

lemma bt_ok_remove [simp]: "bt_ok m \<Longrightarrow> bt_ok (bt_remove k m)"
  by (simp add: bt_remove_def)

lemma bt_ok_retain [simp]: "bt_ok m \<Longrightarrow> bt_ok (bt_retain P m)"
  by (simp add: bt_retain_def)

lemma bt_ok_map [simp]: "bt_ok (bt_map f m) = bt_ok m"
  by (simp add: bt_ok_def bt_map_def comp_def)

lemma bt_ok_sorted: "bt_ok m \<Longrightarrow> sorted_wrt (<) (map fst m)"
  by (simp add: bt_ok_def)

lemma bt_ok_distinct: "bt_ok m \<Longrightarrow> distinct (map fst m)"
  by (simp add: bt_ok_def strict_sorted_iff)

lemma bt_get_in: "bt_ok m \<Longrightarrow> (k, v) \<in> set m \<longleftrightarrow> bt_get m k = Some v"
  by (simp add: bt_get_def bt_ok_distinct)

lemma bt_get_Nil [simp]: "bt_get [] k = None"
  by (simp add: bt_get_def)

lemma bt_get_insert [bt_simps]:
  "bt_ok m \<Longrightarrow> bt_get (bt_insert k v m) k' = (if k' = k then Some v else bt_get m k')"
  by (induction k v m rule: bt_insert.induct) (auto simp: bt_get_def)

lemma bt_get_remove [bt_simps]:
  "bt_get (bt_remove k m) k' = (if k' = k then None else bt_get m k')"
  by (induction m) (auto simp: bt_get_def bt_remove_def)

lemma bt_get_retain [bt_simps]:
  "bt_ok m \<Longrightarrow> bt_get (bt_retain P m) k =
     (case bt_get m k of None \<Rightarrow> None | Some v \<Rightarrow> if P k v then Some v else None)"
proof (induction m)
  case Nil
  then show ?case by (simp add: bt_retain_def)
next
  case (Cons e m)
  obtain k' v' where e: "e = (k', v')" by force
  have "bt_get m k = None" if "k = k'"
    using Cons.prems that e by (auto simp: bt_get_def map_of_eq_None_iff)
  with Cons e show ?case
    by (auto simp: bt_get_def bt_retain_def)
qed

lemma bt_get_map [bt_simps]: "bt_get (bt_map f m) k = map_option (f k) (bt_get m k)"
  by (induction m) (auto simp: bt_get_def bt_map_def)

lemma in_bt_retain [simp]: "e \<in> set (bt_retain P m) \<longleftrightarrow> e \<in> set m \<and> P (fst e) (snd e)"
  by (simp add: bt_retain_def)

lemma bt_insert_not_Nil [simp]: "bt_insert k v m \<noteq> []"
  by (cases "(k, v, m)" rule: bt_insert.cases) auto

interpretation bt: ordered_map "[]" bt_insert bt_remove bt_retain bt_get "\<lambda>m. m" bt_ok
  by unfold_locales (auto simp: bt_simps bt_get_in intro: bt_ok_sorted)

end
