(* ===== verification/Xorshift.thy ===== *)
theory Xorshift
  imports Netd_Prelude
begin

text \<open>
  The generator and the jitter that \<^verbatim>\<open>ndp/src/engine.rs\<close> and \<^verbatim>\<open>dhcp6/src/lib.rs\<close> share: a
  64-bit xorshift, and ten percent either way of an interval in whole
  milliseconds.
\<close>

definition xorshift64 :: "u64 \<Rightarrow> u64" where
  "xorshift64 x =
     (let x = x XOR push_bit 13 x;
          x = x XOR drop_bit 7 x;
          x = x XOR push_bit 17 x
      in x)"

definition jittered :: "duration \<Rightarrow> u64 \<Rightarrow> duration" where
  "jittered interval r =
     (let m = as_millis interval in millis (m - m div 10 + unat r mod (m div 5 + 1)))"

lemma jittered_bounds:
  assumes "interval = millis m"
  shows "9 * interval \<le> 10 * jittered interval r" "10 * jittered interval r \<le> 11 * interval + millis 10"
proof -
  have m: "as_millis interval = m" using assms by (simp add: time_simps)
  define k q a b where "k = unat r mod (m div 5 + 1)" and "q = m div 5" and "a = m div 10" and "b = m mod 10"
  note defs = this
  have "k < q + 1" unfolding defs by (rule mod_less_divisor) simp
  moreover have "5 * q \<le> m" unfolding defs by simp
  moreover have m10: "m = 10 * a + b" "b < 10" unfolding defs by simp_all
  moreover have "m - a = 9 * a + b" using m10 by simp
  ultimately have "9 * m \<le> 10 * (m - a + k) \<and> 10 * (m - a + k) \<le> 11 * m + 10"
    by simp
  then show "9 * interval \<le> 10 * jittered interval r" "10 * jittered interval r \<le> 11 * interval + millis 10"
    unfolding jittered_def m Let_def assms millis_def defs as_millis_def by simp_all
qed

text \<open>A seed that is not zero stays so: each of the three steps is injective.\<close>

lemma bits_0_word: "(\<And>i. i < LENGTH('a) \<Longrightarrow> \<not> bit w i) \<Longrightarrow> w = (0 :: 'a::len word)"
  by (rule bit_word_eqI) simp

lemma xor_push_bit_zero:
  fixes x :: u64
  assumes "0 < n" "x XOR push_bit n x = 0"
  shows "x = 0"
proof (rule bits_0_word)
  have eq: "bit x i \<longleftrightarrow> n \<le> i \<and> bit x (i - n)" if "i < 64" for i
  proof -
    have "\<not> bit (x XOR push_bit n x) i" using assms(2) by simp
    then show ?thesis using that by (auto simp: bit_xor_iff bit_push_bit_iff)
  qed
  show "\<not> bit x i" if "i < LENGTH(64)" for i
    using that
  proof (induction i rule: less_induct)
    case (less i)
    then show ?case using eq [of i] assms(1) by (auto simp: not_le)
  qed
qed

lemma xor_drop_bit_zero:
  fixes x :: u64
  assumes "0 < n" "x XOR drop_bit n x = 0"
  shows "x = 0"
proof (rule bits_0_word)
  have eq: "bit x i \<longleftrightarrow> bit x (n + i)" for i
  proof -
    have "\<not> bit (x XOR drop_bit n x) i" using assms(2) by simp
    then show ?thesis by (auto simp: bit_xor_iff bit_drop_bit_eq)
  qed
  show "\<not> bit x i" if "i < LENGTH(64)" for i
  proof (induction "64 - i" arbitrary: i rule: less_induct)
    case less
    show ?case
    proof (cases "i < 64")
      case True
      then have "64 - (n + i) < 64 - i" using assms(1) by simp
      with less eq [of i] show ?thesis by blast
    next
      case False
      then show ?thesis using bit_imp_le_length [of x i] by auto
    qed
  qed
qed

lemma xorshift64_nonzero: "x \<noteq> 0 \<Longrightarrow> xorshift64 x \<noteq> 0"
  unfolding xorshift64_def Let_def
  using xor_push_bit_zero [of 13] xor_drop_bit_zero [of 7] xor_push_bit_zero [of 17]
  by (metis zero_less_numeral)

lemma or_1_nonzero: "(w OR 1 :: u64) \<noteq> 0"
proof
  assume "w OR 1 = 0"
  then have "\<not> bit (w OR 1) 0" by simp
  then show False by (simp add: bit_or_iff)
qed

end
