(* ===== verification/Ndp_Engine.thy ===== *)
theory Ndp_Engine
  imports Ndp_Packet Ordered_Map Timed_Machine Xorshift
begin

text \<open>
  The per-interface SLAAC state machine (\<^verbatim>\<open>ndp/src/engine.rs\<close>).  The engine is a record,
  its tables are ordered maps.  SHA-1 is a crate, so the digest is an argument of
  the operations that form a stable address.  The loop that draws a temporary
  interface identifier may in principle not end, so it is a partial function,
  and the operations that may draw return none when it does not.
\<close>

section \<open>Types\<close>

definition SOLICIT_INTERVAL :: duration where [time_simps]: "SOLICIT_INTERVAL = secs 4"
abbreviation (input) SOLICITS_BEFORE_BACKOFF :: u32 where "SOLICITS_BEFORE_BACKOFF \<equiv> 3"
definition MAX_SOLICIT_INTERVAL :: duration where [time_simps]: "MAX_SOLICIT_INTERVAL = secs 3600"
definition TWO_HOURS :: duration where [time_simps]: "TWO_HOURS = secs 7200"
definition TEMP_PREFERRED :: duration where [time_simps]: "TEMP_PREFERRED = secs 86400"
definition TEMP_VALID :: duration where [time_simps]: "TEMP_VALID = secs 172800"
abbreviation (input) MAX_TEMPS :: nat where "MAX_TEMPS \<equiv> 4"

record ndp_config =
  nc_interface :: rstring
  nc_secret :: bytes
  nc_temporary :: bool
  nc_mac :: "bytes option"
  nc_seed :: u64

datatype ndp_action = Solicit bytes | Changed

record desired_address =
  da_address :: ipv6
  da_prefix :: u8
  da_deprecated :: bool
  da_on_link :: bool

record temp =
  t_address :: ipv6
  t_preferred_until :: instant
  t_valid_until :: instant

record prefix =
  p_on_link :: bool
  p_valid_until :: "instant option"
  p_preferred_until :: "instant option"
  p_stable :: ipv6
  p_temps :: "temp list"

record ndp_view =
  v_addresses :: "desired_address list"
  v_router :: "ipv6 option"
  v_dns :: "ipv6 list"
  v_search :: "rstring list"
  v_mtu :: "u32 option"
  v_dhcp6 :: bool

record ndp =
  e_config :: ndp_config
  e_rng :: u64
  e_solicit_at :: "instant option"
  e_solicit_interval :: duration
  e_solicits :: u32
  e_routers :: "(ipv6, instant) btree"
  e_prefixes :: "(ipv6 \<times> u8, prefix) btree"
  e_rdnss :: "(ipv6, instant option) btree"
  e_dnssl :: "(rstring, instant option) btree"
  e_mtu :: "u32 option"
  e_dhcp6_wanted :: bool
  e_last_view :: ndp_view
  e_expired_at :: "instant option"

definition empty_view :: ndp_view where
  "empty_view = \<lparr>v_addresses = [], v_router = None, v_dns = [], v_search = [], v_mtu = None,
                 v_dhcp6 = False\<rparr>"

definition ndp_new :: "ndp_config \<Rightarrow> ndp" where
  "ndp_new config =
     \<lparr>e_config = config, e_rng = nc_seed config OR 1, e_solicit_at = None,
      e_solicit_interval = SOLICIT_INTERVAL, e_solicits = 0, e_routers = [], e_prefixes = [],
      e_rdnss = [], e_dnssl = [], e_mtu = None, e_dhcp6_wanted = False,
      e_last_view = empty_view, e_expired_at = None\<rparr>"

section \<open>Addresses\<close>

definition until :: "instant \<Rightarrow> u32 \<Rightarrow> instant option" where
  "until now lifetime_seconds =
     (if lifetime_seconds = - 1 then None else Some (now + secs (unat lifetime_seconds)))"

definition join :: "ipv6 \<Rightarrow> bytes \<Rightarrow> ipv6" where
  "join prefix iid = ipv6_of (take 8 (octets6 prefix) @ iid)"

definition reserved_iid :: "bytes \<Rightarrow> bool" where
  "reserved_iid iid =
     (list_all (\<lambda>b. b = 0) iid
      \<or> take 4 iid = [0x02, 0x00, 0x5e, 0xff]
      \<or> take 7 iid = [0xfd, 0xff, 0xff, 0xff, 0xff, 0xff, 0xff] \<and> 0x80 \<le> iid ! 7)"

definition stable_input :: "ndp_config \<Rightarrow> ipv6 \<Rightarrow> u8 \<Rightarrow> bytes" where
  "stable_input config prefix counter =
     as_bytes ''peios-ndp-stable-iid|'' @ nc_secret config @ take 8 (octets6 prefix)
     @ as_bytes (nc_interface config) @ [counter]"

definition stable_address :: "(bytes \<Rightarrow> bytes) \<Rightarrow> ndp_config \<Rightarrow> ipv6 \<Rightarrow> ipv6" where
  "stable_address sha1 config prefix =
     (case List.find (\<lambda>iid. \<not> reserved_iid iid)
             (map (\<lambda>counter. take 8 (sha1 (stable_input config prefix counter)))
                [0, 1, 2, 3, 4, 5, 6, 7]) of
        Some iid \<Rightarrow> join prefix iid
      | None \<Rightarrow> join prefix [0, 0, 0, 0, 0, 0, 0, 1])"

text \<open>One pass of the loop of \<^verbatim>\<open>new_temp\<close> draws two random words; their low halves are the identifier.\<close>

definition draw_iid :: "u64 \<Rightarrow> bytes \<times> u64" where
  "draw_iid rng =
     (let r1 = xorshift64 rng; r2 = xorshift64 r1
      in (be32 (ucast r1) @ be32 (ucast r2), r2))"

definition iid_free :: "ipv6 \<Rightarrow> prefix \<Rightarrow> bytes \<Rightarrow> bool" where
  "iid_free prefix p iid =
     (let address = join prefix iid;
          taken = address = p_stable p \<or> list_ex (\<lambda>t. t_address t = address) (p_temps p)
      in \<not> reserved_iid iid \<and> \<not> taken)"

partial_function (option) temp_iid :: "ipv6 \<Rightarrow> prefix \<Rightarrow> u64 \<Rightarrow> (bytes \<times> u64) option" where
  "temp_iid prefix p rng =
     (let (iid, rng) = draw_iid rng
      in if iid_free prefix p iid then Some (iid, rng) else temp_iid prefix p rng)"

declare temp_iid.simps [code]

definition clamp :: "instant \<Rightarrow> duration \<Rightarrow> instant option \<Rightarrow> instant" where
  "clamp now cap limit = (case limit of Some l \<Rightarrow> min (now + cap) l | None \<Rightarrow> now + cap)"

definition new_temp :: "ndp \<Rightarrow> instant \<Rightarrow> ipv6 \<Rightarrow> prefix \<Rightarrow> (ndp \<times> temp) option" where
  "new_temp e now prefix p =
     (case temp_iid prefix p (e_rng e) of
        None \<Rightarrow> None
      | Some (iid, rng) \<Rightarrow>
          (let rng = xorshift64 rng;
               desync = secs (unat rng mod 600);
               preferred = TEMP_PREFERRED - desync
           in Some (e\<lparr>e_rng := rng\<rparr>,
                    \<lparr>t_address = join prefix iid,
                     t_preferred_until = clamp now preferred (p_preferred_until p),
                     t_valid_until = clamp now TEMP_VALID (p_valid_until p)\<rparr>)))"

section \<open>The view\<close>

definition alive :: "instant \<Rightarrow> instant option \<Rightarrow> bool" where
  "alive now e = (case e of None \<Rightarrow> True | Some t \<Rightarrow> now < t)"

definition default_router :: "ndp \<Rightarrow> instant \<Rightarrow> ipv6 option" where
  "default_router e now = map_option fst (List.find (\<lambda>r. now < snd r) (e_routers e))"

definition dns_servers :: "ndp \<Rightarrow> instant \<Rightarrow> ipv6 list" where
  "dns_servers e now = map fst (filter (\<lambda>r. alive now (snd r)) (e_rdnss e))"

definition search_domains :: "ndp \<Rightarrow> instant \<Rightarrow> rstring list" where
  "search_domains e now = map fst (filter (\<lambda>r. alive now (snd r)) (e_dnssl e))"

definition temp_valid :: "instant \<Rightarrow> prefix \<Rightarrow> temp \<Rightarrow> bool" where
  "temp_valid now p t =
     (case p_valid_until p of
        Some pe \<Rightarrow> now < min (t_valid_until t) pe | None \<Rightarrow> now < t_valid_until t)"

definition prefix_addresses :: "instant \<Rightarrow> (ipv6 \<times> u8) \<times> prefix \<Rightarrow> desired_address list" where
  "prefix_addresses now kp =
     (case kp of ((_, len), p) \<Rightarrow>
        if \<not> alive now (p_valid_until p) then []
        else (let prefix_deprecated = \<not> alive now (p_preferred_until p)
              in \<lparr>da_address = p_stable p, da_prefix = len, da_deprecated = prefix_deprecated,
                  da_on_link = p_on_link p\<rparr>
                 # map (\<lambda>t. \<lparr>da_address = t_address t, da_prefix = len,
                              da_deprecated = (prefix_deprecated \<or> t_preferred_until t \<le> now),
                              da_on_link = p_on_link p\<rparr>)
                     (filter (temp_valid now p) (p_temps p))))"

text \<open>The derived order of \<^verbatim>\<open>DesiredAddress\<close> compares its fields in turn.\<close>

definition da_key :: "desired_address \<Rightarrow> ipv6 \<times> u8 \<times> bool \<times> bool" where
  "da_key d = (da_address d, da_prefix d, da_deprecated d, da_on_link d)"

definition ndp_view_at :: "ndp \<Rightarrow> instant \<Rightarrow> ndp_view" where
  "ndp_view_at e now =
     \<lparr>v_addresses = sort_key da_key (concat (map (prefix_addresses now) (e_prefixes e))),
      v_router = default_router e now,
      v_dns = dns_servers e now,
      v_search = search_domains e now,
      v_mtu = e_mtu e,
      v_dhcp6 = e_dhcp6_wanted e\<rparr>"

definition ndp_addresses :: "ndp \<Rightarrow> instant \<Rightarrow> desired_address list" where
  "ndp_addresses e now = v_addresses (ndp_view_at e now)"

definition emit_if_changed :: "ndp \<Rightarrow> instant \<Rightarrow> ndp_action list \<Rightarrow> ndp \<times> ndp_action list" where
  "emit_if_changed e now actions =
     (let view = ndp_view_at e now
      in if view \<noteq> e_last_view e then (e\<lparr>e_last_view := view\<rparr>, actions @ [Changed])
         else (e, actions))"

section \<open>Lifetimes\<close>

definition ndp_jitter :: "ndp \<Rightarrow> duration \<Rightarrow> ndp \<times> duration" where
  "ndp_jitter e interval =
     (let rng = xorshift64 (e_rng e) in (e\<lparr>e_rng := rng\<rparr>, jittered interval rng))"

text \<open>The first part of \<^verbatim>\<open>expire\<close>: drop what has ended, solicit again when no router is left.\<close>

definition expire_tables :: "ndp \<Rightarrow> instant \<Rightarrow> ndp" where
  "expire_tables e now =
     (let e = e\<lparr>e_expired_at := Some now,
                e_routers := bt_retain (\<lambda>_ expires. now < expires) (e_routers e)\<rparr>;
          e = (if e_routers e = [] \<and> e_solicit_at e = None then
                 e\<lparr>e_solicits := 0, e_solicit_interval := SOLICIT_INTERVAL,
                   e_solicit_at := Some now\<rparr>
               else e)
      in e\<lparr>e_rdnss := bt_retain (\<lambda>_. alive now) (e_rdnss e),
           e_dnssl := bt_retain (\<lambda>_. alive now) (e_dnssl e),
           e_prefixes := bt_map (\<lambda>_ p. p\<lparr>p_temps := filter (\<lambda>t. now < t_valid_until t) (p_temps p)\<rparr>)
                           (bt_retain (\<lambda>_ p. alive now (p_valid_until p)) (e_prefixes e))\<rparr>)"

definition needs_temp :: "ndp_config \<Rightarrow> instant \<Rightarrow> prefix \<Rightarrow> bool" where
  "needs_temp config now p =
     (let prefix_preferred = alive now (p_preferred_until p);
          newest_preferred = (p_temps p \<noteq> [] \<and> now < t_preferred_until (last (p_temps p)))
      in nc_temporary config \<and> prefix_preferred \<and> \<not> newest_preferred)"

text \<open>The loop over the keys to regenerate: each was chosen from the map, so the lookup succeeds.\<close>

fun regenerate_temps :: "(ipv6 \<times> u8) list \<Rightarrow> instant \<Rightarrow> ndp \<Rightarrow> ndp option" where
  "regenerate_temps [] now e = Some e"
| "regenerate_temps (key # keys) now e =
     (case bt_get (e_prefixes e) key of
        None \<Rightarrow> None
      | Some p \<Rightarrow>
          (case new_temp e now (fst key) p of
             None \<Rightarrow> None
           | Some (e, temp) \<Rightarrow>
               regenerate_temps keys now
                 (e\<lparr>e_prefixes := bt_map (\<lambda>k p. if k = key then p\<lparr>p_temps := p_temps p @ [temp]\<rparr> else p)
                                    (e_prefixes e)\<rparr>)))"

definition cut_temps :: "prefix \<Rightarrow> prefix" where
  "cut_temps p =
     (if MAX_TEMPS < length (p_temps p)
      then p\<lparr>p_temps := drop (length (p_temps p) - MAX_TEMPS) (p_temps p)\<rparr> else p)"

definition expire :: "ndp \<Rightarrow> instant \<Rightarrow> ndp option" where
  "expire e now =
     (let e = expire_tables e now;
          regenerate = map fst (filter (\<lambda>kp. needs_temp (e_config e) now (snd kp)) (e_prefixes e))
      in case regenerate_temps regenerate now e of
           None \<Rightarrow> None
         | Some e \<Rightarrow> Some (e\<lparr>e_prefixes := bt_map (\<lambda>_. cut_temps) (e_prefixes e)\<rparr>))"

text \<open>A deadline still to come: not one the last \<^verbatim>\<open>expire\<close> has already applied.\<close>

definition pending :: "ndp \<Rightarrow> instant option \<Rightarrow> instant option" where
  "pending e t =
     (case t of
        None \<Rightarrow> None
      | Some t \<Rightarrow> if (case e_expired_at e of None \<Rightarrow> True | Some ex \<Rightarrow> ex < t) then Some t else None)"

definition temp_deadline :: "ndp \<Rightarrow> instant option \<Rightarrow> temp \<Rightarrow> instant option" where
  "temp_deadline e d t = earlier (earlier d (pending e (Some (t_preferred_until t)))) (Some (t_valid_until t))"

definition prefix_deadline :: "ndp \<Rightarrow> instant option \<Rightarrow> prefix \<Rightarrow> instant option" where
  "prefix_deadline e d p =
     foldl (temp_deadline e) (earlier (earlier d (p_valid_until p)) (pending e (p_preferred_until p)))
       (p_temps p)"

definition ndp_next_deadline :: "ndp \<Rightarrow> instant option" where
  "ndp_next_deadline e =
     (let d = foldl (\<lambda>d r. earlier d (Some (snd r))) (e_solicit_at e) (e_routers e);
          d = foldl (\<lambda>d kp. prefix_deadline e d (snd kp)) d (e_prefixes e)
      in foldl earlier d (map snd (e_rdnss e) @ map snd (e_dnssl e)))"

section \<open>The interface\<close>

text \<open>The solicitation part of \<^verbatim>\<open>tick\<close>.\<close>

definition tick_solicit :: "ndp \<Rightarrow> instant \<Rightarrow> ndp \<times> ndp_action list" where
  "tick_solicit e now =
     (case e_solicit_at e of
        None \<Rightarrow> (e, [])
      | Some at \<Rightarrow>
          if at \<le> now then
            (let e = e\<lparr>e_solicits := e_solicits e + 1\<rparr>;
                 e = (if SOLICITS_BEFORE_BACKOFF \<le> e_solicits e
                      then e\<lparr>e_solicit_interval := min (e_solicit_interval e * 2) MAX_SOLICIT_INTERVAL\<rparr>
                      else e);
                 (e, j) = ndp_jitter e (e_solicit_interval e)
             in (e\<lparr>e_solicit_at := Some (now + j)\<rparr>, [Solicit (solicit (nc_mac (e_config e)))]))
          else (e, []))"

definition ndp_tick :: "ndp \<Rightarrow> instant \<Rightarrow> (ndp \<times> ndp_action list) option" where
  "ndp_tick e now =
     (case expire e now of
        None \<Rightarrow> None
      | Some e \<Rightarrow> (let (e, actions) = tick_solicit e now in Some (emit_if_changed e now actions)))"

definition ndp_start :: "ndp \<Rightarrow> instant \<Rightarrow> (ndp \<times> ndp_action list) option" where
  "ndp_start e now =
     ndp_tick (e\<lparr>e_solicits := 0, e_solicit_interval := SOLICIT_INTERVAL, e_solicit_at := Some now\<rparr>) now"

text \<open>The valid lifetime of a known prefix after an advertisement (RFC 4862, 5.5.3(e)).\<close>

definition new_valid :: "instant \<Rightarrow> instant option \<Rightarrow> u32 \<Rightarrow> instant option" where
  "new_valid now valid_until valid =
     (let remaining = map_option (\<lambda>t. saturating_duration_since t now) valid_until;
          received = secs (unat valid)
      in case remaining of
           Some rem \<Rightarrow>
             if TWO_HOURS < received \<or> rem < received then until now valid
             else if rem \<le> TWO_HOURS then Some (now + rem)
             else Some (now + TWO_HOURS)
         | None \<Rightarrow> if TWO_HOURS < received then until now valid else Some (now + TWO_HOURS))"

definition receive_prefix :: "(bytes \<Rightarrow> bytes) \<Rightarrow> ndp \<Rightarrow> instant \<Rightarrow> prefix_info \<Rightarrow> ndp option" where
  "receive_prefix sha1 e now info =
     (if \<not> pi_autonomous info \<or> pi_length info \<noteq> 64 \<or> pi_valid info < pi_preferred info then Some e
      else (let key = (pi_prefix info, pi_length info)
            in case bt_get (e_prefixes e) key of
                 Some _ \<Rightarrow>
                   Some (e\<lparr>e_prefixes := bt_map (\<lambda>k p.
                      if k = key then p\<lparr>p_on_link := pi_on_link info,
                                         p_preferred_until := until now (pi_preferred info),
                                         p_valid_until := new_valid now (p_valid_until p) (pi_valid info)\<rparr>
                      else p) (e_prefixes e)\<rparr>)
               | None \<Rightarrow>
                   if 0 < pi_valid info then
                     (let p = \<lparr>p_on_link = pi_on_link info,
                               p_valid_until = until now (pi_valid info),
                               p_preferred_until = until now (pi_preferred info),
                               p_stable = stable_address sha1 (e_config e) (pi_prefix info),
                               p_temps = []\<rparr>
                      in if nc_temporary (e_config e) \<and> 0 < pi_preferred info then
                           (case new_temp e now (pi_prefix info) p of
                              None \<Rightarrow> None
                            | Some (e, temp) \<Rightarrow>
                                Some (e\<lparr>e_prefixes := bt_insert key (p\<lparr>p_temps := [temp]\<rparr>) (e_prefixes e)\<rparr>))
                         else Some (e\<lparr>e_prefixes := bt_insert key p (e_prefixes e)\<rparr>))
                   else Some e))"

fun receive_prefixes :: "(bytes \<Rightarrow> bytes) \<Rightarrow> instant \<Rightarrow> prefix_info list \<Rightarrow> ndp \<Rightarrow> ndp option" where
  "receive_prefixes sha1 now [] e = Some e"
| "receive_prefixes sha1 now (p # ps) e =
     Option.bind (receive_prefix sha1 e now p) (receive_prefixes sha1 now ps)"

definition receive_lifetime ::
  "instant \<Rightarrow> u32 \<Rightarrow> 'k list \<Rightarrow> ('k::linorder, instant option) btree \<Rightarrow> ('k, instant option) btree" where
  "receive_lifetime now lifetime ks m =
     foldl (\<lambda>m k. if lifetime = 0 then bt_remove k m else bt_insert k (until now lifetime) m) m ks"

definition receive_router :: "ndp \<Rightarrow> instant \<Rightarrow> ipv6 \<Rightarrow> router_advert \<Rightarrow> ndp" where
  "receive_router e now source ra =
     (let e = (if 0 < ra_router_lifetime ra then
                 e\<lparr>e_routers := bt_insert source (now + secs (unat (ra_router_lifetime ra))) (e_routers e),
                   e_solicit_at := None\<rparr>
               else e\<lparr>e_routers := bt_remove source (e_routers e)\<rparr>);
          e = (if ra_managed ra \<or> ra_other_config ra then e\<lparr>e_dhcp6_wanted := True\<rparr> else e)
      in case ra_mtu ra of Some mtu \<Rightarrow> e\<lparr>e_mtu := Some mtu\<rparr> | None \<Rightarrow> e)"

definition receive_dns :: "ndp \<Rightarrow> instant \<Rightarrow> router_advert \<Rightarrow> ndp" where
  "receive_dns e now ra =
     e\<lparr>e_rdnss := foldl (\<lambda>m r. receive_lifetime now (rd_lifetime r) (rd_servers r) m) (e_rdnss e) (ra_rdnss ra),
       e_dnssl := foldl (\<lambda>m d. receive_lifetime now (ds_lifetime d) (ds_domains d) m) (e_dnssl e) (ra_dnssl ra)\<rparr>"

definition ndp_receive ::
  "(bytes \<Rightarrow> bytes) \<Rightarrow> ndp \<Rightarrow> instant \<Rightarrow> ipv6 \<Rightarrow> bytes \<Rightarrow> (ndp \<times> ndp_action list) option" where
  "ndp_receive sha1 e now source body =
     (case router_advert_decode body of
        None \<Rightarrow> Some (e, [])
      | Some ra \<Rightarrow>
          (case receive_prefixes sha1 now (ra_prefixes ra) (receive_router e now source ra) of
             None \<Rightarrow> None
           | Some e \<Rightarrow>
               (case expire (receive_dns e now ra) now of
                  None \<Rightarrow> None
                | Some e \<Rightarrow> Some (emit_if_changed e now []))))"


section \<open>Lifetimes and deadlines\<close>

lemma alive_simps [simp]: "alive now None" "alive now (Some t) \<longleftrightarrow> now < t"
  by (simp_all add: alive_def)

lemma alive_later: "alive now e = later e now"
  by (simp add: alive_def later_def)

lemma later_pending:
  "later (pending e (Some u)) t \<longleftrightarrow>
     t < u \<or> \<not> (case e_expired_at e of None \<Rightarrow> True | Some ex \<Rightarrow> ex < u)"
  by (auto simp: pending_def)

lemma pending_None [simp]: "pending e None = None"
  by (simp add: pending_def)

lemma later_temp_deadlines:
  "later (foldl (temp_deadline e) d ts) t \<longleftrightarrow>
     later d t \<and> (\<forall>x\<in>set ts. later (pending e (Some (t_preferred_until x))) t \<and> t < t_valid_until x)"
  by (induction ts arbitrary: d) (auto simp: temp_deadline_def)

lemma later_prefix_deadline:
  "later (prefix_deadline e d p) t \<longleftrightarrow>
     later d t \<and> later (p_valid_until p) t \<and> later (pending e (p_preferred_until p)) t
     \<and> (\<forall>x\<in>set (p_temps p). later (pending e (Some (t_preferred_until x))) t \<and> t < t_valid_until x)"
  by (auto simp: prefix_deadline_def later_temp_deadlines)

lemma later_prefix_deadlines:
  "later (foldl (\<lambda>d kp. prefix_deadline e d (snd kp)) d kps) t \<longleftrightarrow>
     later d t \<and> (\<forall>kp\<in>set kps. later (prefix_deadline e None (snd kp)) t)"
  by (induction kps arbitrary: d) (auto simp: later_prefix_deadline)

lemma later_foldl_plain:
  "later (foldl earlier d ts) t \<longleftrightarrow> later d t \<and> (\<forall>x\<in>set ts. later x t)"
  by (induction ts arbitrary: d) auto

text \<open>The deadline lies ahead of an instant exactly when everything it is the minimum of does.\<close>

lemma later_ndp_next_deadline:
  "later (ndp_next_deadline e) t \<longleftrightarrow>
     later (e_solicit_at e) t \<and> (\<forall>r\<in>set (e_routers e). t < snd r)
     \<and> (\<forall>kp\<in>set (e_prefixes e). later (prefix_deadline e None (snd kp)) t)
     \<and> (\<forall>r\<in>set (e_rdnss e). later (snd r) t) \<and> (\<forall>r\<in>set (e_dnssl e). later (snd r) t)"
  by (auto simp: ndp_next_deadline_def Let_def later_foldl_plain later_prefix_deadlines later_foldl_earlier)

section \<open>Lifetimes applied\<close>

text \<open>Nothing in the tables has ended by the instant the lifetimes were last applied.\<close>

definition prefix_live :: "instant \<Rightarrow> prefix \<Rightarrow> bool" where
  "prefix_live now p = (alive now (p_valid_until p) \<and> (\<forall>t\<in>set (p_temps p). now < t_valid_until t))"

definition tables_live :: "instant \<Rightarrow> ndp \<Rightarrow> bool" where
  "tables_live now e =
     (e_expired_at e = Some now
      \<and> (\<forall>r\<in>set (e_routers e). now < snd r)
      \<and> (\<forall>kp\<in>set (e_prefixes e). prefix_live now (snd kp))
      \<and> (\<forall>r\<in>set (e_rdnss e). alive now (snd r)) \<and> (\<forall>r\<in>set (e_dnssl e). alive now (snd r))
      \<and> (e_routers e = [] \<longrightarrow> e_solicit_at e \<noteq> None))"

lemma deprecation_settled:
  assumes "e_expired_at e = Some now" "now \<le> t" "later (pending e d) t"
  shows "alive t d \<longleftrightarrow> alive now d"
  using assms by (cases d) (auto simp: pending_def split: if_splits)

text \<open>Between the instant lifetimes were applied and the next deadline, the view does not change.\<close>

lemma prefix_addresses_stable:
  assumes "e_expired_at e = Some now" "prefix_live now p" "now \<le> t" "later (prefix_deadline e None p) t"
  shows "prefix_addresses t (k, p) = prefix_addresses now (k, p)"
proof -
  have valid: "alive t (p_valid_until p)" "alive now (p_valid_until p)"
    using assms(2,4) by (simp_all add: prefix_live_def later_prefix_deadline alive_later)
  have dep: "alive t (p_preferred_until p) \<longleftrightarrow> alive now (p_preferred_until p)"
    using assms(4) by (intro deprecation_settled [OF assms(1,3)]) (simp add: later_prefix_deadline)
  have temps: "temp_valid t p x \<and> temp_valid now p x \<and> (t_preferred_until x \<le> t \<longleftrightarrow> t_preferred_until x \<le> now)"
    if "x \<in> set (p_temps p)" for x
  proof -
    have "later (pending e (Some (t_preferred_until x))) t" "t < t_valid_until x" "now < t_valid_until x"
      using assms(2,4) that by (auto simp: prefix_live_def later_prefix_deadline)
    with deprecation_settled [OF assms(1,3), of "Some (t_preferred_until x)"] valid show ?thesis
      by (auto simp: temp_valid_def not_less split: option.splits)
  qed
  then have "filter (temp_valid t p) (p_temps p) = p_temps p" "filter (temp_valid now p) (p_temps p) = p_temps p"
    by (simp_all add: filter_id_conv)
  with valid dep temps show ?thesis
    by (cases k) (simp add: prefix_addresses_def Let_def)
qed

lemma view_stable:
  assumes "tables_live now e" "now \<le> t" "later (ndp_next_deadline e) t"
  shows "ndp_view_at e t = ndp_view_at e now"
proof -
  have d: "\<forall>r\<in>set (e_routers e). t < snd r"
    "\<forall>kp\<in>set (e_prefixes e). later (prefix_deadline e None (snd kp)) t"
    "\<forall>r\<in>set (e_rdnss e). alive t (snd r)" "\<forall>r\<in>set (e_dnssl e). alive t (snd r)"
    using assms(3) by (auto simp: later_ndp_next_deadline alive_later)
  have "map (prefix_addresses t) (e_prefixes e) = map (prefix_addresses now) (e_prefixes e)"
    using assms(1,2) d(2) by (auto simp: tables_live_def intro!: prefix_addresses_stable)
  moreover have "default_router e t = default_router e now"
    using assms(1) d(1) unfolding default_router_def tables_live_def
    by (intro arg_cong [where f = "map_option fst"] find_cong) auto
  moreover have "dns_servers e t = dns_servers e now" "search_domains e t = search_domains e now"
    using assms(1) d(3,4) unfolding dns_servers_def search_domains_def tables_live_def
    by (auto intro!: arg_cong [where f = "map fst"] filter_cong)
  ultimately show ?thesis by (simp only: ndp_view_at_def)
qed

section \<open>Temporary addresses\<close>

lemma temp_iid_free:
  assumes "temp_iid prefix p rng = Some r"
  shows "iid_free prefix p (fst r) \<and> length (fst r) = 8"
  by (rule temp_iid.raw_induct [OF _ assms, where P = "\<lambda>prefix p rng r. iid_free prefix p (fst r) \<and> length (fst r) = 8"])
     (auto simp: Let_def draw_iid_def split: if_splits)

lemma temp_iid_rng:
  assumes "temp_iid prefix p rng = Some r" "rng \<noteq> 0"
  shows "snd r \<noteq> 0"
proof -
  have "rng \<noteq> 0 \<longrightarrow> snd r \<noteq> 0"
    by (rule temp_iid.raw_induct [OF _ assms(1), where P = "\<lambda>prefix p rng r. rng \<noteq> 0 \<longrightarrow> snd r \<noteq> 0"])
       (auto simp: Let_def draw_iid_def xorshift64_nonzero split: if_splits)
  with assms(2) show ?thesis by blast
qed

text \<open>An address formed from a prefix: its first half is the prefix's, its second not reserved.\<close>

definition addr_ok :: "ipv6 \<Rightarrow> ipv6 \<Rightarrow> bool" where
  "addr_ok prefix a =
     (take 8 (octets6 a) = take 8 (octets6 prefix) \<and> \<not> reserved_iid (drop 8 (octets6 a)))"

lemma octets6_join: "length iid = 8 \<Longrightarrow> octets6 (join prefix iid) = take 8 (octets6 prefix) @ iid"
  by (simp add: join_def octets6_ipv6_of)

lemma addr_ok_join: "length iid = 8 \<Longrightarrow> \<not> reserved_iid iid \<Longrightarrow> addr_ok prefix (join prefix iid)"
  by (simp add: addr_ok_def octets6_join)

definition digest_ok :: "(bytes \<Rightarrow> bytes) \<Rightarrow> bool" where
  "digest_ok sha1 = (\<forall>x. length (sha1 x) = 20)"

lemma stable_address_ok:
  assumes "digest_ok sha1"
  shows "addr_ok prefix (stable_address sha1 config prefix)"
proof -
  have "\<not> reserved_iid [0, 0, 0, 0, 0, 0, 0, 1]" by (simp add: reserved_iid_def)
  with assms show ?thesis
    unfolding stable_address_def
    by (auto simp: digest_ok_def find_Some_iff nth_Cons' split: option.splits intro!: addr_ok_join)
qed

definition temps_wf :: "ipv6 \<times> u8 \<Rightarrow> prefix \<Rightarrow> bool" where
  "temps_wf key p =
     (snd key = 64 \<and> distinct (p_stable p # map t_address (p_temps p))
      \<and> (\<forall>a\<in>set (p_stable p # map t_address (p_temps p)). addr_ok (fst key) a))"

lemma new_temp_cases:
  assumes "new_temp e now prefix p = Some (e', t)"
  obtains iid rng where "e' = e\<lparr>e_rng := rng\<rparr>" "e_rng e \<noteq> 0 \<Longrightarrow> rng \<noteq> 0"
    "iid_free prefix p iid" "length iid = 8" "t_address t = join prefix iid"
    "t_valid_until t = clamp now TEMP_VALID (p_valid_until p)"
    "t_preferred_until t = clamp now (TEMP_PREFERRED - secs (unat rng mod 600)) (p_preferred_until p)"
proof -
  obtain iid r where r: "temp_iid prefix p (e_rng e) = Some (iid, r)"
    and eq: "e' = e\<lparr>e_rng := xorshift64 r\<rparr>"
      "t = \<lparr>t_address = join prefix iid,
            t_preferred_until = clamp now (TEMP_PREFERRED - secs (unat (xorshift64 r) mod 600)) (p_preferred_until p),
            t_valid_until = clamp now TEMP_VALID (p_valid_until p)\<rparr>"
    using assms by (auto simp: new_temp_def Let_def split: option.splits)
  show thesis
    using temp_iid_free [OF r] temp_iid_rng [OF r] eq
    by (intro that [of "xorshift64 r" iid]) (auto dest: xorshift64_nonzero)
qed

lemma clamp_later: "0 < cap \<Longrightarrow> alive now limit \<Longrightarrow> now < clamp now cap limit"
  by (auto simp: clamp_def split: option.splits)

lemma temps_wf_new:
  assumes "new_temp e now (fst key) p = Some (e', t)" "temps_wf key p"
  shows "temps_wf key (p\<lparr>p_temps := p_temps p @ [t]\<rparr>)"
  by (rule new_temp_cases [OF assms(1)])
     (use assms(2) in \<open>auto simp: temps_wf_def iid_free_def Let_def list_ex_iff addr_ok_join\<close>)

lemma prefix_live_new:
  assumes "new_temp e now prefix p = Some (e', t)" "prefix_live now p"
  shows "prefix_live now (p\<lparr>p_temps := p_temps p @ [t]\<rparr>)"
proof -
  have "t_valid_until t = clamp now TEMP_VALID (p_valid_until p)"
    by (rule new_temp_cases [OF assms(1)])
  moreover have "now < clamp now TEMP_VALID (p_valid_until p)"
    using assms(2) by (intro clamp_later) (auto simp: prefix_live_def time_simps)
  ultimately show ?thesis using assms(2) by (auto simp: prefix_live_def)
qed

lemma bt_map_keys [simp]: "map fst (bt_map f m) = map fst m"
  by (simp add: bt_map_def comp_def)

lemma in_bt_map: "kp \<in> set (bt_map f m) \<longleftrightarrow> (\<exists>p. (fst kp, p) \<in> set m \<and> snd kp = f (fst kp) p)"
  by (cases kp) (force simp: bt_map_def)

text \<open>Regeneration changes the generator and the lists of temporary addresses only.\<close>

lemma regenerate_frame:
  "regenerate_temps keys now e = Some e' \<Longrightarrow>
   \<exists>rng ps. e' = e\<lparr>e_rng := rng, e_prefixes := ps\<rparr> \<and> (e_rng e \<noteq> 0 \<longrightarrow> rng \<noteq> 0)
     \<and> map fst ps = map fst (e_prefixes e)"
proof (induction keys arbitrary: e)
  case Nil
  then show ?case by (intro exI [of _ "e_rng e"] exI [of _ "e_prefixes e"]) simp
next
  case (Cons key keys)
  then obtain p e1 t where p: "bt_get (e_prefixes e) key = Some p"
    and t: "new_temp e now (fst key) p = Some (e1, t)"
    and rec: "regenerate_temps keys now (e1\<lparr>e_prefixes := bt_map (\<lambda>k p. if k = key
        then p\<lparr>p_temps := p_temps p @ [t]\<rparr> else p) (e_prefixes e1)\<rparr>) = Some e'"
    by (auto split: option.splits)
  from t obtain rng where "e1 = e\<lparr>e_rng := rng\<rparr>" "e_rng e \<noteq> 0 \<longrightarrow> rng \<noteq> 0"
    using new_temp_cases [of e now "fst key" p e1 t] by blast
  with Cons.IH [OF rec] show ?case by auto
qed

lemma regenerate_all:
  assumes new: "\<And>e key p e' t. new_temp e now (fst key) p = Some (e', t) \<Longrightarrow> P key p \<Longrightarrow>
      P key (p\<lparr>p_temps := p_temps p @ [t]\<rparr>)"
  shows "regenerate_temps keys now e = Some e' \<Longrightarrow> bt_ok (e_prefixes e) \<Longrightarrow>
    \<forall>kp\<in>set (e_prefixes e). P (fst kp) (snd kp) \<Longrightarrow> \<forall>kp\<in>set (e_prefixes e'). P (fst kp) (snd kp)"
proof (induction keys arbitrary: e)
  case Nil
  then show ?case by simp
next
  case (Cons key keys)
  let ?upd = "\<lambda>t. bt_map (\<lambda>k p. if k = key then p\<lparr>p_temps := p_temps p @ [t]\<rparr> else p)"
  from Cons.prems(1) obtain p e1 t where p: "bt_get (e_prefixes e) key = Some p"
    and t: "new_temp e now (fst key) p = Some (e1, t)"
    and rec: "regenerate_temps keys now (e1\<lparr>e_prefixes := ?upd t (e_prefixes e1)\<rparr>) = Some e'"
    by (auto split: option.splits)
  from t obtain rng where e1: "e1 = e\<lparr>e_rng := rng\<rparr>"
    using new_temp_cases [of e now "fst key" p e1 t] by blast
  have ok: "bt_ok (e_prefixes e)" and all: "\<forall>kp\<in>set (e_prefixes e). P (fst kp) (snd kp)"
    by (rule Cons.prems)+
  have one: "p' = p" if "(key, p') \<in> set (e_prefixes e)" for p'
    using bt_get_in [OF ok] p that by simp
  have all': "P k q" if "(k, q) \<in> set (e_prefixes e)" for k q using bspec [OF all that] by simp
  have "P key p" using p bt_get_in [OF ok] by (intro all') simp
  then have "P key (p\<lparr>p_temps := p_temps p @ [t]\<rparr>)" by (rule new [OF t])
  note new' = this
  have "\<forall>kp\<in>set (?upd t (e_prefixes e)). P (fst kp) (snd kp)"
  proof
    fix kp assume "kp \<in> set (?upd t (e_prefixes e))"
    then obtain q where q: "(fst kp, q) \<in> set (e_prefixes e)"
      "snd kp = (if fst kp = key then q\<lparr>p_temps := p_temps q @ [t]\<rparr> else q)"
      by (auto simp: in_bt_map)
    show "P (fst kp) (snd kp)"
    proof (cases "fst kp = key")
      case True
      then show ?thesis using q new' one by simp
    next
      case False
      then show ?thesis using q(2) all' [OF q(1)] by simp
    qed
  qed
  with Cons.IH [OF rec] e1 ok show ?case by simp
qed

section \<open>The invariant\<close>

definition interval_ok :: "duration \<Rightarrow> bool" where
  "interval_ok i = (\<exists>m. i = millis m \<and> 4000 \<le> m \<and> m \<le> 3600000)"

definition ndp_inv :: "ndp \<Rightarrow> bool" where
  "ndp_inv e =
     (bt_ok (e_routers e) \<and> bt_ok (e_prefixes e) \<and> bt_ok (e_rdnss e) \<and> bt_ok (e_dnssl e)
      \<and> e_rng e \<noteq> 0 \<and> interval_ok (e_solicit_interval e)
      \<and> (\<forall>kp\<in>set (e_prefixes e). temps_wf (fst kp) (snd kp) \<and> length (p_temps (snd kp)) \<le> MAX_TEMPS))"

lemma interval_ok_first [simp]: "interval_ok SOLICIT_INTERVAL"
  by (auto simp: interval_ok_def time_simps intro!: exI [of _ 4000])

lemma interval_ok_double [simp]: "interval_ok i \<Longrightarrow> interval_ok (min (i * 2) MAX_SOLICIT_INTERVAL)"
proof -
  assume "interval_ok i"
  then obtain m where "i = millis m" "4000 \<le> m" "m \<le> 3600000" by (auto simp: interval_ok_def)
  then show ?thesis
    by (auto simp: interval_ok_def time_simps min_def intro!: exI [of _ "min (m * 2) 3600000"])
qed

lemma temps_wf_subseq:
  assumes "temps_wf key p" "set ts \<subseteq> set (p_temps p)" "distinct (map t_address ts)"
  shows "temps_wf key (p\<lparr>p_temps := ts\<rparr>)"
  using assms by (auto simp: temps_wf_def)

lemma temps_wf_filter: "temps_wf key p \<Longrightarrow> temps_wf key (p\<lparr>p_temps := filter P (p_temps p)\<rparr>)"
  by (rule temps_wf_subseq) (auto simp: temps_wf_def distinct_map_filter)

lemma temps_wf_cut: "temps_wf key p \<Longrightarrow> temps_wf key (cut_temps p)"
  unfolding cut_temps_def
  by (auto intro!: temps_wf_subseq dest: in_set_dropD simp: temps_wf_def drop_map [symmetric])

lemma prefix_live_cut: "prefix_live now p \<Longrightarrow> prefix_live now (cut_temps p)"
  by (auto simp: prefix_live_def cut_temps_def dest: in_set_dropD)

lemma length_cut_temps: "length (p_temps (cut_temps p)) \<le> MAX_TEMPS"
  by (simp add: cut_temps_def)

lemma expire_tables_fields [simp]:
  "e_config (expire_tables e now) = e_config e" "e_rng (expire_tables e now) = e_rng e"
  "e_mtu (expire_tables e now) = e_mtu e" "e_dhcp6_wanted (expire_tables e now) = e_dhcp6_wanted e"
  "e_last_view (expire_tables e now) = e_last_view e" "e_expired_at (expire_tables e now) = Some now"
  "e_prefixes (expire_tables e now) =
     bt_map (\<lambda>_ p. p\<lparr>p_temps := filter (\<lambda>t. now < t_valid_until t) (p_temps p)\<rparr>)
       (bt_retain (\<lambda>_ p. alive now (p_valid_until p)) (e_prefixes e))"
  by (simp_all add: expire_tables_def Let_def)

lemma expire_tables_live: "tables_live now (expire_tables e now)"
  by (auto simp: tables_live_def expire_tables_def Let_def prefix_live_def in_bt_map)

lemma expire_tables_inv: "ndp_inv e \<Longrightarrow> ndp_inv (expire_tables e now)"
proof -
  assume inv: "ndp_inv e"
  have "\<forall>kp\<in>set (e_prefixes (expire_tables e now)).
      temps_wf (fst kp) (snd kp) \<and> length (p_temps (snd kp)) \<le> MAX_TEMPS"
  proof
    fix kp assume "kp \<in> set (e_prefixes (expire_tables e now))"
    then obtain p where p: "(fst kp, p) \<in> set (e_prefixes e)"
      "snd kp = p\<lparr>p_temps := filter (\<lambda>t. now < t_valid_until t) (p_temps p)\<rparr>"
      by (auto simp: in_bt_map)
    moreover have "temps_wf (fst kp) p" "length (p_temps p) \<le> MAX_TEMPS"
      using inv p(1) by (auto simp: ndp_inv_def)
    ultimately show "temps_wf (fst kp) (snd kp) \<and> length (p_temps (snd kp)) \<le> MAX_TEMPS"
      by (simp add: temps_wf_filter le_trans [OF length_filter_le])
  qed
  with inv show ?thesis
    unfolding ndp_inv_def by (simp add: expire_tables_def Let_def)
qed

text \<open>After \<^verbatim>\<open>expire\<close> every table is live and the invariant holds; the rest is untouched.\<close>

lemma expire_post:
  assumes "expire e now = Some e'" "ndp_inv e"
  shows "ndp_inv e'" "tables_live now e'" "e_config e' = e_config e" "e_last_view e' = e_last_view e"
    "e_solicit_at e' = e_solicit_at (expire_tables e now)"
    "e_routers e' = e_routers (expire_tables e now)"
proof -
  let ?e = "expire_tables e now"
  obtain e1 keys where r: "regenerate_temps keys now ?e = Some e1"
    and e': "e' = e1\<lparr>e_prefixes := bt_map (\<lambda>_. cut_temps) (e_prefixes e1)\<rparr>"
    using assms(1) by (auto simp: expire_def Let_def split: option.splits)
  obtain rng ps where e1: "e1 = ?e\<lparr>e_rng := rng, e_prefixes := ps\<rparr>" "e_rng e \<noteq> 0 \<longrightarrow> rng \<noteq> 0"
    "map fst ps = map fst (e_prefixes ?e)"
    using regenerate_frame [OF r] by auto
  have inv: "ndp_inv ?e" using assms(2) by (rule expire_tables_inv)
  then have ok: "bt_ok (e_prefixes ?e)" by (simp add: ndp_inv_def)
  have wf: "\<forall>kp\<in>set (e_prefixes e1). temps_wf (fst kp) (snd kp)"
    by (rule regenerate_all [OF _ r ok]) (use inv in \<open>auto simp: temps_wf_new ndp_inv_def\<close>)
  have live: "\<forall>kp\<in>set (e_prefixes e1). prefix_live now (snd kp)"
    by (rule regenerate_all [OF _ r ok])
       (use expire_tables_live [of now e] in \<open>auto simp: prefix_live_new tables_live_def\<close>)
  have cut: "\<forall>kp\<in>set (e_prefixes e'). temps_wf (fst kp) (snd kp) \<and> prefix_live now (snd kp)
      \<and> length (p_temps (snd kp)) \<le> MAX_TEMPS"
    using bspec [OF wf] bspec [OF live]
    by (fastforce simp: e' in_bt_map intro: temps_wf_cut prefix_live_cut length_cut_temps)
  have "bt_ok (e_prefixes e')"
    using ok e1(3) by (simp add: e' e1(1) bt_ok_def)
  then show "ndp_inv e'"
    using inv cut e1(2) assms(2) by (simp add: ndp_inv_def e' e1(1))
  show "tables_live now e'"
    using expire_tables_live [of now e] cut by (simp add: tables_live_def e' e1(1))
  show "e_config e' = e_config e" "e_last_view e' = e_last_view e"
    "e_solicit_at e' = e_solicit_at ?e" "e_routers e' = e_routers ?e"
    by (simp_all add: e' e1(1))
qed

section \<open>Every call keeps the invariant\<close>

lemma deadline_last_view [simp]:
  "pending (e\<lparr>e_last_view := v\<rparr>) = pending e"
  "temp_deadline (e\<lparr>e_last_view := v\<rparr>) = temp_deadline e"
  "prefix_deadline (e\<lparr>e_last_view := v\<rparr>) = prefix_deadline e"
  "ndp_next_deadline (e\<lparr>e_last_view := v\<rparr>) = ndp_next_deadline e"
proof -
  show p: "pending (e\<lparr>e_last_view := v\<rparr>) = pending e"
    by (simp add: fun_eq_iff pending_def split: option.split)
  show t: "temp_deadline (e\<lparr>e_last_view := v\<rparr>) = temp_deadline e"
    by (simp add: fun_eq_iff temp_deadline_def p)
  show q: "prefix_deadline (e\<lparr>e_last_view := v\<rparr>) = prefix_deadline e"
    by (simp add: fun_eq_iff prefix_deadline_def p t)
  show "ndp_next_deadline (e\<lparr>e_last_view := v\<rparr>) = ndp_next_deadline e"
    by (simp add: ndp_next_deadline_def q)
qed

lemma emit_fields [simp]:
  "tables_live now (fst (emit_if_changed e now as)) = tables_live now e"
  "ndp_inv (fst (emit_if_changed e now as)) = ndp_inv e"
  "ndp_view_at (fst (emit_if_changed e now as)) = ndp_view_at e"
  "ndp_next_deadline (fst (emit_if_changed e now as)) = ndp_next_deadline e"
  by (simp_all add: emit_if_changed_def Let_def tables_live_def ndp_inv_def ndp_view_at_def fun_eq_iff
      default_router_def dns_servers_def search_domains_def)

lemma emit_last_view: "e_last_view (fst (emit_if_changed e now as)) = ndp_view_at e now"
  by (simp add: emit_if_changed_def Let_def)

lemma emit_changed:
  "Changed \<notin> set as \<Longrightarrow> Changed \<in> set (snd (emit_if_changed e now as)) \<longleftrightarrow> ndp_view_at e now \<noteq> e_last_view e"
  by (simp add: emit_if_changed_def Let_def)

lemma jittered_interval:
  assumes "interval_ok i"
  shows "secs 3 \<le> jittered i r" "jittered i r \<le> secs 3961"
proof -
  obtain m where m: "i = millis m" "4000 \<le> m" "m \<le> 3600000"
    using assms by (auto simp: interval_ok_def)
  then show "secs 3 \<le> jittered i r" "jittered i r \<le> secs 3961"
    using jittered_bounds [OF m(1), of r] by (auto simp: time_simps)
qed

lemma tick_solicit_post:
  assumes "ndp_inv e" "tables_live now e"
  shows "ndp_inv (fst (tick_solicit e now))" "tables_live now (fst (tick_solicit e now))"
    "later (e_solicit_at (fst (tick_solicit e now))) now"
    "e_config (fst (tick_solicit e now)) = e_config e"
    "e_last_view (fst (tick_solicit e now)) = e_last_view e"
    "Changed \<notin> set (snd (tick_solicit e now))"
proof -
  have "now < now + jittered i r" if "interval_ok i" for i r
    using jittered_interval(1) [OF that, of r] by (simp add: time_simps)
  moreover have "interval_ok (e_solicit_interval e)" using assms(1) by (simp add: ndp_inv_def)
  ultimately show "later (e_solicit_at (fst (tick_solicit e now))) now"
    by (auto simp: tick_solicit_def Let_def split_def ndp_jitter_def split: option.splits)
  show "ndp_inv (fst (tick_solicit e now))" "tables_live now (fst (tick_solicit e now))"
    using assms
    by (auto simp: tick_solicit_def Let_def split_def ndp_jitter_def ndp_inv_def tables_live_def
        xorshift64_nonzero split: option.splits)
  show "e_config (fst (tick_solicit e now)) = e_config e"
    "e_last_view (fst (tick_solicit e now)) = e_last_view e" "Changed \<notin> set (snd (tick_solicit e now))"
    by (auto simp: tick_solicit_def Let_def split_def ndp_jitter_def split: option.splits)
qed

lemma deadline_later:
  assumes "tables_live now e" "later (e_solicit_at e) now"
  shows "later (ndp_next_deadline e) now"
proof -
  have "later (pending e d) now" for d
    using assms(1) by (cases d) (auto simp: tables_live_def pending_def)
  with assms show ?thesis
    by (auto simp: later_ndp_next_deadline tables_live_def later_prefix_deadline prefix_live_def alive_later)
qed

lemma ndp_tick_post:
  assumes "ndp_tick e now = Some (e', as)" "ndp_inv e"
  shows "ndp_inv e'" "tables_live now e'" "later (ndp_next_deadline e') now"
    "e_last_view e' = ndp_view_at e' now" "Changed \<in> set as \<longleftrightarrow> e_last_view e' \<noteq> e_last_view e"
    "e_config e' = e_config e"
proof -
  obtain e1 where e1: "expire e now = Some e1"
    using assms(1) by (auto simp: ndp_tick_def split: option.splits)
  note x = expire_post [OF e1 assms(2)]
  note s = tick_solicit_post [OF x(1,2)]
  let ?e = "fst (tick_solicit e1 now)" and ?as = "snd (tick_solicit e1 now)"
  have r: "(e', as) = emit_if_changed ?e now ?as"
    using assms(1) e1 by (simp add: ndp_tick_def Let_def split_def)
  then have e': "e' = fst (emit_if_changed ?e now ?as)" and as: "as = snd (emit_if_changed ?e now ?as)"
    by (metis fst_conv, metis snd_conv)
  show "ndp_inv e'" "tables_live now e'" using s(1,2) by (simp_all add: e')
  show "later (ndp_next_deadline e') now" using deadline_later [OF s(2,3)] by (simp add: e')
  show "e_last_view e' = ndp_view_at e' now" by (simp add: e' emit_last_view)
  then show "Changed \<in> set as \<longleftrightarrow> e_last_view e' \<noteq> e_last_view e"
    using emit_changed [OF s(6)] s(5) x(4) by (simp add: as e' emit_last_view)
  show "e_config e' = e_config e"
    using s(4) x(3) by (simp add: e' emit_if_changed_def Let_def)
qed

text \<open>The entry an advertisement makes for a prefix it is the first to announce.\<close>

definition fresh_prefix :: "(bytes \<Rightarrow> bytes) \<Rightarrow> ndp_config \<Rightarrow> instant \<Rightarrow> prefix_info \<Rightarrow> prefix" where
  "fresh_prefix sha1 config now info =
     \<lparr>p_on_link = pi_on_link info, p_valid_until = until now (pi_valid info),
      p_preferred_until = until now (pi_preferred info),
      p_stable = stable_address sha1 config (pi_prefix info), p_temps = []\<rparr>"

definition refreshed :: "instant \<Rightarrow> prefix_info \<Rightarrow> prefix \<Rightarrow> prefix" where
  "refreshed now info p =
     p\<lparr>p_on_link := pi_on_link info, p_preferred_until := until now (pi_preferred info),
       p_valid_until := new_valid now (p_valid_until p) (pi_valid info)\<rparr>"

lemma receive_prefix_cases:
  assumes "receive_prefix sha1 e now info = Some e'"
  defines "key \<equiv> (pi_prefix info, pi_length info)" and "p \<equiv> fresh_prefix sha1 (e_config e) now info"
  obtains (same) "e' = e"
  | (known) q where "bt_get (e_prefixes e) key = Some q"
      "e' = e\<lparr>e_prefixes := bt_map (\<lambda>k p. if k = key then refreshed now info p else p) (e_prefixes e)\<rparr>"
  | (new) "bt_get (e_prefixes e) key = None" "pi_length info = 64"
      "e' = e\<lparr>e_prefixes := bt_insert key p (e_prefixes e)\<rparr>"
  | (temp) e1 t where "bt_get (e_prefixes e) key = None" "pi_length info = 64"
      "new_temp e now (fst key) p = Some (e1, t)"
      "e' = e1\<lparr>e_prefixes := bt_insert key (p\<lparr>p_temps := p_temps p @ [t]\<rparr>) (e_prefixes e1)\<rparr>"
proof (cases "\<not> pi_autonomous info \<or> pi_length info \<noteq> 64 \<or> pi_valid info < pi_preferred info")
  case True
  then have "e' = e" using assms(1) by (simp add: receive_prefix_def)
  then show thesis by (rule same)
next
  case False
  show thesis
  proof (cases "bt_get (e_prefixes e) key")
    case (Some q)
    have "e' = e\<lparr>e_prefixes := bt_map (\<lambda>k p. if k = key then refreshed now info p else p) (e_prefixes e)\<rparr>"
      using assms(1) False Some unfolding receive_prefix_def Let_def refreshed_def key_def by simp
    with Some show thesis by (rule known)
  next
    case None
    show thesis
    proof (cases "0 < pi_valid info \<and> nc_temporary (e_config e) \<and> 0 < pi_preferred info")
      case True
      with assms(1) False None show thesis
        unfolding receive_prefix_def Let_def key_def p_def fresh_prefix_def
        by (auto split: option.splits intro: temp [unfolded key_def p_def fresh_prefix_def])
    next
      case c: False
      with assms(1) False None show thesis
        unfolding receive_prefix_def Let_def key_def p_def fresh_prefix_def
        by (auto split: if_splits intro: same new [unfolded key_def p_def fresh_prefix_def])
    qed
  qed
qed

lemma fresh_prefix_wf:
  "digest_ok sha1 \<Longrightarrow> pi_length info = 64 \<Longrightarrow>
   temps_wf (pi_prefix info, pi_length info) (fresh_prefix sha1 config now info)"
  by (simp add: temps_wf_def fresh_prefix_def stable_address_ok)

lemma refreshed_fields [simp]:
  "p_stable (refreshed now info p) = p_stable p" "p_temps (refreshed now info p) = p_temps p"
  by (simp_all add: refreshed_def)

lemma receive_prefix_inv:
  assumes "receive_prefix sha1 e now info = Some e'" "ndp_inv e" "digest_ok sha1"
  shows "ndp_inv e' \<and> e_config e' = e_config e \<and> e_last_view e' = e_last_view e"
proof (cases rule: receive_prefix_cases [OF assms(1)])
  case 1
  then show ?thesis using assms(2) by simp
next
  case (2 q)
  have "temps_wf (fst kp) (snd kp) \<and> length (p_temps (snd kp)) \<le> MAX_TEMPS" if "kp \<in> set (e_prefixes e')" for kp
  proof -
    obtain p where "(fst kp, p) \<in> set (e_prefixes e)" "p_stable (snd kp) = p_stable p" "p_temps (snd kp) = p_temps p"
      using \<open>kp \<in> set (e_prefixes e')\<close> by (auto simp: 2(2) in_bt_map)
    with assms(2) show ?thesis by (force simp: ndp_inv_def temps_wf_def)
  qed
  then show ?thesis using assms(2) by (simp add: 2(2) ndp_inv_def)
next
  case 3
  have "length (p_temps (fresh_prefix sha1 (e_config e) now info)) \<le> MAX_TEMPS"
    by (simp add: fresh_prefix_def)
  then show ?thesis
    using assms(2) fresh_prefix_wf [OF assms(3) 3(2)] by (auto simp: 3(3) ndp_inv_def set_bt_insert)
next
  case (4 e1 t)
  let ?key = "(pi_prefix info, pi_length info)" and ?p = "fresh_prefix sha1 (e_config e) now info"
  obtain rng where e1: "e1 = e\<lparr>e_rng := rng\<rparr>" "e_rng e \<noteq> 0 \<longrightarrow> rng \<noteq> 0"
    using new_temp_cases [OF 4(3)] by blast
  have "temps_wf ?key (?p\<lparr>p_temps := p_temps ?p @ [t]\<rparr>)"
    using temps_wf_new [OF 4(3)] fresh_prefix_wf [OF assms(3) 4(2)] by simp
  moreover have "length (p_temps ?p @ [t]) \<le> MAX_TEMPS" by (simp add: fresh_prefix_def)
  ultimately show ?thesis
    using assms(2) e1(2) by (auto simp: 4(4) e1(1) ndp_inv_def set_bt_insert)
qed

lemma receive_prefixes_inv:
  "receive_prefixes sha1 now ps e = Some e' \<Longrightarrow> ndp_inv e \<Longrightarrow> digest_ok sha1 \<Longrightarrow>
   ndp_inv e' \<and> e_config e' = e_config e \<and> e_last_view e' = e_last_view e"
proof (induction ps arbitrary: e)
  case (Cons p ps)
  from Cons.prems(1) obtain e1 where e1: "receive_prefix sha1 e now p = Some e1"
    and rec: "receive_prefixes sha1 now ps e1 = Some e'"
    by (auto simp: bind_eq_Some_conv)
  from receive_prefix_inv [OF e1 Cons.prems(2,3)] Cons.IH [OF rec _ Cons.prems(3)]
  show ?case by simp
qed simp

lemma receive_lifetime_ok: "bt_ok m \<Longrightarrow> bt_ok (receive_lifetime now l ks m)"
  unfolding receive_lifetime_def by (induction ks arbitrary: m) simp_all

lemma foldl_receive_lifetime_ok:
  "bt_ok m \<Longrightarrow> bt_ok (foldl (\<lambda>m r. receive_lifetime now (f r) (g r) m) m rs)"
  by (induction rs arbitrary: m) (simp_all add: receive_lifetime_ok)

lemma receive_router_inv:
  "ndp_inv e \<Longrightarrow> ndp_inv (receive_router e now source ra)"
  by (simp add: ndp_inv_def receive_router_def Let_def split: option.split)

lemma receive_router_fields [simp]:
  "e_config (receive_router e now source ra) = e_config e"
  "e_last_view (receive_router e now source ra) = e_last_view e"
  "e_prefixes (receive_router e now source ra) = e_prefixes e"
  by (simp_all add: receive_router_def Let_def split: option.split)

lemma receive_dns_inv: "ndp_inv e \<Longrightarrow> ndp_inv (receive_dns e now ra)"
  by (simp add: ndp_inv_def receive_dns_def foldl_receive_lifetime_ok)

lemma receive_dns_fields [simp]:
  "e_config (receive_dns e now ra) = e_config e" "e_last_view (receive_dns e now ra) = e_last_view e"
  "e_prefixes (receive_dns e now ra) = e_prefixes e"
  by (simp_all add: receive_dns_def)

text \<open>An advertisement that decodes leaves the engine as a tick does, but for the solicitation.\<close>

lemma ndp_receive_post:
  assumes "ndp_receive sha1 e now source body = Some (e', as)" "router_advert_decode body \<noteq> None"
    "ndp_inv e" "digest_ok sha1"
  shows "ndp_inv e'" "tables_live now e'" "e_last_view e' = ndp_view_at e' now"
    "Changed \<in> set as \<longleftrightarrow> e_last_view e' \<noteq> e_last_view e" "e_config e' = e_config e"
proof -
  obtain ra where ra: "router_advert_decode body = Some ra" using assms(2) by blast
  then obtain e1 e2 where e1: "receive_prefixes sha1 now (ra_prefixes ra) (receive_router e now source ra) = Some e1"
    and e2: "expire (receive_dns e1 now ra) now = Some e2"
    and r: "emit_if_changed e2 now [] = (e', as)"
    using assms(1) by (auto simp: ndp_receive_def split: option.splits)
  note i1 = receive_prefixes_inv [OF e1 receive_router_inv [OF assms(3)] assms(4)]
  note x = expire_post [OF e2 receive_dns_inv [OF conjunct1 [OF i1]]]
  have e': "e' = fst (emit_if_changed e2 now [])" and as: "as = snd (emit_if_changed e2 now [])"
    using r by simp_all
  show "ndp_inv e'" "tables_live now e'" using x(1,2) by (simp_all add: e')
  show "e_last_view e' = ndp_view_at e' now" by (simp add: e' emit_last_view)
  then show "Changed \<in> set as \<longleftrightarrow> e_last_view e' \<noteq> e_last_view e"
    using emit_changed [of "[]" e2 now] x(4) i1 by (simp add: as e' emit_last_view)
  show "e_config e' = e_config e"
    using x(3) i1 by (simp add: e' emit_if_changed_def Let_def)
qed

lemma ndp_start_inv: "ndp_inv e \<Longrightarrow> ndp_inv (e\<lparr>e_solicits := 0, e_solicit_interval := SOLICIT_INTERVAL, e_solicit_at := Some now\<rparr>)"
  by (simp add: ndp_inv_def)

section \<open>Runs\<close>

datatype ndp_event = NdpStart | NdpTick | NdpReceive ipv6 bytes

fun ndp_step :: "(bytes \<Rightarrow> bytes) \<Rightarrow> ndp \<Rightarrow> instant \<Rightarrow> ndp_event \<Rightarrow> (ndp \<times> ndp_action list) option" where
  "ndp_step sha1 e now NdpStart = ndp_start e now"
| "ndp_step sha1 e now NdpTick = ndp_tick e now"
| "ndp_step sha1 e now (NdpReceive source body) = ndp_receive sha1 e now source body"

text \<open>A call the engine acts on: anything but an advertisement that does not decode.\<close>

fun ndp_acts :: "ndp_event \<Rightarrow> bool" where
  "ndp_acts (NdpReceive source body) = (router_advert_decode body \<noteq> None)"
| "ndp_acts _ = True"

inductive ndp_reachable :: "(bytes \<Rightarrow> bytes) \<Rightarrow> ndp_config \<Rightarrow> ndp \<Rightarrow> bool" for sha1 config where
  fresh: "ndp_reachable sha1 config (ndp_new config)"
| step: "ndp_reachable sha1 config e \<Longrightarrow> ndp_step sha1 e now ev = Some (e', as) \<Longrightarrow>
         ndp_reachable sha1 config e'"

lemma ndp_new_inv: "ndp_inv (ndp_new config)"
  by (simp add: ndp_inv_def ndp_new_def or_1_nonzero)

lemma ndp_step_post:
  assumes "ndp_step sha1 e now ev = Some (e', as)" "ndp_acts ev" "ndp_inv e" "digest_ok sha1"
  shows "ndp_inv e'" "tables_live now e'" "e_last_view e' = ndp_view_at e' now"
    "Changed \<in> set as \<longleftrightarrow> e_last_view e' \<noteq> e_last_view e" "e_config e' = e_config e"
proof -
  have *: "ndp_inv e' \<and> tables_live now e' \<and> e_last_view e' = ndp_view_at e' now
      \<and> (Changed \<in> set as \<longleftrightarrow> e_last_view e' \<noteq> e_last_view e) \<and> e_config e' = e_config e"
  proof (cases ev)
    case NdpStart
    then have t: "ndp_tick (e\<lparr>e_solicits := 0, e_solicit_interval := SOLICIT_INTERVAL,
        e_solicit_at := Some now\<rparr>) now = Some (e', as)"
      using assms(1) by (simp add: ndp_start_def)
    note post = ndp_tick_post [OF t ndp_start_inv [OF assms(3)]]
    from post(5,6) have "(Changed \<in> set as \<longleftrightarrow> e_last_view e' \<noteq> e_last_view e) \<and> e_config e' = e_config e"
      by simp
    with post(1,2,4) show ?thesis by blast
  next
    case NdpTick
    then have t: "ndp_tick e now = Some (e', as)" using assms(1) by simp
    note post = ndp_tick_post [OF t assms(3)]
    show ?thesis using post(1,2,4-6) by blast
  next
    case (NdpReceive source body)
    then have r: "ndp_receive sha1 e now source body = Some (e', as)" "router_advert_decode body \<noteq> None"
      using assms(1,2) by simp_all
    show ?thesis using ndp_receive_post [OF r assms(3,4)] by blast
  qed
  then show "ndp_inv e'" "tables_live now e'" "e_last_view e' = ndp_view_at e' now"
    "Changed \<in> set as \<longleftrightarrow> e_last_view e' \<noteq> e_last_view e" "e_config e' = e_config e"
    by blast+
qed

lemma ndp_step_idle: "\<not> ndp_acts ev \<Longrightarrow> ndp_step sha1 e now ev = Some (e, [])"
  by (cases ev) (simp_all add: ndp_receive_def)

lemma ndp_reachable_inv:
  assumes "digest_ok sha1"
  shows "ndp_reachable sha1 config e \<Longrightarrow> ndp_inv e \<and> e_config e = config"
proof (induction rule: ndp_reachable.induct)
  case fresh
  show ?case using ndp_new_inv by (simp add: ndp_new_def)
next
  case (step e now ev e' as)
  show ?case
  proof (cases "ndp_acts ev")
    case True
    with step ndp_step_post(1,5) [OF step.hyps(2) True _ assms] show ?thesis by simp
  next
    case False
    with step ndp_step_idle [of ev sha1 e now] show ?thesis by simp
  qed
qed

abbreviation ndp_ticked :: "ndp \<Rightarrow> instant \<Rightarrow> ndp \<Rightarrow> bool" where
  "ndp_ticked e now e' \<equiv> \<exists>as. ndp_tick e now = Some (e', as)"

interpretation ndp_timed: timed_machine ndp_ticked ndp_next_deadline ndp_inv 1
  by unfold_locales (auto dest: ndp_tick_post)

section \<open>The two-hour rule\<close>

definition not_before :: "instant option \<Rightarrow> instant \<Rightarrow> bool" where
  "not_before v u = (case v of None \<Rightarrow> True | Some t \<Rightarrow> u \<le> t)"

lemma not_before_simps [simp]: "not_before None u" "not_before (Some t) u \<longleftrightarrow> u \<le> t"
  by (simp_all add: not_before_def)

lemma not_before_alive: "not_before v u \<Longrightarrow> now < u \<Longrightarrow> alive now v"
  by (cases v) auto

text \<open>An instant within two hours up to which a prefix is valid stays one.\<close>

lemma new_valid_floor:
  assumes "u \<le> now + TWO_HOURS" "not_before v u"
  shows "not_before (new_valid now v x) u"
  using assms
  by (cases v) (auto simp: new_valid_def until_def Let_def saturating_duration_since_def)

text \<open>A prefix with its stable address, valid at least until an instant.\<close>

definition holds_prefix :: "ipv6 \<times> u8 \<Rightarrow> ipv6 \<Rightarrow> instant \<Rightarrow> ndp \<Rightarrow> bool" where
  "holds_prefix key s u e =
     (\<exists>p. bt_get (e_prefixes e) key = Some p \<and> p_stable p = s \<and> not_before (p_valid_until p) u)"

lemma holds_prefix_map:
  assumes "\<And>k p. p_stable (f k p) = p_stable p"
    and "\<And>k p. not_before (p_valid_until p) u \<Longrightarrow> not_before (p_valid_until (f k p)) u"
    and "holds_prefix key s u e" "e_prefixes e' = bt_map f (e_prefixes e)"
  shows "holds_prefix key s u e'"
  using assms by (cases key) (auto simp: holds_prefix_def bt_get_map)

lemma receive_prefix_holds:
  assumes "receive_prefix sha1 e now info = Some e'" "bt_ok (e_prefixes e)" "u \<le> now + TWO_HOURS"
    "holds_prefix key s u e"
  shows "holds_prefix key s u e' \<and> bt_ok (e_prefixes e')"
proof (cases rule: receive_prefix_cases [OF assms(1)])
  case 1
  then show ?thesis using assms(2,4) by simp
next
  case (2 q)
  have "not_before (p_valid_until p) u \<Longrightarrow> not_before (p_valid_until (refreshed now info p)) u" for p
    using new_valid_floor [OF assms(3)] by (simp add: refreshed_def)
  then have "holds_prefix key s u e'"
    by (intro holds_prefix_map [OF _ _ assms(4)]) (auto simp: 2(2))
  then show ?thesis using assms(2) by (simp add: 2(2))
next
  case 3
  then show ?thesis using assms(2,4) by (auto simp: holds_prefix_def bt_get_insert)
next
  case (4 e1 t)
  obtain rng where "e1 = e\<lparr>e_rng := rng\<rparr>" using new_temp_cases [OF 4(3)] by blast
  then show ?thesis using 4 assms(2,4) by (auto simp: holds_prefix_def bt_get_insert)
qed

lemma receive_prefixes_holds:
  "receive_prefixes sha1 now ps e = Some e' \<Longrightarrow> bt_ok (e_prefixes e) \<Longrightarrow> u \<le> now + TWO_HOURS \<Longrightarrow>
   holds_prefix key s u e \<Longrightarrow> holds_prefix key s u e' \<and> bt_ok (e_prefixes e')"
proof (induction ps arbitrary: e)
  case (Cons p ps)
  from Cons.prems(1) obtain e1 where e1: "receive_prefix sha1 e now p = Some e1"
    and rec: "receive_prefixes sha1 now ps e1 = Some e'"
    by (auto simp: bind_eq_Some_conv)
  from receive_prefix_holds [OF e1 Cons.prems(2-4)] Cons.IH [OF rec _ Cons.prems(3)] show ?case by blast
qed simp

lemma regenerate_holds:
  "regenerate_temps keys now e = Some e' \<Longrightarrow> holds_prefix key s u e \<Longrightarrow> holds_prefix key s u e'"
proof (induction keys arbitrary: e)
  case (Cons k keys)
  then obtain p e1 t where t: "new_temp e now (fst k) p = Some (e1, t)"
    and rec: "regenerate_temps keys now (e1\<lparr>e_prefixes := bt_map (\<lambda>k' p. if k' = k
        then p\<lparr>p_temps := p_temps p @ [t]\<rparr> else p) (e_prefixes e1)\<rparr>) = Some e'"
    by (auto split: option.splits)
  obtain rng where "e1 = e\<lparr>e_rng := rng\<rparr>" using new_temp_cases [OF t] by blast
  then show ?case
    by (intro Cons.IH [OF rec] holds_prefix_map [OF _ _ Cons.prems(2)]) auto
qed simp

lemma expire_holds:
  assumes "expire e now = Some e'" "bt_ok (e_prefixes e)" "now < u" "holds_prefix key s u e"
  shows "holds_prefix key s u e'"
proof -
  have "holds_prefix key s u (expire_tables e now)"
    using assms(2-4) by (auto simp: holds_prefix_def bt_get_map bt_get_retain not_before_alive)
  note h = this
  obtain e1 keys where r: "regenerate_temps keys now (expire_tables e now) = Some e1"
    and e': "e' = e1\<lparr>e_prefixes := bt_map (\<lambda>_. cut_temps) (e_prefixes e1)\<rparr>"
    using assms(1) by (auto simp: expire_def Let_def split: option.splits)
  have "p_stable (cut_temps p) = p_stable p" "p_valid_until (cut_temps p) = p_valid_until p" for p
    by (simp_all add: cut_temps_def)
  then show ?thesis
    by (intro holds_prefix_map [OF _ _ regenerate_holds [OF r h]]) (auto simp: e')
qed

lemma receive_holds:
  assumes "ndp_receive sha1 e now source body = Some (e', as)" "bt_ok (e_prefixes e)"
    "now < u" "u \<le> now + TWO_HOURS" "holds_prefix key s u e"
  shows "holds_prefix key s u e'"
proof (cases "router_advert_decode body")
  case None
  then show ?thesis using assms(1,5) by (simp add: ndp_receive_def)
next
  case (Some ra)
  then obtain e1 e2 where e1: "receive_prefixes sha1 now (ra_prefixes ra) (receive_router e now source ra) = Some e1"
    and e2: "expire (receive_dns e1 now ra) now = Some e2"
    and r: "emit_if_changed e2 now [] = (e', as)"
    using assms(1) by (auto simp: ndp_receive_def split: option.splits)
  have "holds_prefix key s u e1 \<and> bt_ok (e_prefixes e1)"
    using receive_prefixes_holds [OF e1 _ assms(4)] assms(2,5) by (simp add: holds_prefix_def)
  then have "holds_prefix key s u e2"
    using expire_holds [OF e2 _ assms(3)] by (simp add: holds_prefix_def)
  moreover have "e_prefixes e' = e_prefixes e2"
    using r by (auto simp: emit_if_changed_def Let_def split: if_splits)
  ultimately show ?thesis by (simp add: holds_prefix_def)
qed

lemma holds_prefix_view:
  assumes "holds_prefix key s u e" "bt_ok (e_prefixes e)" "now < u"
  shows "s \<in> da_address ` set (ndp_addresses e now)"
proof -
  obtain p where p: "bt_get (e_prefixes e) key = Some p" "p_stable p = s" "not_before (p_valid_until p) u"
    using assms(1) by (auto simp: holds_prefix_def)
  have "(key, p) \<in> set (e_prefixes e)" using bt_get_in [OF assms(2)] p(1) by simp
  moreover have "s \<in> da_address ` set (prefix_addresses now (key, p))"
    using p(2) not_before_alive [OF p(3) assms(3)]
    by (cases key) (auto simp: prefix_addresses_def Let_def)
  ultimately show ?thesis
    by (fastforce simp: ndp_addresses_def ndp_view_at_def)
qed

section \<open>Returning\<close>

text \<open>The generator after a number of draws that were refused.\<close>

definition after_draws :: "nat \<Rightarrow> u64 \<Rightarrow> u64" where
  "after_draws n rng = ((\<lambda>r. snd (draw_iid r)) ^^ n) rng"

lemma temp_iid_returns:
  "iid_free prefix p (fst (draw_iid (after_draws n rng))) \<Longrightarrow> temp_iid prefix p rng \<noteq> None"
proof (induction n arbitrary: rng)
  case 0
  then show ?case by (subst temp_iid.simps) (simp add: after_draws_def Let_def split_def)
next
  case (Suc n)
  then have "temp_iid prefix p (snd (draw_iid rng)) \<noteq> None"
    by (simp add: after_draws_def funpow_Suc_right del: funpow.simps)
  then show ?case by (subst temp_iid.simps) (simp add: Let_def split_def)
qed

lemma expire_returns: "\<not> nc_temporary (e_config e) \<Longrightarrow> expire e now \<noteq> None"
  by (simp add: expire_def Let_def needs_temp_def)

lemma receive_prefix_returns:
  "\<not> nc_temporary (e_config e) \<Longrightarrow>
   \<exists>e'. receive_prefix sha1 e now info = Some e' \<and> e_config e' = e_config e"
  by (auto simp: receive_prefix_def Let_def split: option.split)

lemma receive_prefixes_returns:
  "\<not> nc_temporary (e_config e) \<Longrightarrow>
   \<exists>e'. receive_prefixes sha1 now ps e = Some e' \<and> e_config e' = e_config e"
proof (induction ps arbitrary: e)
  case (Cons p ps)
  obtain e1 where e1: "receive_prefix sha1 e now p = Some e1" "e_config e1 = e_config e"
    using receive_prefix_returns [OF Cons.prems] by blast
  moreover obtain e' where "receive_prefixes sha1 now ps e1 = Some e'" "e_config e' = e_config e1"
    using Cons.IH [of e1] Cons.prems e1(2) by auto
  ultimately show ?case by simp
qed simp

lemma tick_returns: "\<not> nc_temporary (e_config e) \<Longrightarrow> ndp_tick e now \<noteq> None"
  using expire_returns by (auto simp: ndp_tick_def Let_def split_def split: option.splits)

lemma step_returns:
  assumes "\<not> nc_temporary (e_config e)"
  shows "ndp_step sha1 e now ev \<noteq> None"
proof (cases ev)
  case (NdpReceive source body)
  show ?thesis
  proof (cases "router_advert_decode body")
    case (Some ra)
    obtain e1 where "receive_prefixes sha1 now (ra_prefixes ra) (receive_router e now source ra) = Some e1"
      "e_config e1 = e_config e"
      using receive_prefixes_returns [of "receive_router e now source ra" sha1 now "ra_prefixes ra"] assms
      by auto
    moreover from this have "expire (receive_dns e1 now ra) now \<noteq> None"
      using assms by (intro expire_returns) simp
    ultimately show ?thesis by (auto simp: NdpReceive ndp_receive_def Some)
  qed (simp add: NdpReceive ndp_receive_def)
qed (use assms in \<open>simp_all add: ndp_start_def tick_returns\<close>)

section \<open>A concrete engine\<close>

definition ex_sha1 :: "bytes \<Rightarrow> bytes" where
  "ex_sha1 x = replicate 20 7"

definition ex_ndp_config :: ndp_config where
  "ex_ndp_config = \<lparr>nc_interface = ''eth0'', nc_secret = replicate 32 1, nc_temporary = False,
                    nc_mac = Some [2, 0, 0, 0, 0, 1], nc_seed = 42\<rparr>"

text \<open>A router for half an hour that announces 2001:db8::/64 for one day.\<close>

definition ex_advert :: bytes where
  "ex_advert =
     [134, 0, 0, 0, 64, 0, 7, 8, 0, 0, 0, 0, 0, 0, 0, 0]
     @ [3, 4, 64, 0xC0, 0, 1, 0x51, 0x80, 0, 0, 0x38, 0x40, 0, 0, 0, 0]
     @ [0x20, 0x01, 0x0d, 0xb8, 0, 0, 0, 0, 0, 0, 0, 0, 0, 0, 0, 0]"

definition ex_prefix_info :: prefix_info where
  "ex_prefix_info = \<lparr>pi_prefix = 0x20010DB8000000000000000000000000, pi_length = 64, pi_on_link = True,
                     pi_autonomous = True, pi_valid = 86400, pi_preferred = 14400\<rparr>"

definition ex_router :: ipv6 where "ex_router = 0xFE800000000000000000000000000001"

lemma ex_advert_decodes:
  "router_advert_decode ex_advert =
     Some \<lparr>ra_managed = False, ra_other_config = False, ra_router_lifetime = 1800, ra_mtu = None,
           ra_prefixes = [ex_prefix_info], ra_rdnss = [], ra_dnssl = []\<rparr>"
proof -
  let ?opt = "[3, 4, 64, 0xC0, 0, 1, 0x51, 0x80, 0, 0, 0x38, 0x40, 0, 0, 0, 0,
      0x20, 0x01, 0x0d, 0xb8, 0, 0, 0, 0, 0, 0, 0, 0, 0, 0, 0, 0] :: bytes"
  have "prefix_info_of ?opt = Some ex_prefix_info"
    by (simp add: prefix_info_of_def ex_prefix_info_def slice_def ipv6_of_def u32_of_def be_nat_def Let_def
        v6_is_multicast_def segment0_def drop_bit_eq_div)
  moreover have "framed ?opt" by (simp add: framed_def)
  then have "ra_options ?opt ra = Some (ra_option ra 3 ?opt)" for ra
    using ra_options_all [of "[?opt]" ra] by simp
  ultimately show ?thesis
    by (simp add: router_advert_decode_def ex_advert_def ra_option_def slice_def u16_of_def be_nat_def)
qed

lemma tick_solicit_rate:
  assumes "ndp_inv e" "Solicit body \<in> set (snd (tick_solicit e now))"
  shows "\<exists>t. e_solicit_at (fst (tick_solicit e now)) = Some t \<and> now + secs 3 \<le> t \<and> t \<le> now + secs 3961"
proof -
  have "interval_ok (e_solicit_interval e)" using assms(1) by (simp add: ndp_inv_def)
  with assms(2) show ?thesis
    by (auto simp: tick_solicit_def Let_def split_def ndp_jitter_def jittered_interval
        split: option.splits if_splits)
qed

lemma tick_solicits:
  assumes "ndp_tick e now = Some (e', as)" "ndp_inv e" "Solicit body \<in> set as"
  shows "\<exists>t. e_solicit_at e' = Some t \<and> now + secs 3 \<le> t \<and> t \<le> now + secs 3961"
proof -
  obtain e1 where e1: "expire e now = Some e1"
    using assms(1) by (auto simp: ndp_tick_def split: option.splits)
  let ?e = "fst (tick_solicit e1 now)" and ?as = "snd (tick_solicit e1 now)"
  have r: "emit_if_changed ?e now ?as = (e', as)"
    using assms(1) e1 by (simp add: ndp_tick_def Let_def split_def)
  then have "Solicit body \<in> set ?as" "e_solicit_at e' = e_solicit_at ?e"
    using assms(3) by (auto simp: emit_if_changed_def Let_def split: if_splits)
  with tick_solicit_rate [OF expire_post(1) [OF e1 assms(2)]] show ?thesis by metis
qed

lemma step_solicits:
  assumes "ndp_step sha1 e now ev = Some (e', as)" "ndp_inv e" "Solicit body \<in> set as"
  shows "\<exists>t. e_solicit_at e' = Some t \<and> now + secs 3 \<le> t \<and> t \<le> now + secs 3961"
proof (cases ev)
  case NdpStart
  then show ?thesis
    using assms(1,3) tick_solicits [OF _ ndp_start_inv [OF assms(2)]] by (simp add: ndp_start_def)
next
  case NdpTick
  then show ?thesis using assms tick_solicits by simp
next
  case (NdpReceive source b)
  then show ?thesis
    using assms(1,3)
    by (auto simp: ndp_receive_def emit_if_changed_def Let_def split: option.splits if_splits)
qed

definition ex_engine :: ndp where
  "ex_engine = fst (the (ndp_receive ex_sha1 (ndp_new ex_ndp_config) 0 ex_router ex_advert))"

lemma ex_digest_ok: "digest_ok ex_sha1"
  by (simp add: digest_ok_def ex_sha1_def)

lemma ex_engine_step:
  "\<exists>as. ndp_step ex_sha1 (ndp_new ex_ndp_config) 0 (NdpReceive ex_router ex_advert) = Some (ex_engine, as)"
proof -
  have "\<not> nc_temporary (e_config (ndp_new ex_ndp_config))" by (simp add: ndp_new_def ex_ndp_config_def)
  then have "ndp_step ex_sha1 (ndp_new ex_ndp_config) 0 (NdpReceive ex_router ex_advert) \<noteq> None"
    by (rule step_returns)
  then show ?thesis by (auto simp: ex_engine_def)
qed

lemma ex_engine_reachable: "ndp_reachable ex_sha1 ex_ndp_config ex_engine"
  using ex_engine_step ndp_reachable.step [OF ndp_reachable.fresh] by blast

lemma ex_engine_fields:
  "e_prefixes ex_engine = [((pi_prefix ex_prefix_info, 64), fresh_prefix ex_sha1 ex_ndp_config 0 ex_prefix_info)]"
  "e_routers ex_engine = [(ex_router, secs 1800)]" "e_config ex_engine = ex_ndp_config"
  "e_solicit_at ex_engine = None" "e_expired_at ex_engine = Some 0" "e_rdnss ex_engine = []"
  "e_dnssl ex_engine = []"
  by (simp_all add: ex_engine_def ndp_receive_def ex_advert_decodes receive_prefix_def ex_prefix_info_def
      ndp_new_def receive_router_def receive_dns_def Let_def expire_def expire_tables_def needs_temp_def
      ex_ndp_config_def emit_if_changed_def fresh_prefix_def bt_retain_def bt_map_def until_def time_simps
      cut_temps_def)

section \<open>The properties of the engine\<close>

text \<open>
  C7: No transition is missed and no change is reported twice.  After any call that
  acts, from any reachable engine, \<^verbatim>\<open>Changed\<close> has been returned exactly when what the
  caller can observe differs from what it last saw; and until the deadline the
  engine then reports, the observable view stays as it is.
\<close>

theorem ndp_no_missed_change:
  assumes "ndp_reachable sha1 config e" "digest_ok sha1"
    "ndp_step sha1 e now ev = Some (e', as)" "ndp_acts ev"
  shows "(Changed \<in> set as \<longleftrightarrow> e_last_view e' \<noteq> e_last_view e)
    \<and> (\<forall>t. now \<le> t \<and> later (ndp_next_deadline e') t \<longrightarrow> ndp_view_at e' t = e_last_view e')"
proof -
  have inv: "ndp_inv e" using ndp_reachable_inv [OF assms(2,1)] by blast
  note post = ndp_step_post [OF assms(3,4) inv assms(2)]
  show ?thesis using post(3,4) view_stable [OF post(2)] by metis
qed

theorem ndp_no_missed_change_witness:
  "later (ndp_next_deadline ex_engine) 5 \<and> ndp_view_at ex_engine 5 = e_last_view ex_engine"
proof -
  have "later (ndp_next_deadline ex_engine) 5"
    by (simp add: later_ndp_next_deadline ex_engine_fields later_prefix_deadline fresh_prefix_def
        until_def ex_prefix_info_def pending_def time_simps)
  moreover obtain as where s: "ndp_step ex_sha1 (ndp_new ex_ndp_config) 0 (NdpReceive ex_router ex_advert) = Some (ex_engine, as)"
    using ex_engine_step by blast
  moreover note ndp_no_missed_change [OF ndp_reachable.fresh ex_digest_ok s]
  ultimately
  show ?thesis by (auto simp: ex_advert_decodes)
qed

text \<open>
  The poll loop cannot spin on the engine: after a tick, the next deadline lies
  strictly in the future, although lifetimes that have passed stay in its tables.
\<close>

theorem ndp_no_spin:
  assumes "ndp_reachable sha1 config e" "digest_ok sha1" "ndp_tick e now = Some (e', as)"
  shows "later (ndp_next_deadline e') now"
proof (rule ndp_timed.no_spin)
  show "ndp_inv e" using ndp_reachable_inv [OF assms(2,1)] by blast
  show "ticks ndp_ticked 1 e now e'" using assms(3) by auto
qed simp

theorem ndp_no_spin_witness:
  "\<exists>e' as. ndp_tick ex_engine (secs 20000) = Some (e', as) \<and> later (ndp_next_deadline e') (secs 20000)"
proof -
  obtain e' as where "ndp_tick ex_engine (secs 20000) = Some (e', as)"
    using tick_returns [of ex_engine "secs 20000"] by (auto simp: ex_engine_fields ex_ndp_config_def)
  with ndp_no_spin [OF ex_engine_reachable ex_digest_ok this] show ?thesis by blast
qed

text \<open>
  C8: The two-hour rule of RFC 4862, 5.5.3(e).  Whatever advertisement arrives, an
  instant within the next two hours up to which a known prefix was valid remains
  one: the prefix keeps its stable address and is still valid until then, so one
  spoofed packet cannot take an address away.
\<close>

theorem ndp_two_hour_rule:
  assumes "ndp_reachable sha1 config e" "digest_ok sha1"
    and "bt_get (e_prefixes e) key = Some p" "not_before (p_valid_until p) u" "now < u" "u \<le> now + TWO_HOURS"
    and "ndp_receive sha1 e now source body = Some (e', as)"
  shows "(\<exists>p'. bt_get (e_prefixes e') key = Some p' \<and> p_stable p' = p_stable p \<and> not_before (p_valid_until p') u)
    \<and> p_stable p \<in> da_address ` set (ndp_addresses e' now)"
proof -
  have "ndp_reachable sha1 config e'"
    using assms(1,7) ndp_reachable.step [of sha1 config e now "NdpReceive source body"] by simp
  then have ok: "bt_ok (e_prefixes e)" "bt_ok (e_prefixes e')"
    using ndp_reachable_inv [OF assms(2)] assms(1) by (auto simp: ndp_inv_def)
  have "holds_prefix key (p_stable p) u e'"
    using assms(3,4) by (intro receive_holds [OF assms(7) ok(1) assms(5,6)]) (auto simp: holds_prefix_def)
  with holds_prefix_view [OF this ok(2) assms(5)] show ?thesis by (simp add: holds_prefix_def)
qed

theorem ndp_two_hour_rule_witness:
  "\<exists>e' as. ndp_receive ex_sha1 ex_engine 5 ex_router [] = Some (e', as)
     \<and> stable_address ex_sha1 ex_ndp_config (pi_prefix ex_prefix_info) \<in> da_address ` set (ndp_addresses e' 5)"
proof -
  let ?p = "fresh_prefix ex_sha1 ex_ndp_config 0 ex_prefix_info"
  have "\<not> nc_temporary (e_config ex_engine)" by (simp add: ex_engine_fields ex_ndp_config_def)
  then obtain e' as where r: "ndp_receive ex_sha1 ex_engine 5 ex_router [] = Some (e', as)"
    using step_returns [of ex_engine ex_sha1 5 "NdpReceive ex_router []"] by auto
  have "bt_get (e_prefixes ex_engine) (pi_prefix ex_prefix_info, 64) = Some ?p"
    "not_before (p_valid_until ?p) (secs 7200)"
    by (simp_all add: ex_engine_fields bt_get_def fresh_prefix_def until_def ex_prefix_info_def time_simps)
  from ndp_two_hour_rule [OF ex_engine_reachable ex_digest_ok this _ _ r] r show ?thesis
    by (auto simp: time_simps fresh_prefix_def)
qed

text \<open>
  C9: In every reachable engine each prefix is a /64 with at most four temporary
  addresses; its stable and temporary addresses are pairwise different, lie in the
  prefix, and have no interface identifier that RFC 5453 reserves.
\<close>

theorem ndp_addresses_wf:
  assumes "ndp_reachable sha1 config e" "digest_ok sha1" "bt_get (e_prefixes e) key = Some p"
  shows "snd key = 64 \<and> length (p_temps p) \<le> MAX_TEMPS
    \<and> distinct (p_stable p # map t_address (p_temps p))
    \<and> (\<forall>a\<in>set (p_stable p # map t_address (p_temps p)).
         take 8 (octets6 a) = take 8 (octets6 (fst key)) \<and> \<not> reserved_iid (drop 8 (octets6 a)))"
proof -
  have inv: "ndp_inv e" using ndp_reachable_inv [OF assms(2,1)] by blast
  then have "(key, p) \<in> set (e_prefixes e)" using assms(3) bt_get_in [of "e_prefixes e"] by (simp add: ndp_inv_def)
  with inv have "temps_wf key p" "length (p_temps p) \<le> MAX_TEMPS" by (auto simp: ndp_inv_def)
  then show ?thesis by (auto simp: temps_wf_def addr_ok_def)
qed

theorem ndp_addresses_wf_witness:
  "\<not> reserved_iid (drop 8 (octets6 (stable_address ex_sha1 ex_ndp_config (pi_prefix ex_prefix_info))))"
  using ndp_addresses_wf [OF ex_engine_reachable ex_digest_ok, of "(pi_prefix ex_prefix_info, 64)"
      "fresh_prefix ex_sha1 ex_ndp_config 0 ex_prefix_info"]
  by (simp add: ex_engine_fields bt_get_def fresh_prefix_def)

text \<open>
  C11: Every call returns when temporary addresses are off.  The loop that draws a
  temporary interface identifier returns when one of its draws is neither
  reserved nor taken, however late.
\<close>

theorem ndp_returns:
  "(\<not> nc_temporary (e_config e) \<longrightarrow> ndp_step sha1 e now ev \<noteq> None)
   \<and> (iid_free prefix p (fst (draw_iid (after_draws n rng))) \<longrightarrow>
        (\<exists>iid rng'. temp_iid prefix p rng = Some (iid, rng') \<and> iid_free prefix p iid \<and> length iid = 8))"
  using step_returns temp_iid_returns [of prefix p n rng] temp_iid_free [of prefix p rng] by fastforce

theorem ndp_returns_witness: "ndp_step ex_sha1 ex_engine 7 NdpTick \<noteq> None"
  using ndp_returns [of ex_engine ex_sha1 7 NdpTick 0 undefined 0 0]
  by (simp add: ex_engine_fields ex_ndp_config_def del: ndp_step.simps)

text \<open>
  C10: The host keeps looking for a router: after every call that acts, a solicitation
  is scheduled whenever no router is known; and a tick that solicits schedules the
  next one between 3 and 3961 seconds later.
\<close>

theorem ndp_keeps_soliciting:
  assumes "ndp_reachable sha1 config e" "digest_ok sha1"
    "ndp_step sha1 e now ev = Some (e', as)" "ndp_acts ev"
  shows "(e_routers e' = [] \<longrightarrow> e_solicit_at e' \<noteq> None)
    \<and> (Solicit body \<in> set as \<longrightarrow> (\<exists>t. e_solicit_at e' = Some t \<and> now + secs 3 \<le> t \<and> t \<le> now + secs 3961))"
proof -
  have inv: "ndp_inv e" using ndp_reachable_inv [OF assms(2,1)] by blast
  have "tables_live now e'" using ndp_step_post(2) [OF assms(3,4) inv assms(2)] .
  moreover have "\<exists>t. e_solicit_at e' = Some t \<and> now + secs 3 \<le> t \<and> t \<le> now + secs 3961"
    if "Solicit body \<in> set as" using step_solicits [OF assms(3) inv that] .
  ultimately show ?thesis by (simp add: tables_live_def)
qed

theorem ndp_keeps_soliciting_witness:
  "\<exists>e' as. ndp_tick ex_engine (secs 20000) = Some (e', as) \<and> (e_routers e' = [] \<longrightarrow> e_solicit_at e' \<noteq> None)"
proof -
  obtain e' as where "ndp_tick ex_engine (secs 20000) = Some (e', as)"
    using tick_returns [of ex_engine "secs 20000"] by (auto simp: ex_engine_fields ex_ndp_config_def)
  with ndp_keeps_soliciting [OF ex_engine_reachable ex_digest_ok, of "secs 20000" NdpTick e' as] show ?thesis
    by simp
qed

text \<open>
  The stable address depends on the first half of the prefix only, whereas the table
  is keyed by all of it: two announcements that differ in the reserved bits after
  the prefix length make two entries with one address.
\<close>

lemma stable_address_upper_half:
  assumes "take 8 (octets6 q) = take 8 (octets6 r)"
  shows "stable_address sha1 config q = stable_address sha1 config r"
  using assms by (simp add: stable_address_def stable_input_def join_def cong: option.case_cong)
end
