(* ===== verification/Dhcp6_Client.thy ===== *)
theory Dhcp6_Client
  imports Ndp_Packet Timed_Machine Xorshift
begin

text \<open>
  The stateless DHCPv6 client (\<^verbatim>\<open>dhcp6/src/lib.rs\<close>): the information-request exchange of
  RFC 8415, its retransmissions and its refresh.
\<close>

section \<open>Types\<close>

abbreviation (input) INFORMATION_REQUEST :: u8 where "INFORMATION_REQUEST \<equiv> 11"
abbreviation (input) REPLY :: u8 where "REPLY \<equiv> 7"
abbreviation (input) OPTION_CLIENT_ID :: u16 where "OPTION_CLIENT_ID \<equiv> 1"
abbreviation (input) OPTION_SERVER_ID :: u16 where "OPTION_SERVER_ID \<equiv> 2"
abbreviation (input) OPTION_ORO :: u16 where "OPTION_ORO \<equiv> 6"
abbreviation (input) OPTION_ELAPSED_TIME :: u16 where "OPTION_ELAPSED_TIME \<equiv> 8"
abbreviation (input) OPTION_DNS_SERVERS :: u16 where "OPTION_DNS_SERVERS \<equiv> 23"
abbreviation (input) OPTION_DOMAIN_LIST :: u16 where "OPTION_DOMAIN_LIST \<equiv> 24"
abbreviation (input) OPTION_INFORMATION_REFRESH_TIME :: u16 where "OPTION_INFORMATION_REFRESH_TIME \<equiv> 32"

definition FIRST_RETRANSMIT :: duration where [time_simps]: "FIRST_RETRANSMIT = secs 1"
definition MAX_RETRANSMIT :: duration where [time_simps]: "MAX_RETRANSMIT = secs 3600"
definition REFRESH_DEFAULT :: duration where [time_simps]: "REFRESH_DEFAULT = secs 86400"
definition REFRESH_MINIMUM :: duration where [time_simps]: "REFRESH_MINIMUM = secs 600"

record info6 =
  i_dns :: "ipv6 list"
  i_search :: "rstring list"

datatype dhcp6_action = Send6 bytes | Changed6

record dhcp6_config =
  d_duid :: bytes
  d_seed :: u64

record dhcp6 =
  d_config :: dhcp6_config
  d_rng :: u64
  d_txid :: bytes
  d_started :: "instant option"
  d_retransmit_at :: "instant option"
  d_retransmit_interval :: duration
  d_refresh_at :: "instant option"
  d_info :: "info6 option"

definition dhcp6_new :: "dhcp6_config \<Rightarrow> dhcp6" where
  "dhcp6_new config =
     \<lparr>d_config = config, d_rng = d_seed config OR 1, d_txid = [0, 0, 0], d_started = None,
      d_retransmit_at = None, d_retransmit_interval = FIRST_RETRANSMIT, d_refresh_at = None,
      d_info = None\<rparr>"

section \<open>Options\<close>

definition push_option :: "bytes \<Rightarrow> u16 \<Rightarrow> bytes \<Rightarrow> bytes" where
  "push_option out code data = out @ be16 code @ be16 (word_of_nat (length data)) @ data"

function options6 :: "bytes \<Rightarrow> (u16 \<times> bytes) list" where
  "options6 bs =
     (if length bs < 4 then []
      else (let code = u16_of (slice bs 0 2); len = unat (u16_of (slice bs 2 4))
            in if length bs < 4 + len then []
               else (code, slice bs 4 (4 + len)) # options6 (drop (4 + len) bs)))"
  by pat_completeness auto
termination
  by (relation "measure length") auto

declare options6.simps [simp del]

definition refresh_time :: "bytes \<Rightarrow> duration option" where
  "refresh_time datagram =
     (if length datagram < 4 then None
      else map_option (\<lambda>od. secs (unat (u32_of (snd od))))
             (List.find (\<lambda>od. fst od = OPTION_INFORMATION_REFRESH_TIME \<and> length (snd od) = 4)
                (options6 (drop 4 datagram))))"

definition elapsed :: "instant option \<Rightarrow> instant \<Rightarrow> u16" where
  "elapsed started now =
     (case started of
        None \<Rightarrow> 0
      | Some s \<Rightarrow> word_of_nat (min (as_millis (saturating_duration_since now s) div 10) 65535))"

definition dhcp6_domain_list :: "bytes \<Rightarrow> rstring list" where
  "dhcp6_domain_list bytes = domain_names bytes []"

text \<open>One turn of the loop of \<^verbatim>\<open>parse_reply\<close>: none where the code returns none.\<close>

definition reply_option ::
  "bytes \<Rightarrow> bool \<times> bool \<times> info6 \<Rightarrow> u16 \<times> bytes \<Rightarrow> (bool \<times> bool \<times> info6) option" where
  "reply_option duid st od =
     (case (st, od) of ((client_id_ours, server_id, info), (code, data)) \<Rightarrow>
        if code = OPTION_CLIENT_ID then
          (if data \<noteq> duid then None else Some (True, server_id, info))
        else if code = OPTION_SERVER_ID then Some (client_id_ours, data \<noteq> [], info)
        else if code = OPTION_DNS_SERVERS \<and> length data mod 16 = 0 then
          Some (client_id_ours, server_id, info\<lparr>i_dns := server_list data\<rparr>)
        else if code = OPTION_DOMAIN_LIST then
          Some (client_id_ours, server_id, info\<lparr>i_search := dhcp6_domain_list data\<rparr>)
        else Some (client_id_ours, server_id, info))"

fun reply_options ::
  "bytes \<Rightarrow> (u16 \<times> bytes) list \<Rightarrow> bool \<times> bool \<times> info6 \<Rightarrow> (bool \<times> bool \<times> info6) option" where
  "reply_options duid [] st = Some st"
| "reply_options duid (od # ods) st = Option.bind (reply_option duid st od) (reply_options duid ods)"

definition parse_reply :: "dhcp6 \<Rightarrow> bytes \<Rightarrow> info6 option" where
  "parse_reply c datagram =
     (if length datagram < 4 \<or> datagram ! 0 \<noteq> REPLY \<or> slice datagram 1 4 \<noteq> d_txid c then None
      else (case reply_options (d_duid (d_config c)) (options6 (drop 4 datagram))
                   (False, False, \<lparr>i_dns = [], i_search = []\<rparr>) of
              None \<Rightarrow> None
            | Some (client_id_ours, server_id, info) \<Rightarrow>
                if client_id_ours \<and> server_id then Some info else None))"

section \<open>The client\<close>

definition dhcp6_next_random :: "dhcp6 \<Rightarrow> dhcp6 \<times> u64" where
  "dhcp6_next_random c = (let r = xorshift64 (d_rng c) in (c\<lparr>d_rng := r\<rparr>, r))"

definition dhcp6_jitter :: "dhcp6 \<Rightarrow> duration \<Rightarrow> dhcp6 \<times> duration" where
  "dhcp6_jitter c interval = (let (c, r) = dhcp6_next_random c in (c, jittered interval r))"

definition begin_exchange :: "dhcp6 \<Rightarrow> instant \<Rightarrow> dhcp6" where
  "begin_exchange c now =
     (let (c, r) = dhcp6_next_random c
      in c\<lparr>d_txid := [ucast (drop_bit 16 r), ucast (drop_bit 8 r), ucast r],
           d_started := Some now,
           d_retransmit_interval := FIRST_RETRANSMIT,
           d_retransmit_at := Some now,
           d_refresh_at := None\<rparr>)"

definition dhcp6_request :: "dhcp6 \<Rightarrow> instant \<Rightarrow> bytes" where
  "dhcp6_request c now =
     (let out = INFORMATION_REQUEST # d_txid c;
          out = push_option out OPTION_CLIENT_ID (d_duid (d_config c));
          out = push_option out OPTION_ELAPSED_TIME (be16 (elapsed (d_started c) now))
      in push_option out OPTION_ORO
           (be16 OPTION_DNS_SERVERS @ be16 OPTION_DOMAIN_LIST @ be16 OPTION_INFORMATION_REFRESH_TIME))"

definition dhcp6_next_deadline :: "dhcp6 \<Rightarrow> instant option" where
  "dhcp6_next_deadline c = earlier (d_retransmit_at c) (d_refresh_at c)"

definition dhcp6_tick :: "dhcp6 \<Rightarrow> instant \<Rightarrow> dhcp6 \<times> dhcp6_action list" where
  "dhcp6_tick c now =
     (let c = (case d_refresh_at c of
                 Some at \<Rightarrow> if at \<le> now then begin_exchange c now else c
               | None \<Rightarrow> c)
      in case d_retransmit_at c of
           Some at \<Rightarrow>
             if at \<le> now then
               (let request = dhcp6_request c now;
                    (c, jit) = dhcp6_jitter c (d_retransmit_interval c)
                in (c\<lparr>d_retransmit_interval := min (d_retransmit_interval c * 2) MAX_RETRANSMIT,
                      d_retransmit_at := Some (now + jit)\<rparr>, [Send6 request]))
             else (c, [])
         | None \<Rightarrow> (c, []))"

definition dhcp6_start :: "dhcp6 \<Rightarrow> instant \<Rightarrow> dhcp6 \<times> dhcp6_action list" where
  "dhcp6_start c now = dhcp6_tick (begin_exchange c now) now"

definition dhcp6_receive :: "dhcp6 \<Rightarrow> instant \<Rightarrow> bytes \<Rightarrow> dhcp6 \<times> dhcp6_action list" where
  "dhcp6_receive c now datagram =
     (if d_retransmit_at c = None then (c, [])
      else (case parse_reply c datagram of
              None \<Rightarrow> (c, [])
            | Some info \<Rightarrow>
                (let refresh = max (case refresh_time datagram of
                                      Some t \<Rightarrow> t | None \<Rightarrow> REFRESH_DEFAULT) REFRESH_MINIMUM;
                     c = c\<lparr>d_retransmit_at := None, d_started := None,
                           d_refresh_at := Some (now + refresh)\<rparr>
                 in if d_info c = Some info then (c, [])
                    else (c\<lparr>d_info := Some info\<rparr>, [Changed6]))))"


section \<open>Options on the wire\<close>

definition wire_option :: "u16 \<times> bytes \<Rightarrow> bytes" where
  "wire_option od = push_option [] (fst od) (snd od)"

lemma push_option_wire: "push_option out code data = out @ wire_option (code, data)"
  by (simp add: push_option_def wire_option_def)

lemma options6_wire:
  assumes "length data < 65536"
  shows "options6 (wire_option (code, data) @ rest) = (code, data) # options6 rest"
proof -
  let ?len = "be16 (word_of_nat (length data))"
  let ?bs = "be16 code @ ?len @ data @ rest"
  have w: "wire_option (code, data) @ rest = ?bs" by (simp add: wire_option_def push_option_def)
  have len: "unat (u16_of ?len) = length data" using assms by (simp add: unat_of_nat)
  have s: "slice ?bs 0 2 = be16 code" "slice ?bs 2 4 = ?len" "slice ?bs 4 (4 + length data) = data"
    "drop (4 + length data) ?bs = rest"
    by (simp_all add: slice_def)
  show ?thesis
    unfolding w by (subst options6.simps) (simp only: s len Let_def, simp)
qed

lemma options6_short: "length bs < 4 \<Longrightarrow> options6 bs = []"
  by (simp add: options6.simps)

lemma options6_all:
  "\<forall>od\<in>set ods. length (snd od) < 65536 \<Longrightarrow> length rest < 4 \<Longrightarrow>
   options6 (concat (map wire_option ods) @ rest) = ods"
proof (induction ods)
  case (Cons od ods)
  then show ?case using options6_wire [of "snd od" "fst od"] by simp
qed (simp add: options6_short)

lemma request_options:
  assumes "length (d_duid (d_config c)) < 65536" "length (d_txid c) = 3"
  shows "options6 (drop 4 (dhcp6_request c now)) =
    [(OPTION_CLIENT_ID, d_duid (d_config c)), (OPTION_ELAPSED_TIME, be16 (elapsed (d_started c) now)),
     (OPTION_ORO, be16 OPTION_DNS_SERVERS @ be16 OPTION_DOMAIN_LIST @ be16 OPTION_INFORMATION_REFRESH_TIME)]"
    (is "_ = ?ods")
proof -
  have "dhcp6_request c now = (INFORMATION_REQUEST # d_txid c) @ concat (map wire_option ?ods) @ []"
    by (simp add: dhcp6_request_def push_option_wire Let_def)
  then have "drop 4 (dhcp6_request c now) = concat (map wire_option ?ods) @ []"
    using assms(2) by simp
  then show ?thesis using assms(1) options6_all [of ?ods "[]"] by simp
qed

section \<open>Replies\<close>

lemma reply_options_duid:
  "reply_options duid ods (c, s, i) = Some (c', s', i') \<Longrightarrow>
   (\<forall>od\<in>set ods. fst od = OPTION_CLIENT_ID \<longrightarrow> snd od = duid)
   \<and> (c' \<longrightarrow> c \<or> (OPTION_CLIENT_ID, duid) \<in> set ods)
   \<and> (s' \<longrightarrow> s \<or> (\<exists>v. v \<noteq> [] \<and> (OPTION_SERVER_ID, v) \<in> set ods))"
proof (induction ods arbitrary: c s i)
  case (Cons od ods)
  obtain code data where od: "od = (code, data)" by force
  obtain c1 s1 i1 where st: "reply_option duid (c, s, i) od = Some (c1, s1, i1)"
    and rec: "reply_options duid ods (c1, s1, i1) = Some (c', s', i')"
    using Cons.prems by (auto simp: bind_eq_Some_conv)
  have "(code = OPTION_CLIENT_ID \<longrightarrow> data = duid)" "c1 \<longrightarrow> c \<or> (code, data) = (OPTION_CLIENT_ID, duid)"
    "s1 \<longrightarrow> s \<or> code = OPTION_SERVER_ID \<and> data \<noteq> []"
    using st by (auto simp: reply_option_def od split: if_splits)
  with Cons.IH [OF rec] show ?case by (auto simp: od)
qed simp

definition info_ok :: "info6 \<Rightarrow> bool" where
  "info_ok i = (length (i_dns i) \<le> MAX_SERVERS \<and> (\<forall>a\<in>set (i_dns i). server_usable a)
                \<and> length (i_search i) \<le> MAX_DOMAINS \<and> (\<forall>n\<in>set (i_search i). n \<noteq> [] \<and> domain_ok n))"

lemma reply_option_ok:
  assumes "reply_option duid (c, s, i) od = Some (c', s', i')" "info_ok i"
  shows "info_ok i'"
proof -
  have "info_ok (i\<lparr>i_search := dhcp6_domain_list bs\<rparr>)" for bs
    using assms(2) domain_list_ok [of bs] by (simp add: info_ok_def domain_list_def dhcp6_domain_list_def)
  moreover have "info_ok (i\<lparr>i_dns := server_list bs\<rparr>)" for bs
    using assms(2) server_list_ok [of bs] by (simp add: info_ok_def list_all_iff)
  ultimately show ?thesis
    using assms by (cases od) (auto simp: reply_option_def split: if_splits)
qed

lemma reply_options_ok:
  "reply_options duid ods (c, s, i) = Some (c', s', i') \<Longrightarrow> info_ok i \<Longrightarrow> info_ok i'"
proof (induction ods arbitrary: c s i)
  case (Cons od ods)
  obtain c1 s1 i1 where st: "reply_option duid (c, s, i) od = Some (c1, s1, i1)"
    and rec: "reply_options duid ods (c1, s1, i1) = Some (c', s', i')"
    using Cons.prems(1) by (auto simp: bind_eq_Some_conv)
  show ?case using Cons.IH [OF rec reply_option_ok [OF st Cons.prems(2)]] .
qed simp

lemma parse_reply_sound:
  assumes "parse_reply c d = Some i"
  shows "4 \<le> length d" "d ! 0 = REPLY" "slice d 1 4 = d_txid c" "info_ok i"
    "(OPTION_CLIENT_ID, d_duid (d_config c)) \<in> set (options6 (drop 4 d))"
    "\<forall>od\<in>set (options6 (drop 4 d)). fst od = OPTION_CLIENT_ID \<longrightarrow> snd od = d_duid (d_config c)"
    "\<exists>v. v \<noteq> [] \<and> (OPTION_SERVER_ID, v) \<in> set (options6 (drop 4 d))"
proof -
  show "4 \<le> length d" "d ! 0 = REPLY" "slice d 1 4 = d_txid c"
    using assms by (auto simp: parse_reply_def split: if_splits)
  obtain i0 where r: "reply_options (d_duid (d_config c)) (options6 (drop 4 d))
      (False, False, \<lparr>i_dns = [], i_search = []\<rparr>) = Some (True, True, i0)" "i = i0"
    using assms by (auto simp: parse_reply_def split: if_splits option.splits)
  show "info_ok i" using reply_options_ok [OF r(1)] r(2) by (simp add: info_ok_def)
  show "(OPTION_CLIENT_ID, d_duid (d_config c)) \<in> set (options6 (drop 4 d))"
    "\<forall>od\<in>set (options6 (drop 4 d)). fst od = OPTION_CLIENT_ID \<longrightarrow> snd od = d_duid (d_config c)"
    "\<exists>v. v \<noteq> [] \<and> (OPTION_SERVER_ID, v) \<in> set (options6 (drop 4 d))"
    using reply_options_duid [OF r(1)] by auto
qed

section \<open>The invariant\<close>

definition dhcp6_inv :: "dhcp6 \<Rightarrow> bool" where
  "dhcp6_inv c =
     ((\<exists>m. d_retransmit_interval c = millis m \<and> 1000 \<le> m \<and> m \<le> 3600000)
      \<and> length (d_txid c) = 3 \<and> d_rng c \<noteq> 0
      \<and> (d_retransmit_at c \<noteq> None \<longrightarrow> d_started c \<noteq> None \<and> d_refresh_at c = None)
      \<and> (\<forall>i. d_info c = Some i \<longrightarrow> info_ok i))"

lemma next_random6_fields [simp]:
  "d_config (fst (dhcp6_next_random c)) = d_config c" "d_txid (fst (dhcp6_next_random c)) = d_txid c"
  "d_started (fst (dhcp6_next_random c)) = d_started c"
  "d_retransmit_at (fst (dhcp6_next_random c)) = d_retransmit_at c"
  "d_retransmit_interval (fst (dhcp6_next_random c)) = d_retransmit_interval c"
  "d_refresh_at (fst (dhcp6_next_random c)) = d_refresh_at c"
  "d_info (fst (dhcp6_next_random c)) = d_info c"
  "d_rng (fst (dhcp6_next_random c)) = xorshift64 (d_rng c)"
  by (simp_all add: dhcp6_next_random_def Let_def)

lemma jitter6_fst [simp]: "fst (dhcp6_jitter c i) = fst (dhcp6_next_random c)"
  by (simp add: dhcp6_jitter_def split_def Let_def)

lemma begin_exchange_inv: "dhcp6_inv c \<Longrightarrow> dhcp6_inv (begin_exchange c now)"
  by (auto simp: dhcp6_inv_def begin_exchange_def Let_def split_def xorshift64_nonzero time_simps
      intro!: exI [of _ 1000])

lemma begin_exchange_fields [simp]:
  "d_retransmit_at (begin_exchange c now) = Some now" "d_refresh_at (begin_exchange c now) = None"
  "d_config (begin_exchange c now) = d_config c"
  by (simp_all add: begin_exchange_def Let_def split_def)

text \<open>The second half of \<^verbatim>\<open>tick\<close>: the retransmission.\<close>

definition resend :: "dhcp6 \<Rightarrow> instant \<Rightarrow> dhcp6" where
  "resend c now =
     (fst (dhcp6_jitter c (d_retransmit_interval c)))
       \<lparr>d_retransmit_interval := min (d_retransmit_interval c * 2) MAX_RETRANSMIT,
        d_retransmit_at := Some (now + snd (dhcp6_jitter c (d_retransmit_interval c)))\<rparr>"

lemma jitter6_bounds:
  assumes "dhcp6_inv c"
  shows "millis 900 \<le> snd (dhcp6_jitter c (d_retransmit_interval c))"
    "snd (dhcp6_jitter c (d_retransmit_interval c)) \<le> secs 3961"
proof -
  obtain m where m: "d_retransmit_interval c = millis m" "1000 \<le> m" "m \<le> 3600000"
    using assms by (auto simp: dhcp6_inv_def)
  let ?r = "snd (dhcp6_next_random c)"
  have "snd (dhcp6_jitter c (d_retransmit_interval c)) = jittered (d_retransmit_interval c) ?r"
    by (simp add: dhcp6_jitter_def split_def Let_def)
  then show "millis 900 \<le> snd (dhcp6_jitter c (d_retransmit_interval c))"
    "snd (dhcp6_jitter c (d_retransmit_interval c)) \<le> secs 3961"
    using jittered_bounds [OF m(1), of ?r] m by (auto simp: time_simps)
qed

lemma resend_inv:
  assumes "dhcp6_inv c" "d_retransmit_at c \<noteq> None"
  shows "dhcp6_inv (resend c now)"
proof -
  obtain m where m: "d_retransmit_interval c = millis m" "1000 \<le> m" "m \<le> 3600000"
    using assms(1) by (auto simp: dhcp6_inv_def)
  then have "\<exists>k. min (d_retransmit_interval c * 2) MAX_RETRANSMIT = millis k \<and> 1000 \<le> k \<and> k \<le> 3600000"
    by (auto simp: time_simps min_def intro!: exI [of _ "min (m * 2) 3600000"])
  with assms show ?thesis by (auto simp: dhcp6_inv_def resend_def xorshift64_nonzero)
qed

lemma dhcp6_tick_cases:
  obtains (waiting) "dhcp6_tick c now = (c, [])" "later (d_retransmit_at c) now" "later (d_refresh_at c) now"
  | (resent) "dhcp6_tick c now = (resend c now, [Send6 (dhcp6_request c now)])" "d_retransmit_at c \<noteq> None"
      "later (d_refresh_at c) now"
  | (renewed) "dhcp6_tick c now = (resend (begin_exchange c now) now,
       [Send6 (dhcp6_request (begin_exchange c now) now)])" "\<not> later (d_refresh_at c) now"
proof -
  have *: "(case d_retransmit_at c' of
      Some at \<Rightarrow> if at \<le> now then (let request = dhcp6_request c' now; (c, jit) = dhcp6_jitter c' (d_retransmit_interval c')
          in (c\<lparr>d_retransmit_interval := min (d_retransmit_interval c * 2) MAX_RETRANSMIT,
                d_retransmit_at := Some (now + jit)\<rparr>, [Send6 request])) else (c', [])
    | None \<Rightarrow> (c', [])) =
      (if later (d_retransmit_at c') now then (c', []) else (resend c' now, [Send6 (dhcp6_request c' now)]))" for c'
    by (auto simp: resend_def Let_def split_def split: option.split)
  have r: "(case d_refresh_at c of Some at \<Rightarrow> if at \<le> now then begin_exchange c now else c | None \<Rightarrow> c)
      = (if later (d_refresh_at c) now then c else begin_exchange c now)"
    by (auto split: option.split)
  have t: "dhcp6_tick c now = (let c' = (if later (d_refresh_at c) now then c else begin_exchange c now)
      in if later (d_retransmit_at c') now then (c', []) else (resend c' now, [Send6 (dhcp6_request c' now)]))"
    unfolding dhcp6_tick_def r Let_def * [unfolded Let_def] ..
  show thesis
  proof (cases "later (d_refresh_at c) now")
    case True
    show thesis
    proof (cases "later (d_retransmit_at c) now")
      case ret: True
      with True t show thesis by (intro waiting) (simp_all add: Let_def)
    next
      case ret: False
      then have "d_retransmit_at c \<noteq> None" by (cases "d_retransmit_at c") simp_all
      with True ret t show thesis by (intro resent) (simp_all add: Let_def)
    qed
  next
    case False
    with t show thesis by (intro renewed) (simp_all add: Let_def)
  qed
qed

lemma dhcp6_tick_inv: "dhcp6_inv c \<Longrightarrow> dhcp6_inv (fst (dhcp6_tick c now))"
  by (cases rule: dhcp6_tick_cases [of c now]) (auto intro!: resend_inv begin_exchange_inv)

lemma dhcp6_start_inv: "dhcp6_inv c \<Longrightarrow> dhcp6_inv (fst (dhcp6_start c now))"
  unfolding dhcp6_start_def by (intro dhcp6_tick_inv begin_exchange_inv)

lemma dhcp6_receive_inv:
  assumes "dhcp6_inv c"
  shows "dhcp6_inv (fst (dhcp6_receive c now d))"
  using assms parse_reply_sound(4) [of c d]
  by (auto simp: dhcp6_receive_def Let_def dhcp6_inv_def split: option.split)

lemma dhcp6_new_inv: "dhcp6_inv (dhcp6_new config)"
  by (auto simp: dhcp6_inv_def dhcp6_new_def or_1_nonzero time_simps intro!: exI [of _ 1000])

section \<open>Runs\<close>

datatype dhcp6_event = Start6 | Tick6 | Receive6 bytes

fun dhcp6_step :: "dhcp6 \<Rightarrow> instant \<Rightarrow> dhcp6_event \<Rightarrow> dhcp6 \<times> dhcp6_action list" where
  "dhcp6_step c now Start6 = dhcp6_start c now"
| "dhcp6_step c now Tick6 = dhcp6_tick c now"
| "dhcp6_step c now (Receive6 d) = dhcp6_receive c now d"

inductive dhcp6_reachable :: "dhcp6_config \<Rightarrow> dhcp6 \<Rightarrow> bool" for config where
  fresh6: "dhcp6_reachable config (dhcp6_new config)"
| step6: "dhcp6_reachable config c \<Longrightarrow> dhcp6_reachable config (fst (dhcp6_step c now e))"

lemma dhcp6_step_inv: "dhcp6_inv c \<Longrightarrow> dhcp6_inv (fst (dhcp6_step c now e))"
  by (cases e) (simp_all add: dhcp6_start_inv dhcp6_tick_inv dhcp6_receive_inv)

lemma dhcp6_tick_config [simp]: "d_config (fst (dhcp6_tick c now)) = d_config c"
  by (cases rule: dhcp6_tick_cases [of c now]) (simp_all add: resend_def)

lemma dhcp6_step_config [simp]: "d_config (fst (dhcp6_step c now e)) = d_config c"
  by (cases e) (auto simp: dhcp6_start_def dhcp6_receive_def Let_def split: option.split)

lemma dhcp6_reachable_inv: "dhcp6_reachable config c \<Longrightarrow> dhcp6_inv c \<and> d_config c = config"
proof (induction rule: dhcp6_reachable.induct)
  case fresh6
  show ?case using dhcp6_new_inv by (simp add: dhcp6_new_def)
next
  case (step6 c now e)
  then show ?case by (simp add: dhcp6_step_inv)
qed

lemma resend_later: "dhcp6_inv c \<Longrightarrow> later (d_retransmit_at (resend c now)) now"
  using jitter6_bounds(1) [of c] by (simp add: resend_def time_simps)

lemma resend_refresh [simp]: "d_refresh_at (resend c now) = d_refresh_at c"
  by (simp add: resend_def)

abbreviation dhcp6_ticked :: "dhcp6 \<Rightarrow> instant \<Rightarrow> dhcp6 \<Rightarrow> bool" where
  "dhcp6_ticked c now c' \<equiv> fst (dhcp6_tick c now) = c'"

lemma dhcp6_tick_later:
  assumes "dhcp6_inv c"
  shows "later (dhcp6_next_deadline (fst (dhcp6_tick c now))) now"
  using resend_later [OF assms, of now] resend_later [OF begin_exchange_inv [OF assms], of now]
  by (cases rule: dhcp6_tick_cases [of c now]) (simp_all add: dhcp6_next_deadline_def)

interpretation dhcp6_timed: timed_machine dhcp6_ticked dhcp6_next_deadline dhcp6_inv 1
  by unfold_locales (auto simp: dhcp6_tick_inv dhcp6_tick_later)

lemma dhcp6_tick_idle: "later (dhcp6_next_deadline c) now \<Longrightarrow> dhcp6_tick c now = (c, [])"
  by (auto simp: dhcp6_next_deadline_def dhcp6_tick_def split: option.splits)

section \<open>The properties of the client\<close>

definition ex_duid :: dhcp6_config where
  "ex_duid = \<lparr>d_duid = [0, 4, 1, 2, 3], d_seed = 42\<rparr>"

definition ex_asking :: dhcp6 where
  "ex_asking = fst (dhcp6_step (dhcp6_new ex_duid) 0 Start6)"

lemma ex_asking_reachable: "dhcp6_reachable ex_duid ex_asking"
  unfolding ex_asking_def by (intro dhcp6_reachable.intros)

lemma ex_asking_fields: "d_retransmit_at ex_asking \<noteq> None" "d_config ex_asking = ex_duid"
  "length (d_txid ex_asking) = 3" "d_info ex_asking = None"
proof -
  show "d_config ex_asking = ex_duid" "length (d_txid ex_asking) = 3"
    using dhcp6_reachable_inv [OF ex_asking_reachable] by (simp_all add: dhcp6_inv_def)
  have "dhcp6_tick (begin_exchange (dhcp6_new ex_duid) 0) 0
      = (resend (begin_exchange (dhcp6_new ex_duid) 0) 0,
         [Send6 (dhcp6_request (begin_exchange (dhcp6_new ex_duid) 0) 0)])"
    by (simp add: dhcp6_tick_def resend_def Let_def split_def)
  then have e: "ex_asking = resend (begin_exchange (dhcp6_new ex_duid) 0) 0"
    by (simp add: ex_asking_def dhcp6_start_def)
  show "d_retransmit_at ex_asking \<noteq> None" "d_info ex_asking = None"
    unfolding e by (simp_all add: resend_def begin_exchange_def dhcp6_new_def Let_def split_def)
qed

definition ex_reply6 :: bytes where
  "ex_reply6 = REPLY # d_txid ex_asking @ concat (map wire_option
     [(OPTION_CLIENT_ID, [0, 4, 1, 2, 3]), (OPTION_SERVER_ID, [9]),
      (OPTION_INFORMATION_REFRESH_TIME, [0, 0, 0, 1])])"

lemma ex_reply6_options:
  "options6 (drop 4 ex_reply6) = [(OPTION_CLIENT_ID, [0, 4, 1, 2, 3]), (OPTION_SERVER_ID, [9]),
      (OPTION_INFORMATION_REFRESH_TIME, [0, 0, 0, 1])]"
  using options6_all [of "[(OPTION_CLIENT_ID, [0, 4, 1, 2, 3]), (OPTION_SERVER_ID, [9]),
      (OPTION_INFORMATION_REFRESH_TIME, [0, 0, 0, 1])]" "[]"] ex_asking_fields(3)
  by (simp add: ex_reply6_def)

lemma ex_reply6_parses: "parse_reply ex_asking ex_reply6 = Some \<lparr>i_dns = [], i_search = []\<rparr>"
proof -
  have "slice ex_reply6 1 4 = d_txid ex_asking" "4 \<le> length ex_reply6"
    using ex_asking_fields(3) by (simp_all add: ex_reply6_def slice_def)
  then show ?thesis
    unfolding parse_reply_def ex_reply6_options
    by (simp add: ex_asking_fields ex_duid_def reply_option_def) (simp add: ex_reply6_def)
qed

text \<open>
  C12: Only an answer to the running exchange has an effect.  If a datagram changes the
  client, an exchange was running, the datagram is a REPLY with its transaction id,
  every client identifier in it is the client's own and there is one, and it names
  its server; the information kept from it is bounded, the retransmission stops and
  the next refresh is at least ten minutes away.
\<close>

theorem dhcp6_reply_sound:
  assumes "dhcp6_reachable config c" "dhcp6_receive c now d = (c', as)" "(c', as) \<noteq> (c, [])"
  shows "d_retransmit_at c \<noteq> None \<and> d ! 0 = REPLY \<and> slice d 1 4 = d_txid c
    \<and> (OPTION_CLIENT_ID, d_duid config) \<in> set (options6 (drop 4 d))
    \<and> (\<forall>v. (OPTION_CLIENT_ID, v) \<in> set (options6 (drop 4 d)) \<longrightarrow> v = d_duid config)
    \<and> (\<exists>v. v \<noteq> [] \<and> (OPTION_SERVER_ID, v) \<in> set (options6 (drop 4 d)))
    \<and> (\<exists>i. d_info c' = Some i \<and> info_ok i)
    \<and> d_retransmit_at c' = None \<and> (\<exists>t. d_refresh_at c' = Some t \<and> now + secs 600 \<le> t)"
proof -
  have conf: "d_config c = config" using dhcp6_reachable_inv [OF assms(1)] by blast
  obtain i where i: "parse_reply c d = Some i" "d_retransmit_at c \<noteq> None"
    using assms(2,3) by (auto simp: dhcp6_receive_def split: if_splits option.splits)
  note s = parse_reply_sound [OF i(1)]
  have "d_info c' = Some i" "d_retransmit_at c' = None" "\<exists>t. d_refresh_at c' = Some t \<and> now + secs 600 \<le> t"
    using assms(2) i
    by (auto simp: dhcp6_receive_def Let_def REFRESH_MINIMUM_def max.coboundedI2 split: if_splits)
  with s i(2) show ?thesis unfolding conf by fastforce
qed

theorem dhcp6_reply_sound_witness:
  "\<exists>t. d_refresh_at (fst (dhcp6_receive ex_asking 5 ex_reply6)) = Some t \<and> 5 + secs 600 \<le> t"
proof -
  have "snd (dhcp6_receive ex_asking 5 ex_reply6) \<noteq> []"
    using ex_asking_fields by (simp add: dhcp6_receive_def ex_reply6_parses Let_def)
  with dhcp6_reply_sound [OF ex_asking_reachable prod.collapse [symmetric], of 5 ex_reply6] show ?thesis
    by (metis snd_conv)
qed

text \<open>
  The DHCPv6 client keeps its side of the poll loop: one tick leaves its deadline
  in the future, a tick before the deadline does nothing, and a request is followed
  by the next one no sooner than 0.9 and no later than 3961 seconds after it.
\<close>

theorem dhcp6_timers:
  assumes "dhcp6_reachable config c"
  shows "later (dhcp6_next_deadline (fst (dhcp6_tick c now))) now
    \<and> (later (dhcp6_next_deadline c) now \<longrightarrow> dhcp6_tick c now = (c, []))
    \<and> (snd (dhcp6_tick c now) \<noteq> [] \<longrightarrow>
         (\<exists>t. d_retransmit_at (fst (dhcp6_tick c now)) = Some t \<and> now + millis 900 \<le> t \<and> t \<le> now + secs 3961))"
proof -
  have inv: "dhcp6_inv c" using dhcp6_reachable_inv [OF assms] by blast
  have "later (dhcp6_next_deadline (fst (dhcp6_tick c now))) now"
    by (rule dhcp6_timed.no_spin [OF inv, of 1]) simp_all
  moreover have "\<exists>t. d_retransmit_at (resend c' now) = Some t \<and> now + millis 900 \<le> t \<and> t \<le> now + secs 3961"
    if "dhcp6_inv c'" for c'
    using jitter6_bounds [OF that] by (simp add: resend_def)
  then have "snd (dhcp6_tick c now) \<noteq> [] \<Longrightarrow>
      \<exists>t. d_retransmit_at (fst (dhcp6_tick c now)) = Some t \<and> now + millis 900 \<le> t \<and> t \<le> now + secs 3961"
    using inv begin_exchange_inv [OF inv, of now]
    by (cases rule: dhcp6_tick_cases [of c now]) auto
  ultimately show ?thesis using dhcp6_tick_idle by blast
qed

theorem dhcp6_timers_witness:
  "later (dhcp6_next_deadline (fst (dhcp6_tick ex_asking (secs 9)))) (secs 9)"
  using dhcp6_timers [OF ex_asking_reachable] by blast

text \<open>
  Round trip of the DHCPv6 options: walking the encoding of any options that fit
  their length field, whatever shorter tail follows, gives the options; and the
  request of a reachable client carries exactly its identifier, the elapsed time
  and the list of the options it asks for.
\<close>

theorem dhcp6_options_roundtrip:
  assumes "\<forall>od\<in>set ods. length (snd od) < 65536" "length rest < 4"
    and "dhcp6_reachable config c" "length (d_duid config) < 65536"
  shows "options6 (concat (map wire_option ods) @ rest) = ods
    \<and> options6 (drop 4 (dhcp6_request c now)) =
        [(OPTION_CLIENT_ID, d_duid config), (OPTION_ELAPSED_TIME, be16 (elapsed (d_started c) now)),
         (OPTION_ORO, be16 OPTION_DNS_SERVERS @ be16 OPTION_DOMAIN_LIST @ be16 OPTION_INFORMATION_REFRESH_TIME)]"
  using options6_all [OF assms(1,2)] request_options [of c now] dhcp6_reachable_inv [OF assms(3)] assms(4)
  by (auto simp: dhcp6_inv_def)

theorem dhcp6_options_roundtrip_witness:
  "options6 [0, 1, 0, 2, 7, 8, 0] = [(1, [7, 8])]
   \<and> (OPTION_CLIENT_ID, [0, 4, 1, 2, 3]) \<in> set (options6 (drop 4 (dhcp6_request ex_asking 3)))"
  using dhcp6_options_roundtrip [of "[(1, [7, 8])]" "[0]" ex_duid ex_asking 3] ex_asking_reachable
  by (simp add: wire_option_def push_option_def be16_def nat_be_numeral ex_duid_def)
end
