(* ===== verification/Net_Model.thy ===== *)
theory Net_Model
  imports Rust_String Ordered_Map
begin

text \<open>
  What the kernel says the network is (\<^verbatim>\<open>netd/src/model.rs\<close>): links, addresses and
  routes, the ordered sets the reconciler makes of them, and the identifiers netd
  derives for an interface.  SHA-1 is a crate, so the digest is an argument.
\<close>

section \<open>Internet addresses of either family\<close>

datatype ipaddr = V4 ipv4 | V6 ipv6

text \<open>The derived order of \<^verbatim>\<open>IpAddr\<close>: every IPv4 address before every IPv6 address.\<close>

instantiation ipaddr :: linorder
begin

fun less_eq_ipaddr :: "ipaddr \<Rightarrow> ipaddr \<Rightarrow> bool" where
  "less_eq_ipaddr (V4 a) (V4 b) = (a \<le> b)"
| "less_eq_ipaddr (V4 a) (V6 b) = True"
| "less_eq_ipaddr (V6 a) (V4 b) = False"
| "less_eq_ipaddr (V6 a) (V6 b) = (a \<le> b)"

definition less_ipaddr :: "ipaddr \<Rightarrow> ipaddr \<Rightarrow> bool" where
  "less_ipaddr a b = (a \<le> b \<and> \<not> b \<le> a)"

instance
proof
  fix a b c :: ipaddr
  show "a \<le> b \<Longrightarrow> b \<le> c \<Longrightarrow> a \<le> c" by (cases a; cases b; cases c) auto
  show "a \<le> b \<Longrightarrow> b \<le> a \<Longrightarrow> a = b" by (cases a; cases b) auto
  show "a \<le> b \<or> b \<le> a" by (cases a; cases b) (auto simp: linear)
  show "a \<le> a" by (cases a) auto
qed (simp add: less_ipaddr_def)

end

definition is_v6_link_local :: "ipv6 \<Rightarrow> bool" where
  "is_v6_link_local a = (segment0 a AND 0xffc0 = 0xfe80)"

section \<open>Links, addresses, routes\<close>

abbreviation (input) RTPROT_NETD :: u8 where "RTPROT_NETD \<equiv> 200"

datatype link_kind = Loopback | Ether | Wireless | Other

fun link_kind_as_str :: "link_kind \<Rightarrow> rstring" where
  "link_kind_as_str Loopback = ''loopback''"
| "link_kind_as_str Ether = ''wired''"
| "link_kind_as_str Wireless = ''wireless''"
| "link_kind_as_str Other = ''other''"

record link =
  ln_index :: u32
  ln_name :: rstring
  ln_mac :: "bytes option"
  ln_up :: bool
  ln_carrier :: bool
  ln_loopback :: bool
  ln_mtu :: u32
  ln_link_type :: u16
  ln_kind :: link_kind

record address =
  a_index :: u32
  a_address :: ipaddr
  a_prefix :: u8
  a_deprecated :: bool
  a_no_prefix_route :: bool
  a_tentative :: bool

definition address_new :: "u32 \<Rightarrow> ipaddr \<Rightarrow> u8 \<Rightarrow> address" where
  "address_new index addr prefix =
     \<lparr>a_index = index, a_address = addr, a_prefix = prefix, a_deprecated = False,
      a_no_prefix_route = False, a_tentative = False\<rparr>"

definition address_usable :: "address \<Rightarrow> bool" where
  "address_usable a =
     (case a_address a of
        V4 v4 \<Rightarrow> \<not> v4_is_loopback v4
      | V6 v6 \<Rightarrow> \<not> v6_is_loopback v6 \<and> \<not> is_v6_link_local v6)"

record route =
  r_index :: u32
  r_destination :: ipaddr
  r_prefix :: u8
  r_gateway :: "ipaddr option"
  r_metric :: u32
  r_protocol :: u8

definition route_is_default :: "route \<Rightarrow> bool" where
  "route_is_default r = (r_prefix r = 0)"

definition route_is_v4 :: "route \<Rightarrow> bool" where
  "route_is_v4 r = (case r_destination r of V4 _ \<Rightarrow> True | V6 _ \<Rightarrow> False)"

record observed =
  o_links :: "(u32, link) btree"
  o_addresses :: "address list"
  o_routes :: "route list"

definition addresses_of :: "observed \<Rightarrow> u32 \<Rightarrow> address list" where
  "addresses_of ob index = filter (\<lambda>a. a_index a = index) (o_addresses ob)"

definition routes_of :: "observed \<Rightarrow> u32 \<Rightarrow> route list" where
  "routes_of ob index = filter (\<lambda>r. r_index r = index) (o_routes ob)"

section \<open>Ordered sets\<close>

text \<open>
  The derived orders compare the fields in turn; none before some.  A \<^verbatim>\<open>BTreeSet\<close> is the
  list of its elements in that order.
\<close>

definition address_key :: "address \<Rightarrow> u32 \<times> ipaddr \<times> u8 \<times> bool \<times> bool \<times> bool" where
  "address_key a =
     (a_index a, a_address a, a_prefix a, a_deprecated a, a_no_prefix_route a, a_tentative a)"

definition option_key :: "ipaddr option \<Rightarrow> bool \<times> ipaddr" where
  "option_key g = (case g of None \<Rightarrow> (False, V4 0) | Some a \<Rightarrow> (True, a))"

definition route_key :: "route \<Rightarrow> u32 \<times> ipaddr \<times> u8 \<times> (bool \<times> ipaddr) \<times> u32 \<times> u8" where
  "route_key r =
     (r_index r, r_destination r, r_prefix r, option_key (r_gateway r), r_metric r, r_protocol r)"

definition bset :: "('a \<Rightarrow> 'k::linorder) \<Rightarrow> 'a list \<Rightarrow> 'a list" where
  "bset key xs = map snd (foldl (\<lambda>m x. bt_insert (key x) x m) [] xs)"

lemma address_key_inj: "address_key a = address_key b \<longleftrightarrow> a = b"
  by (cases a; cases b) (auto simp: address_key_def)

lemma option_key_inj: "option_key g = option_key h \<longleftrightarrow> g = h"
  by (cases g; cases h) (auto simp: option_key_def)

lemma route_key_inj: "route_key a = route_key b \<longleftrightarrow> a = b"
  by (cases a; cases b) (auto simp: route_key_def option_key_inj)

text \<open>The map a set is collected in: it holds each element under its own key.\<close>

lemma bset_fold:
  "bt_ok m \<Longrightarrow> \<forall>e\<in>set m. fst e = key (snd e) \<Longrightarrow>
   bt_ok (foldl (\<lambda>m x. bt_insert (key x) x m) m xs)
   \<and> (\<forall>e\<in>set (foldl (\<lambda>m x. bt_insert (key x) x m) m xs). fst e = key (snd e))"
proof (induction xs arbitrary: m)
  case (Cons x xs)
  have "bt_ok (bt_insert (key x) x m)" "\<forall>e\<in>set (bt_insert (key x) x m). fst e = key (snd e)"
    using Cons.prems by (simp_all add: set_bt_insert)
  from Cons.IH [OF this] show ?case by simp
qed simp

lemma bset_fold_set:
  assumes "inj key"
  shows "bt_ok m \<Longrightarrow> \<forall>e\<in>set m. fst e = key (snd e) \<Longrightarrow>
    snd ` set (foldl (\<lambda>m x. bt_insert (key x) x m) m xs) = snd ` set m \<union> set xs"
proof (induction xs arbitrary: m)
  case Nil
  then show ?case by simp
next
  case (Cons x xs)
  let ?m = "bt_insert (key x) x m"
  have e: "fst e \<noteq> key x \<or> snd e = x" if "e \<in> set m" for e
    using Cons.prems(2) that injD [OF assms] by metis
  have "snd ` set ?m = insert x (snd ` set m)"
  proof
    show "snd ` set ?m \<subseteq> insert x (snd ` set m)" using Cons.prems(1) by (auto simp: set_bt_insert)
    show "insert x (snd ` set m) \<subseteq> snd ` set ?m"
      using e unfolding set_bt_insert [OF Cons.prems(1)] by force
  qed
  moreover have "bt_ok ?m" "\<forall>e\<in>set ?m. fst e = key (snd e)"
    using Cons.prems by (simp_all add: set_bt_insert)
  ultimately show ?case using Cons.IH [of ?m] by simp
qed

lemma set_bset:
  assumes "\<And>x y. key x = key y \<longleftrightarrow> x = y"
  shows "set (bset key xs) = set xs"
proof -
  have "inj key" by (rule injI) (simp add: assms)
  from bset_fold_set [OF this, of "[]" xs] show ?thesis by (simp add: bset_def)
qed

lemma set_bset_address [simp]: "set (bset address_key as) = set as"
  by (rule set_bset) (rule address_key_inj)

lemma set_bset_route [simp]: "set (bset route_key rs) = set rs"
  by (rule set_bset) (rule route_key_inj)

lemma bset_sorted: "sorted_wrt (\<lambda>x y. key x < key y) (bset key xs)"
proof -
  let ?m = "foldl (\<lambda>m x. bt_insert (key x) x m) [] xs"
  have m: "bt_ok ?m" "\<forall>e\<in>set ?m. fst e = key (snd e)"
    using bset_fold [of "[]" key xs] by simp_all
  have k: "map key (map snd ?m) = map fst ?m" using m(2) by simp
  have "sorted_wrt (<) (map key (map snd ?m))" unfolding k using m(1) by (simp only: bt_ok_def)
  then show ?thesis unfolding bset_def sorted_wrt_map by simp
qed

text \<open>A set is the same list whatever the order and the repetitions it was collected from.\<close>

lemma bset_cong:
  assumes "\<And>x y. key x = key y \<longleftrightarrow> x = y" "set xs = set ys"
  shows "bset key xs = bset key ys"
proof -
  have s: "sorted (map key (bset key zs)) \<and> distinct (map key (bset key zs))" for zs
    using bset_sorted [of key zs] by (simp add: sorted_wrt_map [symmetric] strict_sorted_iff)
  have "map key (bset key xs) = map key (bset key ys)"
    using s [of xs] s [of ys] assms set_bset [of key] by (intro sorted_distinct_set_unique) auto
  moreover have "inj key" using assms(1) by (auto intro: injI)
  ultimately show ?thesis by (simp add: inj_map_eq_map)
qed

lemma bset_distinct: "distinct (bset key xs)"
proof -
  have "distinct (map key (bset key xs))"
    using bset_sorted [of key xs] by (simp add: sorted_wrt_map [symmetric] strict_sorted_iff)
  then show ?thesis by (simp add: distinct_map)
qed

section \<open>Identifiers\<close>

definition hex_digit :: "nat \<Rightarrow> char" where
  "hex_digit n = char_of (if n < 10 then 48 + n else 87 + n)"

text \<open>\<^verbatim>\<open>{b:02x}\<close>.\<close>

definition hex2 :: "u8 \<Rightarrow> rstring" where
  "hex2 b = [hex_digit (unat b div 16), hex_digit (unat b mod 16)]"

definition format_mac :: "bytes \<Rightarrow> rstring" where
  "format_mac mac = join_with '':'' (map hex2 mac)"

record identity =
  id_path :: rstring
  id_driver :: rstring

text \<open>The text of the first 16 bytes of a digest, stamped as a version 5 UUID.\<close>

definition uuid5_bytes :: "bytes \<Rightarrow> bytes" where
  "uuid5_bytes d =
     (let b = take 16 d;
          b = b[6 := (b ! 6 AND 0x0f) OR 0x50]
      in b[8 := (b ! 8 AND 0x3f) OR 0x80])"

definition uuid_text :: "bytes \<Rightarrow> rstring" where
  "uuid_text b =
     concat (map hex2 (slice b 0 4)) @ ''-'' @ concat (map hex2 (slice b 4 6)) @ ''-''
     @ concat (map hex2 (slice b 6 8)) @ ''-'' @ concat (map hex2 (slice b 8 10)) @ ''-''
     @ concat (map hex2 (slice b 10 16))"

definition interface_id :: "(bytes \<Rightarrow> bytes) \<Rightarrow> identity \<Rightarrow> bytes option \<Rightarrow> rstring \<Rightarrow> rstring" where
  "interface_id sha1 ident mac name =
     (let input = as_bytes ''peios-netd-ifid|''
                  @ (if id_path ident \<noteq> [] then as_bytes (id_path ident) else [])
                  @ as_bytes ''|''
                  @ (case mac of Some m \<Rightarrow> m | None \<Rightarrow> as_bytes name)
      in uuid_text (uuid5_bytes (sha1 input)))"

text \<open>\<^verbatim>\<open>dddd:bb:dd.f\<close>.\<close>

definition is_pci_address :: "rstring \<Rightarrow> bool" where
  "is_pci_address name =
     (length name = 12 \<and> name ! 4 = CHR '':'' \<and> name ! 7 = CHR '':'' \<and> name ! 10 = CHR ''.''
      \<and> list_all (\<lambda>i. is_ascii_hexdigit (name ! i)) [0, 1, 2, 3, 5, 6, 8, 9, 11])"

end
