(* ===== verification/Reconcile.thy ===== *)
theory Reconcile
  imports Net_Model
begin

text \<open>
  Desired state, diffed against observed state and applied (\<^verbatim>\<open>netd/src/reconcile.rs\<close>), and
  the IPv4 state kept over a restart (\<^verbatim>\<open>netd/src/restart.rs\<close>).  The kernel behind the
  \<^verbatim>\<open>Rtnl\<close> trait is a parameter; what netd relies on is the locale \<^verbatim>\<open>rtnl_kernel\<close>.
\<close>

section \<open>Desired state and steps\<close>

record desired_v6 =
  dv_address :: ipv6
  dv_prefix :: u8
  dv_deprecated :: bool
  dv_no_prefix_route :: bool

record desired =
  d_index :: u32
  d_up :: bool
  d_mtu :: "u32 option"
  d_addresses :: "(ipv4 \<times> u8) list"
  d_addresses6 :: "desired_v6 list"
  d_broadcast :: "ipv4 option"
  d_default_route :: "(ipv4 \<times> u32) option"
  d_default_route6 :: "(ipv6 \<times> u32) option"
  d_routes :: "(ipv4 \<times> u8 \<times> ipv4 \<times> u32) list"

datatype op =
    LinkUp u32
  | LinkDown u32
  | Mtu u32 u32
  | AddAddress address "ipv4 option"
  | DelAddress address
  | AddRoute route
  | DelRoute route

section \<open>The plan\<close>

definition want_addresses :: "desired \<Rightarrow> address list" where
  "want_addresses d =
     bset address_key
       (map (\<lambda>(a, p). address_new (d_index d) (V4 a) p) (d_addresses d)
        @ map (\<lambda>a. \<lparr>a_index = d_index d, a_address = V6 (dv_address a), a_prefix = dv_prefix a,
                      a_deprecated = dv_deprecated a, a_no_prefix_route = dv_no_prefix_route a,
                      a_tentative = False\<rparr>) (d_addresses6 d))"

definition manageable :: "address \<Rightarrow> bool" where
  "manageable a = (case a_address a of V4 _ \<Rightarrow> True | V6 v6 \<Rightarrow> \<not> is_v6_link_local v6)"

definition erase_tentative :: "address \<Rightarrow> address" where
  "erase_tentative a = a\<lparr>a_tentative := False\<rparr>"

definition have_addresses :: "observed \<Rightarrow> u32 \<Rightarrow> address list" where
  "have_addresses ob index =
     bset address_key (map erase_tentative (filter manageable (addresses_of ob index)))"

definition same_address :: "address \<Rightarrow> address \<Rightarrow> bool" where
  "same_address w a = (a_address w = a_address a \<and> a_prefix w = a_prefix a)"

definition plan_addresses :: "observed \<Rightarrow> desired \<Rightarrow> op list" where
  "plan_addresses ob d =
     (let want = want_addresses d;
          held = have_addresses ob (d_index d);
          wanted_key = (\<lambda>a. list_ex (\<lambda>w. same_address w a) want)
      in map DelAddress (filter (\<lambda>a. \<not> wanted_key a) held)
         @ map (\<lambda>a. AddAddress a (d_broadcast d)) (filter (\<lambda>a. a \<notin> set held) want))"

definition default_route_of :: "u32 \<Rightarrow> ipaddr \<Rightarrow> ipaddr \<Rightarrow> u32 \<Rightarrow> route" where
  "default_route_of index unspecified gateway metric =
     \<lparr>r_index = index, r_destination = unspecified, r_prefix = 0, r_gateway = Some gateway,
      r_metric = metric, r_protocol = RTPROT_NETD\<rparr>"

definition want_routes :: "desired \<Rightarrow> route list" where
  "want_routes d =
     bset route_key
       (map (\<lambda>(dst, p, g, m). \<lparr>r_index = d_index d, r_destination = V4 dst, r_prefix = p,
                                r_gateway = Some (V4 g), r_metric = m, r_protocol = RTPROT_NETD\<rparr>) (d_routes d)
        @ (case d_default_route d of
             Some (g, m) \<Rightarrow> [default_route_of (d_index d) (V4 0) (V4 g) m] | None \<Rightarrow> [])
        @ (case d_default_route6 d of
             Some (g, m) \<Rightarrow>
               (let m = (if m = 0 then 1024 else m)
                in [default_route_of (d_index d) (V6 0) (V6 g) m])
           | None \<Rightarrow> []))"

definition have_routes :: "observed \<Rightarrow> u32 \<Rightarrow> route list" where
  "have_routes ob index =
     bset route_key (filter (\<lambda>r. r_protocol r = RTPROT_NETD) (routes_of ob index))"

definition plan_routes :: "observed \<Rightarrow> desired \<Rightarrow> op list" where
  "plan_routes ob d =
     (let want = want_routes d; held = have_routes ob (d_index d)
      in map DelRoute (filter (\<lambda>r. r \<notin> set want) held)
         @ map AddRoute (filter (\<lambda>r. r \<notin> set held) want))"

definition plan :: "observed \<Rightarrow> desired \<Rightarrow> op list" where
  "plan ob d =
     (let index = d_index d
      in case bt_get (o_links ob) index of
           None \<Rightarrow> []
         | Some ln \<Rightarrow>
             (if d_up d \<and> \<not> ln_up ln then [LinkUp index] else [])
             @ (case d_mtu d of
                  Some mtu \<Rightarrow> if mtu \<noteq> ln_mtu ln \<and> 68 \<le> mtu then [Mtu index mtu] else []
                | None \<Rightarrow> [])
             @ plan_addresses ob d @ plan_routes ob d
             @ (if \<not> d_up d \<and> ln_up ln then [LinkDown index] else []))"

section \<open>Applying it\<close>

abbreviation (input) ENOENT :: int where "ENOENT \<equiv> 2"
abbreviation (input) ESRCH :: int where "ESRCH \<equiv> 3"
abbreviation (input) EEXIST :: int where "EEXIST \<equiv> 17"

text \<open>An error is its \<^verbatim>\<open>raw_os_error\<close>.\<close>

fun benign :: "op \<Rightarrow> int option \<Rightarrow> bool" where
  "benign (AddRoute _) e = (e = Some EEXIST)"
| "benign (AddAddress _ _) e = (e = Some EEXIST)"
| "benign (DelRoute _) e = (e = Some ENOENT \<or> e = Some ESRCH)"
| "benign (DelAddress _) e = (e = Some ENOENT \<or> e = Some ESRCH)"
| "benign _ e = False"

text \<open>
  \<^verbatim>\<open>rtnl k op\<close> is the call the trait makes for the step: the kernel it leaves, and the
  error if it failed.  The result counts the failures that are not benign.
\<close>

fun apply_ops :: "('k \<Rightarrow> op \<Rightarrow> 'k \<times> int option option) \<Rightarrow> 'k \<Rightarrow> op list \<Rightarrow> 'k \<times> nat" where
  "apply_ops rtnl k [] = (k, 0)"
| "apply_ops rtnl k (op # ops) =
     (let (k1, result) = rtnl k op;
          (k2, failures) = apply_ops rtnl k1 ops
      in (k2, (case result of
                 Some e \<Rightarrow> if benign op e then failures else failures + 1
               | None \<Rightarrow> failures)))"

section \<open>IPv4 kept over a restart\<close>

record restart_ipv4 =
  rs_addresses :: "(ipv4 \<times> u8) list"
  rs_routes :: "route list"

definition restart_capture :: "observed \<Rightarrow> u32 \<Rightarrow> ipv4 option \<Rightarrow> restart_ipv4 option" where
  "restart_capture ob index requested =
     (case requested of
        None \<Rightarrow> None
      | Some req \<Rightarrow>
          (let addresses = map (\<lambda>a. (req, a_prefix a))
                             (filter (\<lambda>a. a_address a = V4 req) (addresses_of ob index))
           in if addresses = [] then None
              else Some \<lparr>rs_addresses = addresses,
                         rs_routes = filter (\<lambda>r. route_is_v4 r \<and> r_protocol r = RTPROT_NETD)
                                       (routes_of ob index)\<rparr>))"

definition preserve_route :: "u32 \<Rightarrow> desired \<Rightarrow> route \<Rightarrow> desired" where
  "preserve_route metric d r =
     (case (r_destination r, r_gateway r) of
        (V4 destination, Some (V4 gateway)) \<Rightarrow>
          if route_is_default r then
            (case d_default_route d of
               None \<Rightarrow> d\<lparr>d_default_route := Some (gateway, metric)\<rparr> | Some _ \<Rightarrow> d)
          else d\<lparr>d_routes := d_routes d @ [(destination, r_prefix r, gateway, metric)]\<rparr>
      | _ \<Rightarrow> d)"

definition restart_preserve :: "restart_ipv4 \<Rightarrow> desired \<Rightarrow> bool \<Rightarrow> u32 \<Rightarrow> desired" where
  "restart_preserve rs d offered_routes metric =
     (let d = d\<lparr>d_addresses := d_addresses d @ rs_addresses rs\<rparr>
      in if \<not> offered_routes then d else foldl (preserve_route metric) d (rs_routes rs))"

section \<open>What the kernel keeps\<close>

text \<open>
  The part of the kernel's state the reconciler is about: whether each link is up
  and its MTU, the addresses but for IPv6 link-locals, their tentative flag erased,
  and the routes that carry netd's protocol number.
\<close>

record kview =
  kv_links :: "u32 \<Rightarrow> (bool \<times> u32) option"
  kv_addresses :: "address set"
  kv_routes :: "route set"

definition view_of :: "observed \<Rightarrow> kview" where
  "view_of ob =
     \<lparr>kv_links = (\<lambda>i. map_option (\<lambda>l. (ln_up l, ln_mtu l)) (bt_get (o_links ob) i)),
      kv_addresses = set (map erase_tentative (filter manageable (o_addresses ob))),
      kv_routes = set (filter (\<lambda>r. r_protocol r = RTPROT_NETD) (o_routes ob))\<rparr>"

definition same_key :: "address \<Rightarrow> address \<Rightarrow> bool" where
  "same_key a b = (a_index a = a_index b \<and> same_address a b)"

text \<open>
  The documented effect of each netlink request on it: an address is one per
  interface, address and prefix, and adding it replaces its flags; a route is
  added beside the others and removed exactly.
\<close>

fun op_effect :: "op \<Rightarrow> kview \<Rightarrow> kview" where
  "op_effect (LinkUp i) v = v\<lparr>kv_links := (kv_links v)(i := map_option (\<lambda>l. (True, snd l)) (kv_links v i))\<rparr>"
| "op_effect (LinkDown i) v = v\<lparr>kv_links := (kv_links v)(i := map_option (\<lambda>l. (False, snd l)) (kv_links v i))\<rparr>"
| "op_effect (Mtu i m) v = v\<lparr>kv_links := (kv_links v)(i := map_option (\<lambda>l. (fst l, m)) (kv_links v i))\<rparr>"
| "op_effect (AddAddress a b) v = v\<lparr>kv_addresses := insert a {x \<in> kv_addresses v. \<not> same_key x a}\<rparr>"
| "op_effect (DelAddress a) v = v\<lparr>kv_addresses := {x \<in> kv_addresses v. \<not> same_key x a}\<rparr>"
| "op_effect (AddRoute r) v = v\<lparr>kv_routes := insert r (kv_routes v)\<rparr>"
| "op_effect (DelRoute r) v = v\<lparr>kv_routes := kv_routes v - {r}\<rparr>"

text \<open>The requests netd makes: what it adds or deletes is its to manage.\<close>

fun op_ok :: "op \<Rightarrow> bool" where
  "op_ok (LinkDown i) = False"
| "op_ok (AddAddress a b) = (manageable a \<and> \<not> a_tentative a)"
| "op_ok (DelAddress a) = manageable a"
| "op_ok (AddRoute r) = (r_protocol r = RTPROT_NETD)"
| "op_ok (DelRoute r) = (r_protocol r = RTPROT_NETD)"
| "op_ok _ = True"

text \<open>
  A kernel: a request that succeeds has its effect, one that fails has none, and
  the errors netd calls benign mean that there was nothing to do.  Nothing is
  said about taking a link down, which also drops what is configured on it.
\<close>

locale rtnl_kernel =
  fixes rtnl :: "'k \<Rightarrow> op \<Rightarrow> 'k \<times> int option option"
    and observe :: "'k \<Rightarrow> observed"
  assumes effective: "op_ok op \<Longrightarrow> rtnl k op = (k', None) \<Longrightarrow>
        view_of (observe k') = op_effect op (view_of (observe k))"
    and failed: "op_ok op \<Longrightarrow> rtnl k op = (k', Some e) \<Longrightarrow>
        view_of (observe k') = view_of (observe k)"
    and nothing_to_do: "op_ok op \<Longrightarrow> rtnl k op = (k', Some e) \<Longrightarrow> benign op e \<Longrightarrow>
        op_effect op (view_of (observe k)) = view_of (observe k)"
begin

lemma applied:
  "apply_ops rtnl k ops = (k', 0) \<Longrightarrow> \<forall>op\<in>set ops. op_ok op \<Longrightarrow>
   view_of (observe k') = foldl (\<lambda>v op. op_effect op v) (view_of (observe k)) ops"
proof (induction ops arbitrary: k)
  case Nil
  then show ?case by simp
next
  case (Cons op ops)
  obtain k1 r where k1: "rtnl k op = (k1, r)" by force
  obtain n where n: "apply_ops rtnl k1 ops = (k', n)"
    using Cons.prems(1) k1 by (auto simp: Let_def split_def prod_eq_iff)
  have b: "n = 0" "\<forall>e. r = Some e \<longrightarrow> benign op e"
    using Cons.prems(1) k1 n by (auto simp: Let_def split: option.splits if_splits)
  have ok: "op_ok op" using Cons.prems(2) by simp
  have "view_of (observe k1) = op_effect op (view_of (observe k))"
    using effective [OF ok, of k k1] failed [OF ok, of k k1] nothing_to_do [OF ok, of k k1] k1 b(2)
    by (cases r) auto
  with Cons.IH [of k1] n b(1) Cons.prems(2) show ?case by simp
qed

end


section \<open>What a plan may touch\<close>

text \<open>The interface and the object a step is about.\<close>

fun op_index :: "op \<Rightarrow> u32" where
  "op_index (LinkUp i) = i"
| "op_index (LinkDown i) = i"
| "op_index (Mtu i m) = i"
| "op_index (AddAddress a b) = a_index a"
| "op_index (DelAddress a) = a_index a"
| "op_index (AddRoute r) = r_index r"
| "op_index (DelRoute r) = r_index r"

lemma set_want_addresses:
  "set (want_addresses d) =
     (\<lambda>(a, p). address_new (d_index d) (V4 a) p) ` set (d_addresses d)
     \<union> (\<lambda>a. \<lparr>a_index = d_index d, a_address = V6 (dv_address a), a_prefix = dv_prefix a,
              a_deprecated = dv_deprecated a, a_no_prefix_route = dv_no_prefix_route a,
              a_tentative = False\<rparr>) ` set (d_addresses6 d)"
  by (simp add: want_addresses_def)

lemma want_addresses_index: "a \<in> set (want_addresses d) \<Longrightarrow> a_index a = d_index d \<and> \<not> a_tentative a"
  by (auto simp: set_want_addresses address_new_def)

lemma set_have_addresses:
  "set (have_addresses ob i) = {a \<in> kv_addresses (view_of ob). a_index a = i}"
  by (auto simp: have_addresses_def addresses_of_def view_of_def erase_tentative_def)

lemma set_have_routes: "set (have_routes ob i) = {r \<in> kv_routes (view_of ob). r_index r = i}"
  by (auto simp: have_routes_def routes_of_def view_of_def)

lemma want_routes_index: "r \<in> set (want_routes d) \<Longrightarrow> r_index r = d_index d \<and> r_protocol r = RTPROT_NETD"
  by (auto simp: want_routes_def default_route_of_def Let_def split: option.splits prod.splits)

lemma plan_index: "op \<in> set (plan ob d) \<Longrightarrow> op_index op = d_index d"
  by (auto simp: plan_def plan_addresses_def plan_routes_def Let_def set_have_addresses set_have_routes
      want_addresses_index want_routes_index split: option.splits if_splits)

lemma plan_del_route:
  assumes "DelRoute r \<in> set (plan ob d)"
  shows "r_protocol r = RTPROT_NETD" "r \<in> set (o_routes ob)" "r \<notin> set (want_routes d)"
  using assms
  by (auto simp: plan_def plan_addresses_def plan_routes_def Let_def set_have_routes view_of_def
      split: option.splits if_splits)

lemma plan_del_address:
  assumes "DelAddress a \<in> set (plan ob d)"
  shows "manageable a" "\<forall>w\<in>set (want_addresses d). \<not> same_address w a"
  using assms
  by (auto simp: plan_def plan_addresses_def plan_routes_def Let_def set_have_addresses view_of_def
      manageable_def erase_tentative_def list_ex_iff split: option.splits if_splits)

lemma plan_link_down: "LinkDown i \<in> set (plan ob d) \<Longrightarrow> \<not> d_up d"
  by (auto simp: plan_def plan_addresses_def plan_routes_def Let_def split: option.splits if_splits)

text \<open>The plan depends on the observed state through the view only.\<close>

lemma have_cong:
  assumes "view_of ob = view_of ob'"
  shows "have_addresses ob i = have_addresses ob' i" "have_routes ob i = have_routes ob' i"
proof -
  have "set (map erase_tentative (filter manageable (addresses_of o1 i))) = set (have_addresses o1 i)"
    "set (filter (\<lambda>r. r_protocol r = RTPROT_NETD) (routes_of o1 i)) = set (have_routes o1 i)" for o1
    by (simp_all add: have_addresses_def have_routes_def)
  then have "set (map erase_tentative (filter manageable (addresses_of ob i)))
      = set (map erase_tentative (filter manageable (addresses_of ob' i)))"
    "set (filter (\<lambda>r. r_protocol r = RTPROT_NETD) (routes_of ob i))
      = set (filter (\<lambda>r. r_protocol r = RTPROT_NETD) (routes_of ob' i))"
    using assms by (simp_all add: set_have_addresses set_have_routes)
  then show "have_addresses ob i = have_addresses ob' i" "have_routes ob i = have_routes ob' i"
    unfolding have_addresses_def have_routes_def
    by (blast intro: bset_cong [OF address_key_inj] bset_cong [OF route_key_inj])+
qed

lemma plan_cong:
  assumes "view_of ob = view_of ob'"
  shows "plan ob d = plan ob' d"
proof -
  have l: "map_option (\<lambda>l. (ln_up l, ln_mtu l)) (bt_get (o_links ob) i)
      = map_option (\<lambda>l. (ln_up l, ln_mtu l)) (bt_get (o_links ob') i)" for i
    using assms by (simp add: view_of_def fun_eq_iff)
  have p: "plan_addresses ob d = plan_addresses ob' d" "plan_routes ob d = plan_routes ob' d"
    by (simp_all add: plan_addresses_def plan_routes_def have_cong [OF assms])
  show ?thesis
    using l [of "d_index d"] unfolding plan_def Let_def p
    by (cases "bt_get (o_links ob) (d_index d)"; cases "bt_get (o_links ob') (d_index d)")
       (simp_all split: option.split)
qed

section \<open>Convergence\<close>

text \<open>No two addresses of a set have the same interface, address and prefix.\<close>

definition keyed :: "address set \<Rightarrow> bool" where
  "keyed as = (\<forall>a\<in>as. \<forall>b\<in>as. same_key a b \<longrightarrow> a = b)"

definition converged :: "kview \<Rightarrow> desired \<Rightarrow> bool" where
  "converged v d =
     ({a \<in> kv_addresses v. a_index a = d_index d} = set (want_addresses d)
      \<and> {r \<in> kv_routes v. r_index r = d_index d} = set (want_routes d)
      \<and> (\<exists>mtu. kv_links v (d_index d) = Some (d_up d, mtu)
               \<and> (\<forall>m. d_mtu d = Some m \<and> 68 \<le> m \<longrightarrow> mtu = m)))"

lemma effect_dels:
  "foldl (\<lambda>v op. op_effect op v) v (map DelAddress as)
   = v\<lparr>kv_addresses := {x \<in> kv_addresses v. \<forall>a\<in>set as. \<not> same_key x a}\<rparr>"
  by (induction as arbitrary: v) (auto intro: kview.equality)

lemma effect_adds:
  "keyed (set as) \<Longrightarrow>
   foldl (\<lambda>v op. op_effect op v) v (map (\<lambda>a. AddAddress a b) as)
   = v\<lparr>kv_addresses := {x \<in> kv_addresses v. \<forall>a\<in>set as. \<not> same_key x a} \<union> set as\<rparr>"
proof (induction as arbitrary: v)
  case Nil
  then show ?case by simp
next
  case (Cons a as)
  have "keyed (set as)" using Cons.prems by (auto simp: keyed_def)
  moreover have "insert a {x \<in> A. \<not> same_key x a} \<inter> {x. \<forall>c\<in>set as. \<not> same_key x c} \<union> set as
      = {x \<in> A. \<forall>c\<in>set (a # as). \<not> same_key x c} \<union> set (a # as)" for A
    using Cons.prems by (auto simp: keyed_def)
  ultimately show ?case using Cons.IH
    by (simp add: Int_def)
qed

lemma effect_route_dels:
  "foldl (\<lambda>v op. op_effect op v) v (map DelRoute rs) = v\<lparr>kv_routes := kv_routes v - set rs\<rparr>"
  by (induction rs arbitrary: v) (auto intro: kview.equality)

lemma effect_route_adds:
  "foldl (\<lambda>v op. op_effect op v) v (map AddRoute rs) = v\<lparr>kv_routes := kv_routes v \<union> set rs\<rparr>"
  by (induction rs arbitrary: v) (auto intro: kview.equality)

lemma same_key_sym: "same_key a b = same_key b a"
  by (auto simp: same_key_def same_address_def)

text \<open>Deleting what no wanted address names and adding the wanted ones that are missing leaves the wanted.\<close>

lemma addresses_converge:
  assumes "keyed A" "keyed W" "\<forall>w\<in>W. a_index w = i"
  defines "H \<equiv> {a \<in> A. a_index a = i}"
  defines "D \<equiv> {a \<in> H. \<forall>w\<in>W. \<not> same_address w a}"
  defines "B \<equiv> {x \<in> {x \<in> A. \<forall>a\<in>D. \<not> same_key x a}. \<forall>a\<in>W - H. \<not> same_key x a} \<union> (W - H)"
  shows "{a \<in> B. a_index a = i} = W" "{a \<in> B. a_index a \<noteq> i} = {a \<in> A. a_index a \<noteq> i}"
proof -
  have one: "x = w" if "x \<in> A" "w \<in> A" "same_key x w" for x w
    using assms(1) that by (auto simp: keyed_def)
  have "x \<in> W" if x: "x \<in> A" "a_index x = i" "\<forall>a\<in>D. \<not> same_key x a" "\<forall>a\<in>W - H. \<not> same_key x a" for x
  proof -
    have "same_key x x" by (simp add: same_key_def same_address_def)
    then have "x \<notin> D" using x(3) by blast
    then obtain w where w: "w \<in> W" "same_address w x"
      using x(1,2) by (auto simp: D_def H_def)
    then have k: "same_key x w" using x(2) assms(3) by (auto simp: same_key_def same_address_def)
    then have "w \<in> H" using x(4) w(1) by blast
    then show ?thesis using one [OF x(1) _ k] w(1) by (simp add: H_def)
  qed
  moreover have "w \<in> B" if "w \<in> W" for w
  proof (cases "w \<in> H")
    case True
    have "\<not> same_key w a" if "a \<in> D" for a
      using that \<open>w \<in> W\<close> by (auto simp: D_def same_key_def)
    moreover have "\<not> same_key w a" if "a \<in> W - H" for a
      using assms(2) that \<open>w \<in> W\<close> True by (auto simp: keyed_def)
    ultimately show ?thesis using True by (auto simp: B_def H_def)
  next
    case False
    with that show ?thesis by (simp add: B_def)
  qed
  ultimately show "{a \<in> B. a_index a = i} = W"
    using assms(3) by (auto simp: B_def)
  show "{a \<in> B. a_index a \<noteq> i} = {a \<in> A. a_index a \<noteq> i}"
    using assms(3) by (auto simp: B_def D_def H_def same_key_def)
qed

lemma effect_plan_addresses:
  assumes "keyed (kv_addresses (view_of ob))" "keyed (set (want_addresses d))"
    "kv_addresses v = kv_addresses (view_of ob)"
  defines "v' \<equiv> foldl (\<lambda>v op. op_effect op v) v (plan_addresses ob d)"
  shows "{a \<in> kv_addresses v'. a_index a = d_index d} = set (want_addresses d)"
    "{a \<in> kv_addresses v'. a_index a \<noteq> d_index d} = {a \<in> kv_addresses v. a_index a \<noteq> d_index d}"
    "kv_links v' = kv_links v" "kv_routes v' = kv_routes v"
proof -
  let ?W = "set (want_addresses d)" and ?A = "kv_addresses v"
  let ?H = "{a \<in> ?A. a_index a = d_index d}"
  let ?D = "{a \<in> ?H. \<forall>w\<in>?W. \<not> same_address w a}"
  have k: "keyed (set (filter (\<lambda>a. a \<notin> set (have_addresses ob (d_index d))) (want_addresses d)))"
    using assms(2) by (auto simp: keyed_def)
  have D: "set (filter (\<lambda>a. \<not> list_ex (\<lambda>w. same_address w a) (want_addresses d)) (have_addresses ob (d_index d))) = ?D"
    by (auto simp: set_have_addresses assms(3) list_ex_iff)
  have N: "set (filter (\<lambda>a. a \<notin> set (have_addresses ob (d_index d))) (want_addresses d)) = ?W - ?H"
    by (auto simp: set_have_addresses assms(3))
  have v': "v' = v\<lparr>kv_addresses := {x \<in> {x \<in> ?A. \<forall>a\<in>?D. \<not> same_key x a}. \<forall>a\<in>?W - ?H. \<not> same_key x a} \<union> (?W - ?H)\<rparr>"
    unfolding v'_def plan_addresses_def Let_def foldl_append effect_dels effect_adds [OF k] D N by simp
  have w: "\<forall>w\<in>?W. a_index w = d_index d" using want_addresses_index by blast
  have kA: "keyed ?A" using assms(1,3) by simp
  show "{a \<in> kv_addresses v'. a_index a = d_index d} = ?W"
    "{a \<in> kv_addresses v'. a_index a \<noteq> d_index d} = {a \<in> kv_addresses v. a_index a \<noteq> d_index d}"
    using addresses_converge [OF kA assms(2) w] unfolding v' by simp_all
  show "kv_links v' = kv_links v" "kv_routes v' = kv_routes v" unfolding v' by simp_all
qed

lemma effect_plan_routes:
  fixes d :: desired
  assumes "kv_routes v = kv_routes (view_of ob)"
  defines "v' \<equiv> foldl (\<lambda>v op. op_effect op v) v (plan_routes ob d)"
  shows "{r \<in> kv_routes v'. r_index r = d_index d} = set (want_routes d)"
    "{r \<in> kv_routes v'. r_index r \<noteq> d_index d} = {r \<in> kv_routes v. r_index r \<noteq> d_index d}"
    "kv_links v' = kv_links v" "kv_addresses v' = kv_addresses v"
proof -
  have v': "v' = v\<lparr>kv_routes := kv_routes v - {r \<in> set (have_routes ob (d_index d)). r \<notin> set (want_routes d)}
      \<union> {r \<in> set (want_routes d). r \<notin> set (have_routes ob (d_index d))}\<rparr>"
    unfolding v'_def plan_routes_def Let_def foldl_append effect_route_dels effect_route_adds by simp
  show "{r \<in> kv_routes v'. r_index r = d_index d} = set (want_routes d)"
    "{r \<in> kv_routes v'. r_index r \<noteq> d_index d} = {r \<in> kv_routes v. r_index r \<noteq> d_index d}"
    using want_routes_index [of _ d] unfolding v' by (auto simp: set_have_routes assms(1))
  show "kv_links v' = kv_links v" "kv_addresses v' = kv_addresses v" unfolding v' by simp_all
qed

text \<open>What the view holds of the other interfaces.\<close>

definition elsewhere :: "kview \<Rightarrow> desired \<Rightarrow> kview" where
  "elsewhere v d =
     \<lparr>kv_links = (kv_links v)(d_index d := None),
      kv_addresses = {a \<in> kv_addresses v. a_index a \<noteq> d_index d},
      kv_routes = {r \<in> kv_routes v. r_index r \<noteq> d_index d}\<rparr>"

lemma effect_plan:
  assumes "keyed (kv_addresses (view_of ob))" "keyed (set (want_addresses d))" "d_up d"
    "bt_get (o_links ob) (d_index d) = Some ln"
  defines "v' \<equiv> foldl (\<lambda>v op. op_effect op v) (view_of ob) (plan ob d)"
  shows "converged v' d" "elsewhere v' d = elsewhere (view_of ob) d"
proof -
  let ?i = "d_index d" and ?v = "view_of ob"
  let ?up = "if \<not> ln_up ln then [LinkUp ?i] else []"
  let ?mtu = "case d_mtu d of Some mtu \<Rightarrow> if mtu \<noteq> ln_mtu ln \<and> 68 \<le> mtu then [Mtu ?i mtu] else [] | None \<Rightarrow> []"
  let ?eff = "foldl (\<lambda>v op. op_effect op v)"
  define v1 where "v1 = ?eff ?v (?up @ ?mtu)"
  have l: "kv_links ?v ?i = Some (ln_up ln, ln_mtu ln)" using assms(4) by (simp add: view_of_def)
  have v1: "kv_addresses v1 = kv_addresses ?v" "kv_routes v1 = kv_routes ?v"
    "\<exists>mtu. kv_links v1 ?i = Some (True, mtu) \<and> (\<forall>m. d_mtu d = Some m \<and> 68 \<le> m \<longrightarrow> mtu = m)"
    using l unfolding v1_def by (auto split: option.split)
  define v2 where "v2 = ?eff v1 (plan_addresses ob d)"
  note a = effect_plan_addresses [OF assms(1,2) v1(1), folded v2_def]
  define v3 where "v3 = ?eff v2 (plan_routes ob d)"
  have "kv_routes v2 = kv_routes ?v" using a(4) v1(2) by simp
  note r = effect_plan_routes [OF this, of d, folded v3_def]
  have "plan ob d = (?up @ ?mtu) @ plan_addresses ob d @ plan_routes ob d"
    using assms(3,4) by (simp add: plan_def Let_def)
  then have v3: "v' = v3" by (simp only: v'_def foldl_append v1_def v2_def v3_def)
  show "converged v' d"
    unfolding v3 converged_def using a(1,3) r(1,3,4) v1(3) assms(3) by simp
  have "kv_links v1 j = kv_links ?v j" if "j \<noteq> ?i" for j
    using that unfolding v1_def by (auto split: option.split)
  then show "elsewhere v' d = elsewhere ?v d"
    unfolding v3 elsewhere_def using a(2-4) r(2-4) v1(1,2) by (auto simp: fun_eq_iff)
qed

lemma plan_converged:
  assumes "converged (view_of ob) d"
  shows "plan ob d = []"
proof -
  have h: "set (have_addresses ob (d_index d)) = set (want_addresses d)"
    "set (have_routes ob (d_index d)) = set (want_routes d)"
    using assms by (simp_all add: converged_def set_have_addresses set_have_routes)
  have "same_address a a" for a by (simp add: same_address_def)
  then have "plan_addresses ob d = []" "plan_routes ob d = []"
    using h by (auto simp: plan_addresses_def plan_routes_def Let_def filter_empty_conv list_ex_iff)
  with assms show ?thesis
    by (auto simp: plan_def Let_def converged_def view_of_def split: option.splits)
qed

text \<open>A desired state netd can converge to: one entry per address, none an IPv6 link-local.\<close>

definition desired_ok :: "desired \<Rightarrow> bool" where
  "desired_ok d = (keyed (set (want_addresses d)) \<and> (\<forall>w\<in>set (want_addresses d). manageable w))"

lemma manageable_erase [simp]: "manageable (erase_tentative a) = manageable a"
  by (simp add: manageable_def erase_tentative_def)

lemma plan_ok:
  assumes "desired_ok d" "d_up d" "op \<in> set (plan ob d)"
  shows "op_ok op"
proof (cases op)
  case (AddAddress a b)
  then have "a \<in> set (want_addresses d)"
    using assms(3) by (auto simp: plan_def plan_addresses_def plan_routes_def Let_def split: option.splits if_splits)
  then show ?thesis using AddAddress assms(1) want_addresses_index by (auto simp: desired_ok_def)
next
  case (AddRoute r)
  then have "r \<in> set (want_routes d)"
    using assms(3) by (auto simp: plan_def plan_addresses_def plan_routes_def Let_def split: option.splits if_splits)
  then show ?thesis using AddRoute want_routes_index by auto
qed (use assms plan_link_down plan_del_address(1) plan_del_route(1) in auto)

lemma kernel_converges:
  assumes "rtnl_kernel rtnl observe" "desired_ok d" "d_up d"
    and "keyed (kv_addresses (view_of (observe k)))"
    and "bt_get (o_links (observe k)) (d_index d) = Some ln"
    and "apply_ops rtnl k (plan (observe k) d) = (k', 0)"
  shows "converged (view_of (observe k')) d"
    "elsewhere (view_of (observe k')) d = elsewhere (view_of (observe k)) d"
proof -
  have "view_of (observe k') = foldl (\<lambda>v op. op_effect op v) (view_of (observe k)) (plan (observe k) d)"
    by (rule rtnl_kernel.applied [OF assms(1,6)]) (use plan_ok [OF assms(2,3)] in blast)
  then show "converged (view_of (observe k')) d"
    "elsewhere (view_of (observe k')) d = elsewhere (view_of (observe k)) d"
    using effect_plan [OF assms(4) _ assms(3,5)] assms(2) by (simp_all add: desired_ok_def)
qed

section \<open>A reference kernel\<close>

text \<open>The documented requests on an observed state, with the errors the kernel gives.\<close>

fun ref_kernel :: "observed \<Rightarrow> op \<Rightarrow> observed \<times> int option option" where
  "ref_kernel ob (LinkUp i) =
     (ob\<lparr>o_links := bt_map (\<lambda>k l. if k = i then l\<lparr>ln_up := True\<rparr> else l) (o_links ob)\<rparr>, None)"
| "ref_kernel ob (LinkDown i) =
     (ob\<lparr>o_links := bt_map (\<lambda>k l. if k = i then l\<lparr>ln_up := False\<rparr> else l) (o_links ob),
         o_routes := filter (\<lambda>r. r_index r \<noteq> i) (o_routes ob)\<rparr>, None)"
| "ref_kernel ob (Mtu i m) =
     (ob\<lparr>o_links := bt_map (\<lambda>k l. if k = i then l\<lparr>ln_mtu := m\<rparr> else l) (o_links ob)\<rparr>, None)"
| "ref_kernel ob (AddAddress a b) =
     (ob\<lparr>o_addresses := filter (\<lambda>x. \<not> same_key x a) (o_addresses ob)
            @ [a\<lparr>a_tentative := (case a_address a of V4 _ \<Rightarrow> False | V6 _ \<Rightarrow> True)\<rparr>]\<rparr>, None)"
| "ref_kernel ob (DelAddress a) =
     (ob\<lparr>o_addresses := filter (\<lambda>x. \<not> same_key x a) (o_addresses ob)\<rparr>, None)"
| "ref_kernel ob (AddRoute r) =
     (if r \<in> set (o_routes ob) then (ob, Some (Some EEXIST))
      else (ob\<lparr>o_routes := o_routes ob @ [r]\<rparr>, None))"
| "ref_kernel ob (DelRoute r) =
     (if r \<notin> set (o_routes ob) then (ob, Some (Some ESRCH))
      else (ob\<lparr>o_routes := removeAll r (o_routes ob)\<rparr>, None))"

lemma same_key_erase [simp]: "same_key (erase_tentative x) a = same_key x a"
  by (simp add: same_key_def same_address_def erase_tentative_def)

lemma ref_kernel_effect:
  "op_ok op \<Longrightarrow> ref_kernel ob op = (ob', None) \<Longrightarrow> view_of ob' = op_effect op (view_of ob)"
proof (cases op)
  case (AddAddress a b)
  assume ok: "op_ok op" "ref_kernel ob op = (ob', None)"
  let ?a = "a\<lparr>a_tentative := (case a_address a of V4 _ \<Rightarrow> False | V6 _ \<Rightarrow> True)\<rparr>"
  have "manageable ?a" "erase_tentative ?a = a"
    using ok(1) AddAddress by (simp_all add: manageable_def erase_tentative_def)
  then have "a \<in> erase_tentative ` {x. (x = ?a \<or> x \<in> set (o_addresses ob) \<and> \<not> same_key x a) \<and> manageable x}"
    by (intro rev_image_eqI [of ?a]) simp_all
  with \<open>erase_tentative ?a = a\<close> show ?thesis using ok(2) AddAddress by (auto simp: view_of_def)
qed (auto simp: view_of_def bt_get_map fun_eq_iff option.map_comp comp_def split: if_splits option.splits)

interpretation ref_kernel: rtnl_kernel ref_kernel "\<lambda>ob. ob"
proof
  show "op_ok op \<Longrightarrow> ref_kernel k op = (k', None) \<Longrightarrow> view_of k' = op_effect op (view_of k)" for op k k'
    by (rule ref_kernel_effect)
  show "op_ok op \<Longrightarrow> ref_kernel k op = (k', Some e) \<Longrightarrow> view_of k' = view_of k" for op k k' e
    by (cases op) (auto split: if_splits)
  show "op_ok op \<Longrightarrow> ref_kernel k op = (k', Some e) \<Longrightarrow> benign op e \<Longrightarrow>
      op_effect op (view_of k) = view_of k" for op k k' e
    by (cases op) (auto simp: view_of_def split: if_splits)
qed

section \<open>Preserved state\<close>

lemma preserve_route_fields [simp]:
  "d_index (preserve_route m d r) = d_index d" "d_addresses (preserve_route m d r) = d_addresses d"
  "d_addresses6 (preserve_route m d r) = d_addresses6 d"
  by (simp_all add: preserve_route_def split: ipaddr.split option.split)

lemma preserve_routes_fields [simp]:
  "d_index (foldl (preserve_route m) d rs) = d_index d"
  "d_addresses (foldl (preserve_route m) d rs) = d_addresses d"
  by (induction rs arbitrary: d) simp_all

lemma preserve_routes_keep:
  "set (d_routes d) \<subseteq> set (d_routes (foldl (preserve_route m) d rs))"
proof (induction rs arbitrary: d)
  case (Cons r rs)
  have "set (d_routes d) \<subseteq> set (d_routes (preserve_route m d r))"
    by (auto simp: preserve_route_def split: ipaddr.split option.split)
  then show ?case using Cons.IH [of "preserve_route m d r"] by auto
qed simp

lemma preserve_default_keep:
  "d_default_route d = Some x \<Longrightarrow> d_default_route (foldl (preserve_route m) d rs) = Some x"
proof (induction rs arbitrary: d)
  case (Cons r rs)
  have "d_default_route (preserve_route m d r) = Some x"
    using Cons.prems by (auto simp: preserve_route_def split: ipaddr.split option.split)
  then show ?case using Cons.IH by simp
qed simp

lemma preserve_routes_in:
  assumes "r \<in> set rs" "r_destination r = V4 dst" "r_gateway r = Some (V4 g)" "\<not> route_is_default r"
  shows "(dst, r_prefix r, g, m) \<in> set (d_routes (foldl (preserve_route m) d rs))"
  using assms(1)
proof (induction rs arbitrary: d)
  case (Cons r' rs)
  show ?case
  proof (cases "r' = r")
    case True
    have "(dst, r_prefix r, g, m) \<in> set (d_routes (preserve_route m d r))"
      using assms(2-4) by (simp add: preserve_route_def)
    then show ?thesis using preserve_routes_keep [of "preserve_route m d r" m rs] True by auto
  next
    case False
    with Cons show ?thesis by simp
  qed
qed simp

text \<open>The route an observed default route turns into, when it is the only one.\<close>

lemma preserve_routes_default:
  assumes "r \<in> set rs" "r_destination r = V4 dst" "r_gateway r = Some (V4 g)" "route_is_default r"
    and "\<forall>r'\<in>set rs. route_is_default r' \<longrightarrow> r' = r" "d_default_route d = None"
  shows "d_default_route (foldl (preserve_route m) d rs) = Some (g, m)"
  using assms(1,5,6)
proof (induction rs arbitrary: d)
  case (Cons r' rs)
  show ?case
  proof (cases "r' = r")
    case True
    have "d_default_route (preserve_route m d r) = Some (g, m)"
      using assms(2-4) Cons.prems(3) by (simp add: preserve_route_def)
    then show ?thesis using preserve_default_keep True by simp
  next
    case False
    then have "\<not> route_is_default r'" using Cons.prems(2) by auto
    then have "d_default_route (preserve_route m d r') = None"
      using Cons.prems(3) by (simp add: preserve_route_def split: ipaddr.split option.split)
    with Cons False show ?thesis by simp
  qed
qed simp

lemma capture_fields:
  assumes "restart_capture ob i (Some req) = Some rs"
  shows "set (rs_addresses rs) = (\<lambda>a. (req, a_prefix a)) ` {a \<in> set (o_addresses ob). a_index a = i \<and> a_address a = V4 req}"
    "set (rs_routes rs) = {r \<in> set (o_routes ob). r_index r = i \<and> route_is_v4 r \<and> r_protocol r = RTPROT_NETD}"
  using assms by (auto simp: restart_capture_def Let_def addresses_of_def routes_of_def split: if_splits)

lemma preserve_addresses:
  "d_addresses (restart_preserve rs d offered m) = d_addresses d @ rs_addresses rs"
  "d_index (restart_preserve rs d offered m) = d_index d"
  by (simp_all add: restart_preserve_def Let_def)

lemma preserved_address_kept:
  assumes "restart_capture ob (d_index d) (Some req) = Some rs" "a_address a = V4 req"
  shows "DelAddress a \<notin> set (plan ob (restart_preserve rs d offered m))"
proof
  let ?d = "restart_preserve rs d offered m"
  assume del: "DelAddress a \<in> set (plan ob ?d)"
  have "a \<in> set (have_addresses ob (d_index d))"
    using del preserve_addresses(2) [of rs d offered m]
    by (auto simp: plan_def plan_addresses_def plan_routes_def Let_def split: option.splits if_splits)
  then have "(req, a_prefix a) \<in> set (rs_addresses rs)"
    unfolding capture_fields(1) [OF assms(1)] set_have_addresses
    using assms(2) by (auto simp: view_of_def erase_tentative_def)
  then have "address_new (d_index d) (V4 req) (a_prefix a) \<in> set (want_addresses ?d)"
    by (force simp: set_want_addresses preserve_addresses)
  moreover have "same_address (address_new (d_index d) (V4 req) (a_prefix a)) a"
    using assms(2) by (simp add: same_address_def address_new_def)
  ultimately show False using plan_del_address(2) [OF del] by blast
qed

lemma preserved_route_kept:
  assumes "restart_capture ob (d_index d) (Some req) = Some rs" "r \<in> set (rs_routes rs)"
    and "r_gateway r = Some (V4 g)" "r_metric r = m"
    and "route_is_default r \<Longrightarrow> r_destination r = V4 0 \<and> d_default_route d = None
           \<and> (\<forall>r'\<in>set (rs_routes rs). route_is_default r' \<longrightarrow> r' = r)"
  shows "DelRoute r \<notin> set (plan ob (restart_preserve rs d True m))"
proof
  let ?d = "restart_preserve rs d True m"
  let ?base = "d\<lparr>d_addresses := d_addresses d @ rs_addresses rs\<rparr>"
  assume del: "DelRoute r \<in> set (plan ob ?d)"
  have d: "?d = foldl (preserve_route m) ?base (rs_routes rs)"
    by (simp add: restart_preserve_def)
  have r: "r_index r = d_index d" "route_is_v4 r" "r_protocol r = RTPROT_NETD"
    using assms(2) capture_fields(2) [OF assms(1)] by auto
  then obtain dst where dst: "r_destination r = V4 dst" by (auto simp: route_is_v4_def split: ipaddr.splits)
  have "r \<in> set (want_routes ?d)"
  proof (cases "route_is_default r")
    case True
    have "d_default_route ?d = Some (g, m)"
      unfolding d using assms(5) [OF True]
      by (intro preserve_routes_default [OF assms(2) dst assms(3) True]) auto
    moreover have "r = default_route_of (d_index ?d) (V4 0) (V4 g) m"
      using r True assms(3-5) by (cases r) (auto simp: default_route_of_def preserve_addresses route_is_default_def)
    ultimately show ?thesis by (simp add: want_routes_def)
  next
    case False
    have "(dst, r_prefix r, g, m) \<in> set (d_routes ?d)"
      unfolding d by (rule preserve_routes_in [OF assms(2) dst assms(3) False])
    moreover have "r = \<lparr>r_index = d_index ?d, r_destination = V4 dst, r_prefix = r_prefix r,
        r_gateway = Some (V4 g), r_metric = m, r_protocol = RTPROT_NETD\<rparr>"
      using r dst assms(3,4) by (cases r) (auto simp: preserve_addresses)
    ultimately show ?thesis by (force simp: want_routes_def)
  qed
  with plan_del_route(3) [OF del] show False by blast
qed

section \<open>The properties of the reconciler\<close>

text \<open>
  C14: netd owns what it configured and nothing else.  Every step of a plan is about the
  interface it was made for; it deletes a route only if that route was observed,
  carries netd's protocol number and is not wanted, and an address only if it is
  not an IPv6 link-local and no wanted address has its address and prefix.
\<close>

theorem plan_owns_only_its_own:
  assumes "op \<in> set (plan ob d)"
  shows "op_index op = d_index d
    \<and> (\<forall>r. op = DelRoute r \<longrightarrow> r \<in> set (o_routes ob) \<and> r_protocol r = RTPROT_NETD \<and> r \<notin> set (want_routes d))
    \<and> (\<forall>a. op = DelAddress a \<longrightarrow> manageable a \<and> (\<forall>w\<in>set (want_addresses d). \<not> same_address w a))"
  using assms plan_index plan_del_route plan_del_address by blast

definition ex_link :: link where
  "ex_link = \<lparr>ln_index = 2, ln_name = ''eth0'', ln_mac = None, ln_up = False, ln_carrier = False,
              ln_loopback = False, ln_mtu = 1500, ln_link_type = 1, ln_kind = Ether\<rparr>"

definition ex_observed :: observed where
  "ex_observed =
     \<lparr>o_links = [(2, ex_link)],
      o_addresses = [address_new 2 (V4 0x0A000001) 8],
      o_routes = [default_route_of 2 (V4 0) (V4 0x0A0000FE) 7]\<rparr>"

definition ex_desired :: desired where
  "ex_desired =
     \<lparr>d_index = 2, d_up = True, d_mtu = Some 1400, d_addresses = [(0xC000020A, 24)], d_addresses6 = [],
      d_broadcast = None, d_default_route = Some (0xC0000201, 100), d_default_route6 = None, d_routes = []\<rparr>"

lemma ex_want: "want_addresses ex_desired = [address_new 2 (V4 0xC000020A) 24]"
  "want_routes ex_desired = [default_route_of 2 (V4 0) (V4 0xC0000201) 100]"
  by (simp_all add: want_addresses_def want_routes_def ex_desired_def bset_def)

lemma ex_plan: "plan ex_observed ex_desired =
    [LinkUp 2, Mtu 2 1400, DelAddress (address_new 2 (V4 0x0A000001) 8),
     AddAddress (address_new 2 (V4 0xC000020A) 24) None,
     DelRoute (default_route_of 2 (V4 0) (V4 0x0A0000FE) 7),
     AddRoute (default_route_of 2 (V4 0) (V4 0xC0000201) 100)]"
  unfolding plan_def plan_addresses_def plan_routes_def ex_want
  by (simp add: ex_observed_def ex_desired_def ex_link_def bt_get_def have_addresses_def have_routes_def
      addresses_of_def routes_of_def bset_def manageable_def erase_tentative_def address_new_def
      default_route_of_def same_address_def)

theorem plan_owns_only_its_own_witness:
  "DelRoute (default_route_of 2 (V4 0) (V4 0x0A0000FE) 7) \<in> set (plan ex_observed ex_desired)
   \<and> r_protocol (default_route_of 2 (V4 0) (V4 0x0A0000FE) 7) = RTPROT_NETD"
  using plan_owns_only_its_own
    [of "DelRoute (default_route_of 2 (V4 0) (V4 0x0A0000FE) 7)" ex_observed ex_desired]
  by (simp add: ex_plan)




end
