(* ===== verification/Ip_Text.thy ===== *)
theory Ip_Text
  imports Net_Model
begin

text \<open>
  The text functions of the Rust standard library that configuration and reports
  use: \<^verbatim>\<open>trim\<close>, \<^verbatim>\<open>split_once\<close>, decimal numbers, and the parser and the printer of
  internet addresses (\<^verbatim>\<open>core::net\<close>), over strings as UTF-8 bytes.
\<close>

section \<open>Trimming and splitting\<close>

text \<open>The UTF-8 encodings of the characters with the property \<^verbatim>\<open>White_Space\<close>.\<close>

definition white_space :: "rstring list" where
  "white_space =
     map of_bytes
       ([[9], [10], [11], [12], [13], [32], [0xC2, 0x85], [0xC2, 0xA0], [0xE1, 0x9A, 0x80]]
        @ map (\<lambda>b. [0xE2, 0x80, b]) [0x80, 0x81, 0x82, 0x83, 0x84, 0x85, 0x86, 0x87, 0x88, 0x89, 0x8A, 0xA8, 0xA9, 0xAF]
        @ [[0xE2, 0x81, 0x9F], [0xE3, 0x80, 0x80]])"

function strip :: "rstring list \<Rightarrow> rstring \<Rightarrow> rstring" where
  "strip ws s =
     (case List.find (\<lambda>w. w \<noteq> [] \<and> take (length w) s = w) ws of
        Some w \<Rightarrow> strip ws (drop (length w) s)
      | None \<Rightarrow> s)"
  by pat_completeness auto
termination
proof (relation "measure (\<lambda>(ws, s). length s)")
  fix ws and s w :: rstring
  assume "List.find (\<lambda>w. w \<noteq> [] \<and> take (length w) s = w) ws = Some w"
  then have "w \<noteq> [] \<and> take (length w) s = w" by (auto simp: find_Some_iff)
  then show "((ws, drop (length w) s), ws, s) \<in> measure (\<lambda>(ws, s). length s)"
    by (cases w; cases s) auto
qed simp

declare strip.simps [simp del]

definition trim :: "rstring \<Rightarrow> rstring" where
  "trim s = rev (strip (map rev white_space) (rev (strip white_space s)))"

text \<open>\<^verbatim>\<open>split_once\<close> at the first occurrence of an ASCII character.\<close>

definition split_once :: "char \<Rightarrow> rstring \<Rightarrow> (rstring \<times> rstring) option" where
  "split_once c s =
     (if c \<in> set s then Some (takeWhile (\<lambda>x. x \<noteq> c) s, tl (dropWhile (\<lambda>x. x \<noteq> c) s)) else None)"

section \<open>Numbers\<close>

text \<open>\<^verbatim>\<open>char::to_digit\<close>.\<close>

definition to_digit :: "nat \<Rightarrow> char \<Rightarrow> nat option" where
  "to_digit radix c =
     (let k = ascii_code c;
          d = (if is_ascii_digit c then k - 48
               else if is_ascii_lowercase c then k - 87
               else if is_ascii_uppercase c then k - 55 else radix)
      in if d < radix then Some d else None)"

definition digits_value :: "nat \<Rightarrow> rstring \<Rightarrow> nat" where
  "digits_value radix s = foldl (\<lambda>a c. a * radix + the (to_digit radix c)) 0 s"

text \<open>
  \<^verbatim>\<open>str::parse\<close> of an unsigned integer whose maximum is given: an optional plus, at
  least one digit, no overflow.
\<close>

definition parse_uint :: "nat \<Rightarrow> rstring \<Rightarrow> nat option" where
  "parse_uint maximum s =
     (let ds = (case s of c # r \<Rightarrow> if c = CHR ''+'' then r else s | [] \<Rightarrow> [])
      in if ds \<noteq> [] \<and> list_all is_ascii_digit ds \<and> digits_value 10 ds \<le> maximum
         then Some (digits_value 10 ds) else None)"

function nat_text :: "nat \<Rightarrow> rstring" where
  "nat_text n = (if n < 10 then [hex_digit n] else nat_text (n div 10) @ [hex_digit (n mod 10)])"
  by pat_completeness auto
termination by (relation "measure (\<lambda>n. n)") auto

function hex_text :: "nat \<Rightarrow> rstring" where
  "hex_text n = (if n < 16 then [hex_digit n] else hex_text (n div 16) @ [hex_digit (n mod 16)])"
  by pat_completeness auto
termination by (relation "measure (\<lambda>n. n)") auto

declare nat_text.simps [simp del] hex_text.simps [simp del]

definition int_text :: "int \<Rightarrow> rstring" where
  "int_text i = (if i < 0 then CHR ''-'' # nat_text (nat (- i)) else nat_text (nat i))"

section \<open>Reading addresses\<close>

text \<open>
  The parser of \<^verbatim>\<open>core::net\<close>: each reader takes the rest of the text and returns what
  it read and what is left, or nothing, which leaves the text where it was.
\<close>

definition read_number :: "nat \<Rightarrow> nat \<Rightarrow> bool \<Rightarrow> nat \<Rightarrow> rstring \<Rightarrow> (nat \<times> rstring) option" where
  "read_number radix max_digits allow_zero_prefix limit s =
     (let ds = takeWhile (\<lambda>c. to_digit radix c \<noteq> None) s
      in if ds = [] \<or> max_digits < length ds
            \<or> \<not> allow_zero_prefix \<and> hd ds = CHR ''0'' \<and> 1 < length ds
            \<or> limit \<le> digits_value radix ds
         then None else Some (digits_value radix ds, drop (length ds) s))"

definition read_separator :: "char \<Rightarrow> nat \<Rightarrow> (rstring \<Rightarrow> ('a \<times> rstring) option) \<Rightarrow> rstring \<Rightarrow> ('a \<times> rstring) option" where
  "read_separator sep i inner s =
     (if 0 < i then (case s of c # r \<Rightarrow> if c = sep then inner r else None | [] \<Rightarrow> None) else inner s)"

fun read_octets :: "nat \<Rightarrow> nat \<Rightarrow> rstring \<Rightarrow> (nat list \<times> rstring) option" where
  "read_octets i 0 s = Some ([], s)"
| "read_octets i (Suc n) s =
     (case read_separator CHR ''.'' i (read_number 10 3 False 256) s of
        None \<Rightarrow> None
      | Some (k, r) \<Rightarrow> map_option (\<lambda>(ks, r'). (k # ks, r')) (read_octets (i + 1) n r))"

definition read_ipv4_addr :: "rstring \<Rightarrow> (nat list \<times> rstring) option" where
  "read_ipv4_addr s = read_octets 0 4 s"

fun read_groups :: "nat \<Rightarrow> nat \<Rightarrow> rstring \<Rightarrow> nat list \<times> bool \<times> rstring" where
  "read_groups i 0 s = ([], False, s)"
| "read_groups i (Suc n) s =
     (case (if 0 < n then read_separator CHR '':'' i read_ipv4_addr s else None) of
        Some (v4, r) \<Rightarrow> ([v4 ! 0 * 256 + v4 ! 1, v4 ! 2 * 256 + v4 ! 3], True, r)
      | None \<Rightarrow>
          (case read_separator CHR '':'' i (read_number 16 4 True 65536) s of
             Some (g, r) \<Rightarrow> (let (gs, v4, r') = read_groups (i + 1) n r in (g # gs, v4, r'))
           | None \<Rightarrow> ([], False, s)))"

definition read_ipv6_addr :: "rstring \<Rightarrow> (nat list \<times> rstring) option" where
  "read_ipv6_addr s =
     (let (head, head_ipv4, r) = read_groups 0 8 s
      in if length head = 8 then Some (head, r)
         else if head_ipv4 then None
         else if take 2 r \<noteq> ''::'' then None
         else (let (back, back_ipv4, r') = read_groups 0 (8 - (length head + 1)) (drop 2 r)
               in Some (head @ replicate (8 - length head - length back) 0 @ back, r')))"

definition ipv4_of_octets :: "nat list \<Rightarrow> ipv4" where
  "ipv4_of_octets ks = word_of_nat (foldl (\<lambda>a k. a * 256 + k) 0 ks)"

definition ipv6_of_groups :: "nat list \<Rightarrow> ipv6" where
  "ipv6_of_groups gs = word_of_nat (foldl (\<lambda>a g. a * 65536 + g) 0 gs)"

text \<open>\<^verbatim>\<open>IpAddr::from_str\<close>: version 4, else version 6, and nothing may be left.\<close>

definition parse_ip :: "rstring \<Rightarrow> ipaddr option" where
  "parse_ip s =
     (case read_ipv4_addr s of
        Some (ks, r) \<Rightarrow> if r = [] then Some (V4 (ipv4_of_octets ks)) else None
      | None \<Rightarrow>
          (case read_ipv6_addr s of
             Some (gs, r) \<Rightarrow> if r = [] then Some (V6 (ipv6_of_groups gs)) else None
           | None \<Rightarrow> None))"

section \<open>Printing addresses\<close>

definition ipv4_text :: "ipv4 \<Rightarrow> rstring" where
  "ipv4_text a = join_with ''.'' (map (\<lambda>b. nat_text (unat b)) (octets4 a))"

definition segments6 :: "ipv6 \<Rightarrow> nat list" where
  "segments6 a = map be_nat (as_chunks 2 (octets6 a))"

text \<open>The first of the longest runs of zero segments: where it starts and its length.\<close>

fun longest_zeroes :: "nat \<Rightarrow> nat \<times> nat \<Rightarrow> nat \<times> nat \<Rightarrow> nat list \<Rightarrow> nat \<times> nat" where
  "longest_zeroes i current longest [] = longest"
| "longest_zeroes i (start, len) longest (g # gs) =
     (if g = 0 then
        (let current = (if len = 0 then i else start, len + 1)
         in longest_zeroes (i + 1) current (if snd longest < snd current then current else longest) gs)
      else longest_zeroes (i + 1) (0, 0) longest gs)"

definition ipv6_text :: "ipv6 \<Rightarrow> rstring" where
  "ipv6_text a =
     (let gs = segments6 a; hexes = (\<lambda>gs. join_with '':'' (map hex_text gs))
      in if take 6 gs = [0, 0, 0, 0, 0, 0xffff] then ''::ffff:'' @ ipv4_text (ucast a)
         else (case longest_zeroes 0 (0, 0) (0, 0) gs of
                 (start, len) \<Rightarrow>
                   if 1 < len then hexes (take start gs) @ ''::'' @ hexes (drop (start + len) gs)
                   else hexes gs))"

fun ip_text :: "ipaddr \<Rightarrow> rstring" where
  "ip_text (V4 a) = ipv4_text a"
| "ip_text (V6 a) = ipv6_text a"

end
