(* ===== verification/Profile.thy ===== *)
theory Profile
  imports Ip_Text
begin

text \<open>
  The machine's name (\<^verbatim>\<open>netd-core/src/hostname.rs\<close>), the neutral registry tree
  (\<^verbatim>\<open>raw.rs\<close>) and the profile tree with its inheritance (\<^verbatim>\<open>profile.rs\<close>).
\<close>

section \<open>The machine's name\<close>

abbreviation (input) MAX_HOSTNAME :: nat where "MAX_HOSTNAME \<equiv> 63"

text \<open>Why a name is refused; the code's error is a sentence for each.\<close>

datatype hostname_error = NameEmpty | NameSpace | NameDot | NameCharacter | NameTooLong | NameHyphen | NameLocalhost

definition hostname_char :: "char \<Rightarrow> bool" where
  "hostname_char c = (is_ascii_alphanumeric c \<or> c = CHR ''-'')"

definition hostname_check :: "rstring \<Rightarrow> hostname_error + rstring" where
  "hostname_check answered =
     (let name = trim answered
      in if name = [] then Inl NameEmpty
         else (case List.find (\<lambda>c. \<not> hostname_char c) name of
                 Some c \<Rightarrow> Inl (if c = CHR '' '' then NameSpace else if c = CHR ''.'' then NameDot else NameCharacter)
               | None \<Rightarrow>
                   if MAX_HOSTNAME < length name then Inl NameTooLong
                   else if hd name = CHR ''-'' \<or> last name = CHR ''-'' then Inl NameHyphen
                   else if eq_ignore_ascii_case name ''localhost'' then Inl NameLocalhost
                   else Inr name))"

section \<open>Registry keys\<close>

text \<open>An \<^verbatim>\<open>i64\<close> is the integer it stands for.\<close>

datatype raw_value = RInt int | RStr rstring | RList "rstring list" | ROther

datatype raw_key = RawKey (rk_name: rstring) (rk_values: "(rstring \<times> raw_value) list") (rk_children: "raw_key list")

section \<open>Profiles\<close>

datatype on_expiry = ExpiryDrop | ExpiryKeep

record static_address =
  sa_address :: ipaddr
  sa_prefix :: u8

record address_config =
  ac_offered :: bool
  ac_ipv4 :: bool
  ac_ipv6 :: bool
  ac_statics :: "static_address list"
  ac_link_local :: bool
  ac_temporary :: bool
  ac_on_expiry :: on_expiry
  ac_route_offered :: bool
  ac_gateway :: "ipv4 option"
  ac_gateway6 :: "ipv6 option"
  ac_route_metric :: "u32 option"
  ac_mtu_offered :: bool
  ac_mtu :: "u32 option"
  ac_announce_hostname :: bool
  ac_accept_hostname :: bool

definition address_config_default :: address_config where
  "address_config_default =
     \<lparr>ac_offered = False, ac_ipv4 = True, ac_ipv6 = True, ac_statics = [], ac_link_local = False,
      ac_temporary = False, ac_on_expiry = ExpiryDrop, ac_route_offered = False, ac_gateway = None,
      ac_gateway6 = None, ac_route_metric = None, ac_mtu_offered = False, ac_mtu = None,
      ac_announce_hostname = False, ac_accept_hostname = False\<rparr>"

definition ac_dhcp4 :: "address_config \<Rightarrow> bool" where
  "ac_dhcp4 a = (ac_offered a \<and> ac_ipv4 a)"

definition ac_autoconf6 :: "address_config \<Rightarrow> bool" where
  "ac_autoconf6 a = (ac_offered a \<and> ac_ipv6 a)"

record dns_config =
  dc_servers :: "ipaddr list"
  dc_domains :: "rstring list"
  dc_offered :: bool
  dc_default_route :: "bool option"
  dc_exclusive :: bool

definition dns_config_default :: dns_config where
  "dns_config_default =
     \<lparr>dc_servers = [], dc_domains = [], dc_offered = False, dc_default_route = None, dc_exclusive = False\<rparr>"

record profile =
  pf_path :: rstring
  pf_enabled :: bool
  pf_address :: address_config
  pf_dns :: dns_config

definition VOCABULARY :: "rstring list" where
  "VOCABULARY =
     [''address.offered'', ''address.families'', ''address.static'', ''address.linklocal'',
      ''address.temporary'', ''address.onexpiry'', ''route.offered'', ''route.gateway'',
      ''route.metric'', ''dns.offered'', ''dns.servers'', ''dns.domains'', ''dns.default'',
      ''dns.exclusive'', ''hostname.offered'', ''hostname.announce'', ''mtu.offered'', ''mtu.value'']"

text \<open>The refusals; the code formats each with the profile's path first.\<close>

datatype profile_error =
    BadKeyName rstring rstring
  | EnabledNotBool rstring
  | UnknownValue rstring rstring
  | WrongShape rstring rstring
  | BadItem rstring rstring rstring
  | MtuBelow68 rstring u32

fun as_bool :: "raw_value \<Rightarrow> bool option" where
  "as_bool (RInt i) = Some (i \<noteq> 0)"
| "as_bool (RStr s) =
     (let l = to_ascii_lowercase s
      in if l \<in> set [''on'', ''yes'', ''true'', ''1''] then Some True
         else if l \<in> set [''off'', ''no'', ''false'', ''0''] then Some False else None)"
| "as_bool _ = None"

fun as_u32 :: "raw_value \<Rightarrow> u32 option" where
  "as_u32 (RInt i) = (if 0 \<le> i \<and> i < 2 ^ 32 then Some (word_of_int i) else None)"
| "as_u32 (RStr s) = map_option word_of_nat (parse_uint (2 ^ 32 - 1) (trim s))"
| "as_u32 _ = None"

fun as_list :: "raw_value \<Rightarrow> rstring list option" where
  "as_list (RList items) = Some (filter (\<lambda>s. s \<noteq> []) items)"
| "as_list (RStr s) = (if s = [] then Some [] else Some [s])"
| "as_list _ = None"

fun as_str :: "raw_value \<Rightarrow> rstring option" where
  "as_str (RStr s) = Some s"
| "as_str (RInt i) = Some (int_text i)"
| "as_str _ = None"

definition parse_cidr :: "rstring \<Rightarrow> static_address option" where
  "parse_cidr s =
     (case split_once CHR ''/'' s of
        None \<Rightarrow> None
      | Some (a, p) \<Rightarrow>
          (case parse_ip (trim a) of
             None \<Rightarrow> None
           | Some addr \<Rightarrow>
               (let bits = (case addr of V4 _ \<Rightarrow> 32 | V6 _ \<Rightarrow> 128)
                in case parse_uint 255 (trim p) of
                     None \<Rightarrow> None
                   | Some n \<Rightarrow>
                       if n \<le> bits then Some \<lparr>sa_address = addr, sa_prefix = word_of_nat n\<rparr> else None)))"

text \<open>\<^verbatim>\<open>ok_or_else(..)?\<close> and then the assignment.\<close>

definition ok_or :: "'e \<Rightarrow> 'a option \<Rightarrow> ('a \<Rightarrow> 'e + 'b) \<Rightarrow> 'e + 'b" where
  "ok_or e x f = (case x of None \<Rightarrow> Inl e | Some a \<Rightarrow> f a)"

text \<open>\<^verbatim>\<open>collect::<Result<_, _>>\<close>: the first error, or all the results.\<close>

fun collect_result :: "('a \<Rightarrow> 'e + 'b) \<Rightarrow> 'a list \<Rightarrow> 'e + 'b list" where
  "collect_result f [] = Inr []"
| "collect_result f (x # xs) =
     (case f x of Inl e \<Rightarrow> Inl e
      | Inr y \<Rightarrow> (case collect_result f xs of Inl e \<Rightarrow> Inl e | Inr ys \<Rightarrow> Inr (y # ys)))"

text \<open>A loop that returns at the first error.\<close>

fun fold_result :: "('s \<Rightarrow> 'a \<Rightarrow> 'e + 's) \<Rightarrow> 's \<Rightarrow> 'a list \<Rightarrow> 'e + 's" where
  "fold_result f s [] = Inr s"
| "fold_result f s (x # xs) = (case f s x of Inl e \<Rightarrow> Inl e | Inr s' \<Rightarrow> fold_result f s' xs)"

definition parse_family :: "rstring \<Rightarrow> address_config \<Rightarrow> rstring \<Rightarrow> profile_error + address_config" where
  "parse_family path a f =
     (let l = to_ascii_lowercase f
      in if l = ''ipv4'' then Inr (a\<lparr>ac_ipv4 := True\<rparr>)
         else if l = ''ipv6'' then Inr (a\<lparr>ac_ipv6 := True\<rparr>)
         else Inl (BadItem path ''Address.Families'' f))"

definition parse_gateway :: "rstring \<Rightarrow> address_config \<Rightarrow> rstring \<Rightarrow> profile_error + address_config" where
  "parse_gateway path a g =
     (case parse_ip (trim g) of
        Some (V4 v4) \<Rightarrow> Inr (a\<lparr>ac_gateway := Some v4\<rparr>)
      | Some (V6 v6) \<Rightarrow> Inr (a\<lparr>ac_gateway6 := Some v6\<rparr>)
      | None \<Rightarrow> Inl (BadItem path ''Route.Gateway'' g))"

text \<open>One value of the loop in \<^verbatim>\<open>parse\<close>.\<close>

definition parse_value ::
    "rstring \<Rightarrow> address_config \<times> dns_config \<Rightarrow> rstring \<times> raw_value \<Rightarrow> profile_error + address_config \<times> dns_config" where
  "parse_value path ad nv =
     (let (a, d) = ad; (name, value) = nv; bad = WrongShape path name;
          flag = (\<lambda>f. ok_or bad (as_bool value) (\<lambda>b. Inr (f b)))
      in if name = ''address.offered'' then flag (\<lambda>b. (a\<lparr>ac_offered := b\<rparr>, d))
         else if name = ''address.families'' then
           ok_or bad (as_list value) (\<lambda>fs.
             map_sum (\<lambda>e. e) (\<lambda>a'. (a', d))
               (fold_result (parse_family path) (a\<lparr>ac_ipv4 := False, ac_ipv6 := False\<rparr>) fs))
         else if name = ''address.static'' then
           ok_or bad (as_list value) (\<lambda>ss.
             map_sum (\<lambda>e. e) (\<lambda>xs. (a\<lparr>ac_statics := xs\<rparr>, d))
               (collect_result (\<lambda>s. ok_or (BadItem path ''Address.Static'' s) (parse_cidr s) Inr) ss))
         else if name = ''address.linklocal'' then flag (\<lambda>b. (a\<lparr>ac_link_local := b\<rparr>, d))
         else if name = ''address.temporary'' then flag (\<lambda>b. (a\<lparr>ac_temporary := b\<rparr>, d))
         else if name = ''address.onexpiry'' then
           ok_or bad (as_str value) (\<lambda>s.
             let l = to_ascii_lowercase s
             in if l = ''drop'' then Inr (a\<lparr>ac_on_expiry := ExpiryDrop\<rparr>, d)
                else if l = ''keep'' then Inr (a\<lparr>ac_on_expiry := ExpiryKeep\<rparr>, d)
                else Inl (BadItem path ''Address.OnExpiry'' l))
         else if name = ''route.offered'' then flag (\<lambda>b. (a\<lparr>ac_route_offered := b\<rparr>, d))
         else if name = ''route.gateway'' then
           ok_or bad (as_list value) (\<lambda>gs.
             map_sum (\<lambda>e. e) (\<lambda>a'. (a', d))
               (fold_result (parse_gateway path) (a\<lparr>ac_gateway := None, ac_gateway6 := None\<rparr>) gs))
         else if name = ''route.metric'' then
           ok_or bad (as_u32 value) (\<lambda>m. Inr (a\<lparr>ac_route_metric := Some m\<rparr>, d))
         else if name = ''mtu.offered'' then flag (\<lambda>b. (a\<lparr>ac_mtu_offered := b\<rparr>, d))
         else if name = ''mtu.value'' then
           ok_or bad (as_u32 value) (\<lambda>v.
             if v < 68 then Inl (MtuBelow68 path v) else Inr (a\<lparr>ac_mtu := Some v\<rparr>, d))
         else if name = ''hostname.announce'' then flag (\<lambda>b. (a\<lparr>ac_announce_hostname := b\<rparr>, d))
         else if name = ''hostname.offered'' then flag (\<lambda>b. (a\<lparr>ac_accept_hostname := b\<rparr>, d))
         else if name = ''dns.offered'' then flag (\<lambda>b. (a, d\<lparr>dc_offered := b\<rparr>))
         else if name = ''dns.servers'' then
           ok_or bad (as_list value) (\<lambda>ss.
             map_sum (\<lambda>e. e) (\<lambda>xs. (a, d\<lparr>dc_servers := xs\<rparr>))
               (collect_result (\<lambda>s. ok_or (BadItem path ''Dns.Servers'' s) (parse_ip (trim s)) Inr) ss))
         else if name = ''dns.domains'' then
           ok_or bad (as_list value) (\<lambda>ss. Inr (a, d\<lparr>dc_domains := ss\<rparr>))
         else if name = ''dns.default'' then flag (\<lambda>b. (a, d\<lparr>dc_default_route := Some b\<rparr>))
         else if name = ''dns.exclusive'' then flag (\<lambda>b. (a, d\<lparr>dc_exclusive := b\<rparr>))
         else Inl (UnknownValue path name))"

definition in_family :: "address_config \<Rightarrow> static_address \<Rightarrow> bool" where
  "in_family a s = (case sa_address s of V4 _ \<Rightarrow> ac_ipv4 a | V6 _ \<Rightarrow> ac_ipv6 a)"

definition parse_profile ::
    "rstring \<Rightarrow> (rstring, raw_value) btree \<Rightarrow> profile_error + address_config \<times> dns_config" where
  "parse_profile path values =
     (case fold_result (parse_value path) (address_config_default, dns_config_default) values of
        Inl e \<Rightarrow> Inl e
      | Inr (a, d) \<Rightarrow> Inr (a\<lparr>ac_statics := filter (in_family a) (ac_statics a)\<rparr>, d))"

text \<open>One value of a key: \<^verbatim>\<open>Enabled\<close>, or one the key sets for itself and its subtree.\<close>

definition walk_value ::
    "rstring \<Rightarrow> (rstring, raw_value) btree \<times> bool \<Rightarrow> rstring \<times> raw_value
      \<Rightarrow> profile_error + (rstring, raw_value) btree \<times> bool" where
  "walk_value path st nv =
     (let (effective, enabled) = st; (name, value) = nv; lower = to_ascii_lowercase name
      in if lower = ''enabled'' then
           (case as_bool value of
              Some b \<Rightarrow> Inr (effective, enabled \<and> b)
            | None \<Rightarrow> Inl (EnabledNotBool path))
         else if lower \<notin> set VOCABULARY then Inl (UnknownValue path name)
         else Inr (bt_insert lower value effective, enabled))"

definition bad_name :: "rstring \<Rightarrow> bool" where
  "bad_name name = (name = [] \<or> CHR ''/'' \<in> set name \<or> CHR 0x5C \<in> set name)"

definition join_path :: "rstring \<Rightarrow> rstring \<Rightarrow> rstring" where
  "join_path parent name = (if parent = [] then name else parent @ ''/'' @ name)"

fun walk :: "raw_key \<Rightarrow> rstring \<Rightarrow> (rstring, raw_value) btree \<Rightarrow> bool \<Rightarrow> (rstring, profile) btree
      \<Rightarrow> profile_error + (rstring, profile) btree"
  and walk_all :: "raw_key list \<Rightarrow> rstring \<Rightarrow> (rstring, raw_value) btree \<Rightarrow> bool \<Rightarrow> (rstring, profile) btree
      \<Rightarrow> profile_error + (rstring, profile) btree" where
  "walk (RawKey name values children) parent_path inherited parent_enabled out =
     (if bad_name name then Inl (BadKeyName parent_path name)
      else (let path = join_path parent_path name
            in case fold_result (walk_value path) (inherited, parent_enabled) values of
                 Inl e \<Rightarrow> Inl e
               | Inr (effective, enabled) \<Rightarrow>
                   (case parse_profile path effective of
                      Inl e \<Rightarrow> Inl e
                    | Inr (address, dns) \<Rightarrow>
                        walk_all children path effective enabled
                          (bt_insert (to_ascii_lowercase path)
                             \<lparr>pf_path = path, pf_enabled = enabled, pf_address = address, pf_dns = dns\<rparr> out))))"
| "walk_all [] parent_path inherited parent_enabled out = Inr out"
| "walk_all (k # ks) parent_path inherited parent_enabled out =
     (case walk k parent_path inherited parent_enabled out of
        Inl e \<Rightarrow> Inl e
      | Inr out' \<Rightarrow> walk_all ks parent_path inherited parent_enabled out')"

definition resolve :: "raw_key \<Rightarrow> profile_error + (rstring, profile) btree" where
  "resolve root = walk_all (rk_children root) [] [] True []"


section \<open>Lemmas on names\<close>

text \<open>The published pattern \<^verbatim>\<open>[A-Za-z0-9]([A-Za-z0-9-]*[A-Za-z0-9])?\<close>, as the set of strings it matches.\<close>

definition PATTERN :: "rstring set" where
  "PATTERN = {[c] | c. is_ascii_alphanumeric c}
     \<union> {a # m @ [b] | a m b. is_ascii_alphanumeric a \<and> list_all hostname_char m \<and> is_ascii_alphanumeric b}"

lemma hyphen_alnum: "is_ascii_alphanumeric c \<longleftrightarrow> hostname_char c \<and> c \<noteq> CHR ''-''"
  by (auto simp: hostname_char_def is_ascii_alphanumeric_def is_ascii_digit_def is_ascii_uppercase_def
      is_ascii_lowercase_def ascii_code_def)

lemma pattern_iff:
  "n \<in> PATTERN \<longleftrightarrow> n \<noteq> [] \<and> list_all hostname_char n \<and> hd n \<noteq> CHR ''-'' \<and> last n \<noteq> CHR ''-''"
proof (cases n)
  case Nil
  then show ?thesis by (simp add: PATTERN_def)
next
  case (Cons a r)
  then show ?thesis
  proof (cases r rule: rev_cases)
    case Nil
    with Cons show ?thesis by (auto simp: PATTERN_def hyphen_alnum)
  next
    case (snoc m b)
    with Cons show ?thesis by (auto simp: PATTERN_def hyphen_alnum list_all_iff)
  qed
qed

lemma find_not_None: "List.find (\<lambda>c. \<not> P c) n = None \<longleftrightarrow> list_all P n"
  by (auto simp: find_None_iff list_all_iff)

lemma hostname_check_Inr:
  "hostname_check s = Inr n \<longleftrightarrow>
     n = trim s \<and> n \<in> PATTERN \<and> length n \<le> MAX_HOSTNAME \<and> \<not> eq_ignore_ascii_case n ''localhost''"
  unfolding hostname_check_def Let_def pattern_iff
  by (auto simp: find_not_None [symmetric] split: option.splits)

lemma strip_nothing:
  assumes "\<forall>w\<in>set ws. w \<noteq> [] \<longrightarrow> \<not> P (hd w)" "s = [] \<or> P (hd s)"
  shows "strip ws s = s"
proof -
  have "\<not> (w \<noteq> [] \<and> take (length w) s = w)" if "w \<in> set ws" for w
    using assms that by (cases w; cases s) auto
  then have "List.find (\<lambda>w. w \<noteq> [] \<and> take (length w) s = w) ws = None" by (auto simp: find_None_iff)
  then show ?thesis by (simp add: strip.simps)
qed

lemma white_space_edges:
  "\<forall>w\<in>set white_space. \<not> hostname_char (hd w)" "\<forall>w\<in>set (map rev white_space). \<not> hostname_char (hd w)"
  by (simp_all add: white_space_def hostname_char_def is_ascii_alphanumeric_def is_ascii_digit_def
      is_ascii_uppercase_def is_ascii_lowercase_def ascii_code_def of_bytes_def chr_def char_of_def bit_0)

lemma trim_label: "list_all hostname_char s \<Longrightarrow> trim s = s"
proof -
  assume s: "list_all hostname_char s"
  have "strip white_space s = s"
    using strip_nothing [of white_space hostname_char s] white_space_edges(1) s by (cases s) auto
  moreover have "strip (map rev white_space) (rev s) = rev s"
  proof (rule strip_nothing [where P = hostname_char])
    show "\<forall>w\<in>set (map rev white_space). w \<noteq> [] \<longrightarrow> \<not> hostname_char (hd w)" using white_space_edges(2) by blast
    show "rev s = [] \<or> hostname_char (hd (rev s))" using s by (cases s rule: rev_cases) (simp_all add: hd_rev)
  qed
  ultimately show ?thesis by (simp add: trim_def)
qed

text \<open>
  The names the machine takes are the ones the published pattern matches: a name is
  accepted exactly if, trimmed, it matches the pattern, has at most 63 characters and is
  not \<^verbatim>\<open>localhost\<close>; the accepted name is the trimmed one, and is accepted as it is when
  it is read back.
\<close>

theorem hostname_check_exact:
  "(hostname_check s = Inr n \<longleftrightarrow>
      n = trim s \<and> n \<in> PATTERN \<and> length n \<le> MAX_HOSTNAME \<and> \<not> eq_ignore_ascii_case n ''localhost'')
   \<and> (hostname_check s = Inr n \<longrightarrow> hostname_check n = Inr n)"
  using trim_label [of n] by (auto simp: hostname_check_Inr pattern_iff)

theorem hostname_check_exact_witness:
  "''ws-01'' \<in> PATTERN \<and> hostname_check ''ws-01'' = Inr ''ws-01''"
proof -
  have l: "list_all hostname_char ''ws-01''"
    by (simp add: hostname_char_def is_ascii_alphanumeric_def is_ascii_digit_def is_ascii_uppercase_def
        is_ascii_lowercase_def ascii_code_def)
  then have "''ws-01'' \<in> PATTERN" by (simp add: pattern_iff)
  moreover have "\<not> eq_ignore_ascii_case ''ws-01'' ''localhost''"
    by (simp add: eq_ignore_ascii_case_def to_ascii_lowercase_def)
  ultimately show ?thesis using hostname_check_exact [of "''ws-01''" "''ws-01''"] trim_label [OF l] by simp
qed

section \<open>Inheritance, declaratively\<close>

text \<open>
  A node of the tree is the chain of keys from the top to it, and the nodes come in
  the order of the walk.  Its path and what it carries are functions of the chain.
\<close>

fun key_chains :: "raw_key list \<Rightarrow> raw_key \<Rightarrow> raw_key list list" where
  "key_chains upper (RawKey name values children) =
     (upper @ [RawKey name values children])
     # concat (map (key_chains (upper @ [RawKey name values children])) children)"

definition nodes :: "raw_key \<Rightarrow> raw_key list list" where
  "nodes root = concat (map (key_chains []) (rk_children root))"

definition chain_path :: "raw_key list \<Rightarrow> rstring" where
  "chain_path ks = foldl join_path [] (map rk_name ks)"

definition names_enabled :: "rstring \<times> raw_value \<Rightarrow> bool" where
  "names_enabled nv = (to_ascii_lowercase (fst nv) = ''enabled'')"

text \<open>Enabled if nothing on the way down says otherwise.\<close>

definition chain_enabled :: "raw_key list \<Rightarrow> bool" where
  "chain_enabled ks = (\<forall>k\<in>set ks. \<forall>nv\<in>set (rk_values k). names_enabled nv \<longrightarrow> as_bool (snd nv) = Some True)"

text \<open>The value a key itself gives to a name: its last one of that name.\<close>

definition own_value :: "raw_key \<Rightarrow> rstring \<Rightarrow> raw_value option" where
  "own_value k n =
     map_of (rev (map (\<lambda>nv. (to_ascii_lowercase (fst nv), snd nv)) (filter (\<lambda>nv. \<not> names_enabled nv) (rk_values k)))) n"

text \<open>The value a node carries: its own, or else the one of the nearest key above it that has one.\<close>

fun nearest_value :: "raw_key list \<Rightarrow> rstring \<Rightarrow> raw_value option" where
  "nearest_value [] n = None"
| "nearest_value (k # upper) n = (case own_value k n of Some v \<Rightarrow> Some v | None \<Rightarrow> nearest_value upper n)"

definition insert_value :: "(rstring, raw_value) btree \<Rightarrow> rstring \<times> raw_value \<Rightarrow> (rstring, raw_value) btree" where
  "insert_value m nv = (if names_enabled nv then m else bt_insert (to_ascii_lowercase (fst nv)) (snd nv) m)"

definition chain_values :: "raw_key list \<Rightarrow> (rstring, raw_value) btree" where
  "chain_values ks = foldl insert_value [] (concat (map rk_values ks))"

definition known_value :: "rstring \<times> raw_value \<Rightarrow> bool" where
  "known_value nv =
     (if names_enabled nv then as_bool (snd nv) \<noteq> None else to_ascii_lowercase (fst nv) \<in> set VOCABULARY)"

definition chain_ok :: "raw_key list \<Rightarrow> bool" where
  "chain_ok ks =
     (\<not> bad_name (rk_name (last ks)) \<and> list_all known_value (rk_values (last ks))
      \<and> \<not> isl (parse_profile (chain_path ks) (chain_values ks)))"

definition chain_profile :: "raw_key list \<Rightarrow> profile" where
  "chain_profile ks =
     (let (a, d) = projr (parse_profile (chain_path ks) (chain_values ks))
      in \<lparr>pf_path = chain_path ks, pf_enabled = chain_enabled ks, pf_address = a, pf_dns = d\<rparr>)"

definition insert_node :: "(rstring, profile) btree \<Rightarrow> raw_key list \<Rightarrow> (rstring, profile) btree" where
  "insert_node m ks = bt_insert (to_ascii_lowercase (chain_path ks)) (chain_profile ks) m"

lemma walk_value_known:
  "known_value nv \<Longrightarrow> walk_value path (m, e) nv =
     Inr (insert_value m nv, e \<and> (names_enabled nv \<longrightarrow> as_bool (snd nv) = Some True))"
  by (cases nv) (auto simp: walk_value_def known_value_def names_enabled_def insert_value_def)

lemma walk_value_unknown: "\<not> known_value nv \<Longrightarrow> \<exists>x. walk_value path (m, e) nv = Inl x"
  by (cases nv) (auto simp: walk_value_def known_value_def names_enabled_def split: if_splits)

lemma walk_values:
  "fold_result (walk_value path) (m, e) nvs = Inr (m', e') \<longleftrightarrow>
     list_all known_value nvs \<and> m' = foldl insert_value m nvs
     \<and> e' = (e \<and> (\<forall>nv\<in>set nvs. names_enabled nv \<longrightarrow> as_bool (snd nv) = Some True))"
proof (induction nvs arbitrary: m e)
  case Nil
  then show ?case by auto
next
  case (Cons nv nvs)
  then show ?case
    using walk_value_known [of nv path m e] walk_value_unknown [of nv path m e]
    by (cases "known_value nv") auto
qed

lemma chain_snoc:
  "chain_path (upper @ [k]) = join_path (chain_path upper) (rk_name k)"
  "chain_values (upper @ [k]) = foldl insert_value (chain_values upper) (rk_values k)"
  "chain_enabled (upper @ [k]) \<longleftrightarrow>
     chain_enabled upper \<and> (\<forall>nv\<in>set (rk_values k). names_enabled nv \<longrightarrow> as_bool (snd nv) = Some True)"
  by (auto simp: chain_path_def chain_values_def chain_enabled_def)

lemma walk_all_nodes:
  assumes "\<And>k out out'. k \<in> set ks \<Longrightarrow>
      walk k p m e out = Inr out' \<longleftrightarrow> list_all chain_ok (ch k) \<and> out' = foldl insert_node out (ch k)"
  shows "walk_all ks p m e out = Inr out' \<longleftrightarrow>
      list_all chain_ok (concat (map ch ks)) \<and> out' = foldl insert_node out (concat (map ch ks))"
  using assms
proof (induction ks arbitrary: out)
  case Nil
  then show ?case by auto
next
  case (Cons k ks)
  have IH: "walk_all ks p m e o1 = Inr out' \<longleftrightarrow>
      list_all chain_ok (concat (map ch ks)) \<and> out' = foldl insert_node o1 (concat (map ch ks))" for o1
    using Cons by simp
  have K: "walk k p m e out = Inr o1 \<longleftrightarrow> list_all chain_ok (ch k) \<and> o1 = foldl insert_node out (ch k)" for o1
    by (rule Cons.prems) simp
  show ?case
  proof (cases "list_all chain_ok (ch k)")
    case True
    with K have "walk k p m e out = Inr (foldl insert_node out (ch k))" by simp
    with True IH show ?thesis by simp
  next
    case False
    with K have "\<exists>x. walk k p m e out = Inl x" by (metis sum.exhaust)
    with False show ?thesis by auto
  qed
qed

lemma walk_nodes:
  "walk k (chain_path upper) (chain_values upper) (chain_enabled upper) out = Inr out' \<longleftrightarrow>
     list_all chain_ok (key_chains upper k) \<and> out' = foldl insert_node out (key_chains upper k)"
proof (induction k arbitrary: upper out out')
  case (RawKey name vs children)
  let ?k = "RawKey name vs children"
  let ?ks = "upper @ [?k]"
  have path: "join_path (chain_path upper) name = chain_path ?ks" by (simp add: chain_snoc)
  note all = walk_all_nodes [OF RawKey, of children ?ks]
  have v: "fold_result (walk_value (chain_path ?ks)) (chain_values upper, chain_enabled upper) vs = Inr (m, e) \<longleftrightarrow>
      list_all known_value vs \<and> m = chain_values ?ks \<and> e = chain_enabled ?ks" for m e
    by (auto simp: walk_values chain_snoc)
  show ?case
  proof (cases "chain_ok ?ks")
    case True
    then obtain a d where p: "parse_profile (chain_path ?ks) (chain_values ?ks) = Inr (a, d)"
      unfolding chain_ok_def by (metis isl_def sum.exhaust surj_pair)
    have "fold_result (walk_value (chain_path ?ks)) (chain_values upper, chain_enabled upper) vs
        = Inr (chain_values ?ks, chain_enabled ?ks)"
      using True v by (simp add: chain_ok_def)
    moreover have "\<not> bad_name name" using True by (simp add: chain_ok_def)
    moreover have "insert_node out ?ks =
        bt_insert (to_ascii_lowercase (chain_path ?ks))
          \<lparr>pf_path = chain_path ?ks, pf_enabled = chain_enabled ?ks, pf_address = a, pf_dns = d\<rparr> out"
      using p by (simp add: insert_node_def chain_profile_def)
    ultimately show ?thesis using True p all by (simp add: path Let_def)
  next
    case False
    have "isl (walk ?k (chain_path upper) (chain_values upper) (chain_enabled upper) out)"
      using False v
      by (auto simp: path chain_ok_def Let_def split: sum.splits)
    with False show ?thesis by (auto simp: isl_def)
  qed
qed

lemma resolve_nodes:
  "resolve root = Inr out \<longleftrightarrow> list_all chain_ok (nodes root) \<and> out = foldl insert_node [] (nodes root)"
proof -
  have "chain_path [] = []" "chain_values [] = []" "chain_enabled []"
    by (simp_all add: chain_path_def chain_values_def chain_enabled_def)
  then show ?thesis
    using walk_all_nodes [OF walk_nodes, of "rk_children root" "[]"]
    by (simp add: resolve_def nodes_def)
qed

lemma insert_values_ok: "bt_ok m \<Longrightarrow> bt_ok (foldl insert_value m nvs)"
  by (induction nvs arbitrary: m) (simp_all add: insert_value_def)

text \<open>A key's values, inserted over what it inherits: its own value, or else the inherited one.\<close>

lemma insert_own_values:
  "bt_ok m \<Longrightarrow> bt_get (foldl insert_value m (rk_values k)) n =
     (case own_value k n of Some v \<Rightarrow> Some v | None \<Rightarrow> bt_get m n)"
proof -
  have "bt_ok m \<Longrightarrow> bt_get (foldl insert_value m nvs) n =
     (case map_of (rev (map (\<lambda>nv. (to_ascii_lowercase (fst nv), snd nv)) (filter (\<lambda>nv. \<not> names_enabled nv) nvs))) n of
        Some v \<Rightarrow> Some v | None \<Rightarrow> bt_get m n)" for nvs
    by (induction nvs arbitrary: m)
       (auto simp: insert_value_def bt_get_insert map_add_def split: option.splits)
  then show "bt_ok m \<Longrightarrow> ?thesis" by (simp add: own_value_def)
qed

lemma chain_values_nearest: "bt_get (chain_values ks) n = nearest_value (rev ks) n"
proof (induction ks rule: rev_induct)
  case Nil
  then show ?case by (simp add: chain_values_def)
next
  case (snoc k ks)
  have "bt_ok (chain_values ks)" by (simp add: chain_values_def insert_values_ok)
  with snoc show ?case by (simp add: chain_snoc insert_own_values split: option.split)
qed

text \<open>
  C16: A profile tree means what its inheritance says.  The tree is accepted exactly if
  every node has a proper name and known values and parses with what it inherits;
  then the result holds each node's profile under its lower-cased path, later nodes
  replacing earlier ones of the same path, where a value of a node is its own, or
  else the nearest one above it, and a node is enabled if nothing on the way down to
  it says otherwise.
\<close>

theorem profile_inheritance:
  "(resolve root = Inr out \<longleftrightarrow> list_all chain_ok (nodes root) \<and> out = foldl insert_node [] (nodes root))
   \<and> bt_get (chain_values ks) n = nearest_value (rev ks) n
   \<and> pf_enabled (chain_profile ks) = chain_enabled ks"
  by (simp add: resolve_nodes chain_values_nearest chain_profile_def split_def Let_def)

section \<open>Well-formed profiles\<close>

lemma fold_result_invariant:
  assumes "\<And>s x s'. I s \<Longrightarrow> x \<in> set xs \<Longrightarrow> f s x = Inr s' \<Longrightarrow> I s'"
  shows "I s \<Longrightarrow> fold_result f s xs = Inr s' \<Longrightarrow> I s'"
  using assms
proof (induction xs arbitrary: s)
  case (Cons x xs)
  obtain s1 where s1: "f s x = Inr s1" using Cons.prems(2) by (cases "f s x") auto
  have "I s1" using Cons.prems(3) [OF Cons.prems(1) _ s1] by simp
  moreover have "fold_result f s1 xs = Inr s'" using Cons.prems(2) s1 by simp
  ultimately show ?case by (rule Cons.IH) (rule Cons.prems(3), simp_all)
qed simp

lemma collect_result_all:
  "collect_result f xs = Inr ys \<Longrightarrow> \<forall>y\<in>set ys. \<exists>x\<in>set xs. f x = Inr y"
  by (induction xs arbitrary: ys) (auto split: sum.splits)

definition prefix_ok :: "static_address \<Rightarrow> bool" where
  "prefix_ok s = (sa_prefix s \<le> (case sa_address s of V4 _ \<Rightarrow> 32 | V6 _ \<Rightarrow> 128))"

definition address_config_ok :: "address_config \<Rightarrow> bool" where
  "address_config_ok a = ((\<forall>m. ac_mtu a = Some m \<longrightarrow> 68 \<le> m) \<and> (\<forall>s\<in>set (ac_statics a). prefix_ok s))"

definition profile_ok :: "profile \<Rightarrow> bool" where
  "profile_ok p = (address_config_ok (pf_address p) \<and> (\<forall>s\<in>set (ac_statics (pf_address p)). in_family (pf_address p) s))"

lemma parse_cidr_ok: "parse_cidr s = Some x \<Longrightarrow> prefix_ok x"
proof -
  have "word_of_nat n \<le> (32::u8)" if "n \<le> 32" for n
    using that by (simp add: word_le_nat_alt unat_of_nat)
  moreover have "word_of_nat n \<le> (128::u8)" if "n \<le> 128" for n
    using that by (simp add: word_le_nat_alt unat_of_nat)
  ultimately show "parse_cidr s = Some x \<Longrightarrow> prefix_ok x"
    by (auto simp: parse_cidr_def prefix_ok_def Let_def split: option.splits if_splits ipaddr.splits)
qed

lemma families_keep:
  "fold_result (parse_family path) a fs = Inr a' \<Longrightarrow> ac_mtu a' = ac_mtu a \<and> ac_statics a' = ac_statics a"
  by (rule fold_result_invariant [where I = "\<lambda>b. ac_mtu b = ac_mtu a \<and> ac_statics b = ac_statics a"])
     (auto simp: parse_family_def Let_def split: if_splits)

lemma gateways_keep:
  "fold_result (parse_gateway path) a gs = Inr a' \<Longrightarrow> ac_mtu a' = ac_mtu a \<and> ac_statics a' = ac_statics a"
  by (rule fold_result_invariant [where I = "\<lambda>b. ac_mtu b = ac_mtu a \<and> ac_statics b = ac_statics a"])
     (auto simp: parse_gateway_def split: option.splits ipaddr.splits)

lemma ok_or_Inr: "ok_or e x f = Inr y \<longleftrightarrow> (\<exists>a. x = Some a \<and> f a = Inr y)"
  by (auto simp: ok_or_def split: option.splits)

lemma map_sum_Inr: "map_sum (\<lambda>e. e) f x = Inr y \<longleftrightarrow> (\<exists>a. x = Inr a \<and> y = f a)"
  by (cases x) auto

lemma statics_ok:
  assumes "collect_result (\<lambda>s. ok_or (BadItem path n s) (parse_cidr s) Inr) ss = Inr xs" "x \<in> set xs"
  shows "prefix_ok x"
  using collect_result_all [OF assms(1)] assms(2) parse_cidr_ok by (auto simp: ok_or_Inr)

lemma parse_value_ok:
  assumes "address_config_ok a" "parse_value path (a, d) nv = Inr (a', d')"
  shows "address_config_ok a'"
  using assms(1) assms(2) [unfolded parse_value_def Let_def split_def fst_conv snd_conv]
  by (auto simp: ok_or_Inr map_sum_Inr address_config_ok_def not_less
      dest: families_keep gateways_keep statics_ok split: if_split_asm)

lemma parse_profile_ok:
  assumes "parse_profile path vs = Inr (a, d)"
  shows "address_config_ok a \<and> (\<forall>s\<in>set (ac_statics a). in_family a s)"
proof -
  obtain a0 where f: "fold_result (parse_value path) (address_config_default, dns_config_default) vs = Inr (a0, d)"
    and a: "a = a0\<lparr>ac_statics := filter (in_family a0) (ac_statics a0)\<rparr>"
    using assms by (auto simp: parse_profile_def split: sum.splits)
  have "address_config_ok (fst (a0, d))"
  proof (rule fold_result_invariant [where I = "\<lambda>ad. address_config_ok (fst ad)", OF _ _ f])
    show "address_config_ok (fst (address_config_default, dns_config_default))"
      by (simp add: address_config_ok_def address_config_default_def)
    show "address_config_ok (fst s')" if "address_config_ok (fst s)" "parse_value path s x = Inr s'" for s x s'
      using that parse_value_ok [of "fst s" path "snd s" x "fst s'" "snd s'"] by simp
  qed
  then show ?thesis by (auto simp: a address_config_ok_def in_family_def split: ipaddr.splits)
qed

lemma chain_profile_ok: "chain_ok ks \<Longrightarrow> profile_ok (chain_profile ks)"
  using parse_profile_ok [of "chain_path ks" "chain_values ks"]
  by (cases "parse_profile (chain_path ks) (chain_values ks)")
     (auto simp: chain_ok_def chain_profile_def profile_ok_def split: prod.splits)

lemma insert_nodes_all:
  assumes "bt_ok m" "\<forall>kp\<in>set m. P kp" "\<forall>ks\<in>set nss. P (to_ascii_lowercase (chain_path ks), chain_profile ks)"
  shows "\<forall>kp\<in>set (foldl insert_node m nss). P kp"
  using assms
proof (induction nss arbitrary: m)
  case (Cons ks nss)
  have "bt_ok (insert_node m ks)" "\<forall>kp\<in>set (insert_node m ks). P kp"
    using Cons.prems by (auto simp: insert_node_def set_bt_insert)
  then show ?case using Cons.IH Cons.prems(3) by simp
qed simp

text \<open>
  C17: Every resolved profile is well typed: it stands under its own path lower-cased, an
  MTU it sets is at least 68, and its static addresses are of families it deals in,
  with prefixes those families have.
\<close>

theorem profile_types:
  assumes "resolve root = Inr out" "(k, p) \<in> set out"
  shows "k = to_ascii_lowercase (pf_path p) \<and> profile_ok p"
proof -
  have o: "list_all chain_ok (nodes root)" "out = foldl insert_node [] (nodes root)"
    using assms(1) by (simp_all add: resolve_nodes)
  have "\<forall>kp\<in>set out. fst kp = to_ascii_lowercase (pf_path (snd kp)) \<and> profile_ok (snd kp)"
    unfolding o(2) using o(1) chain_profile_ok
    by (intro insert_nodes_all) (auto simp: list_all_iff chain_profile_def split_def Let_def)
  with assms(2) show ?thesis by force
qed

definition ex_profiles :: raw_key where
  "ex_profiles = RawKey ''Profiles'' []
     [RawKey ''Office'' [(''Mtu.Value'', RInt 1400)] [RawKey ''London'' [(''Route.Offered'', RInt 1)] []]]"

lemma ex_resolve:
  "\<exists>out. resolve ex_profiles = Inr out \<and> (\<exists>p. (''office/london'', p) \<in> set out \<and> ac_mtu (pf_address p) = Some 1400)"
  by (simp add: ex_profiles_def resolve_def bad_name_def join_path_def walk_value_def VOCABULARY_def
      to_ascii_lowercase_def to_ascii_lower_def is_ascii_uppercase_def ascii_code_def parse_profile_def
      parse_value_def ok_or_def address_config_default_def Let_def char_of_def bit_0)

theorem profile_types_witness:
  "\<exists>out p. resolve ex_profiles = Inr out \<and> (''office/london'', p) \<in> set out \<and> profile_ok p
     \<and> ac_mtu (pf_address p) = Some 1400"
  using ex_resolve profile_types by blast
end
