(* ===== verification/Policy.thy ===== *)
theory Policy
  imports Profile
begin

text \<open>
  The interface layer as netd executes it (\<^verbatim>\<open>netd-core/src/policy.rs\<close>): lowering the rules
  for the vendored rule engine \<^verbatim>\<open>pnp-core\<close>, building a generation, judging an interface.
  The engine's \<^verbatim>\<open>build_forest\<close> and \<^verbatim>\<open>evaluate\<close> are parameters, and what netd relies on
  of them is \<^verbatim>\<open>pnp_contract\<close>.
\<close>

section \<open>What the engine exchanges\<close>

datatype reg_value = RegInt int | RegStr rstring | RegList "reg_value list"

datatype rule_input =
  RuleInput (ri_name: rstring) (ri_values: "(rstring \<times> reg_value) list") (ri_children: "rule_input list")

datatype verdict = VPass | VReject | VDrop | VJoin u32 | VIgnore | VDown

record candidate =
  cd_priority :: int
  cd_rule :: rstring

record evaluation =
  ev_verdict :: verdict
  ev_attributed_to :: rstring
  ev_backstop :: bool
  ev_candidates :: "candidate list"
  ev_conflict :: bool

section \<open>Generations and judgments\<close>

record 'f policy =
  po_forest :: "'f option"
  po_profiles :: "(rstring, profile) btree"
  po_lints :: "(rstring \<times> rstring) list"

datatype outcome = Join profile | Ignore | Down

fun outcome_as_str :: "outcome \<Rightarrow> rstring" where
  "outcome_as_str (Join _) = ''JOIN''"
| "outcome_as_str Ignore = ''IGNORE''"
| "outcome_as_str Down = ''DOWN''"

fun outcome_profile :: "outcome \<Rightarrow> profile option" where
  "outcome_profile (Join p) = Some p"
| "outcome_profile _ = None"

record judged =
  jd_outcome :: outcome
  jd_rule :: rstring
  jd_backstop :: bool
  jd_conflict :: bool

definition judged_default :: judged where
  "judged_default = \<lparr>jd_outcome = Ignore, jd_rule = ''backstop'', jd_backstop = True, jd_conflict = False\<rparr>"

datatype 'e policy_error =
    ProfileRefused profile_error
  | UnsupportedType rstring rstring
  | BuildRefused 'e
  | JoinsNothing rstring

section \<open>Lowering\<close>

definition replace_backslash :: "rstring \<Rightarrow> rstring" where
  "replace_backslash s = map (\<lambda>c. if c = CHR 0x5C then CHR ''/'' else c) s"

definition join_target :: "rstring \<Rightarrow> rstring option" where
  "join_target expr =
     (let compact = filter (\<lambda>c. \<not> is_ascii_whitespace c) expr
      in if length compact < 6 \<or> \<not> eq_ignore_ascii_case (take 5 compact) ''join('' \<or> last compact \<noteq> CHR '')''
         then None
         else Some (to_ascii_lowercase (replace_backslash (slice compact 5 (length compact - 1)))))"

text \<open>One item of a list value: a \<^verbatim>\<open>JOIN\<close> of a disabled profile abstains.\<close>

definition lower_item :: "(rstring, profile) btree \<Rightarrow> rstring \<Rightarrow> rstring \<Rightarrow> rstring" where
  "lower_item profiles name item =
     (case join_target item of
        Some target \<Rightarrow>
          if eq_ignore_ascii_case name ''Actions''
          then (case bt_get profiles target of
                  Some p \<Rightarrow> if \<not> pf_enabled p then ''NULL'' else item
                | None \<Rightarrow> item)
          else item
      | None \<Rightarrow> item)"

definition lower_value ::
    "(rstring, profile) btree \<Rightarrow> rstring \<Rightarrow> rstring \<times> raw_value \<Rightarrow> 'e policy_error + rstring \<times> reg_value" where
  "lower_value profiles here nv =
     (case nv of (name, value) \<Rightarrow>
       (case value of
          RInt i \<Rightarrow> Inr (name, RegInt i)
        | RStr s \<Rightarrow> Inr (name, RegStr s)
        | RList items \<Rightarrow> Inr (name, RegList (map (\<lambda>item. RegStr (lower_item profiles name item)) items))
        | ROther \<Rightarrow> Inl (UnsupportedType here name)))"

fun lower :: "(rstring, profile) btree \<Rightarrow> rstring \<Rightarrow> raw_key \<Rightarrow> 'e policy_error + rule_input"
  and lower_all :: "(rstring, profile) btree \<Rightarrow> rstring \<Rightarrow> raw_key list \<Rightarrow> 'e policy_error + rule_input list" where
  "lower profiles path (RawKey name vs children) =
     (let here = join_path path name
      in case collect_result (lower_value profiles here) vs of
           Inl e \<Rightarrow> Inl e
         | Inr vs' \<Rightarrow>
             (case lower_all profiles here children of
                Inl e \<Rightarrow> Inl e
              | Inr cs \<Rightarrow> Inr (RuleInput name vs' cs)))"
| "lower_all profiles path [] = Inr []"
| "lower_all profiles path (k # ks) =
     (case lower profiles path k of
        Inl e \<Rightarrow> Inl e
      | Inr r \<Rightarrow>
          (case lower_all profiles path ks of Inl e \<Rightarrow> Inl e | Inr rs \<Rightarrow> Inr (r # rs)))"

section \<open>Building\<close>

definition build ::
    "(rule_input list \<Rightarrow> 'e + 'f \<times> (rstring \<times> rstring) list) \<Rightarrow> ('f \<Rightarrow> rstring list)
      \<Rightarrow> raw_key option \<Rightarrow> raw_key option \<Rightarrow> 'e policy_error + 'f policy" where
  "build build_forest forest_profiles rules profile_key =
     (case (case profile_key of Some root \<Rightarrow> map_sum ProfileRefused (\<lambda>ps. ps) (resolve root) | None \<Rightarrow> Inr []) of
        Inl e \<Rightarrow> Inl e
      | Inr profiles \<Rightarrow>
          (case rules of
             None \<Rightarrow> Inr \<lparr>po_forest = None, po_profiles = profiles, po_lints = []\<rparr>
           | Some key \<Rightarrow>
               (case lower_all profiles [] (rk_children key) of
                  Inl e \<Rightarrow> Inl e
                | Inr inputs \<Rightarrow>
                    (case build_forest inputs of
                       Inl e \<Rightarrow> Inl (BuildRefused e)
                     | Inr (forest, lints) \<Rightarrow>
                         (case List.find (\<lambda>path. bt_get profiles (to_ascii_lowercase path) = None)
                                 (forest_profiles forest) of
                            Some path \<Rightarrow> Inl (JoinsNothing path)
                          | None \<Rightarrow> Inr \<lparr>po_forest = Some forest, po_profiles = profiles, po_lints = lints\<rparr>)))))"

section \<open>Judging\<close>

text \<open>The rules tied at the top priority, each once, in order.\<close>

definition tied_names :: "candidate list \<Rightarrow> rstring list" where
  "tied_names cs =
     (let top = (case cs of [] \<Rightarrow> 0 | c # r \<Rightarrow> foldl (\<lambda>m d. max m (cd_priority d)) (cd_priority c) r)
      in remdups_adj (sort (map cd_rule (filter (\<lambda>c. cd_priority c = top) cs))))"

text \<open>None is the panic of an index out of range in the forest's profiles.\<close>

definition judge ::
    "('f \<Rightarrow> 'facts \<Rightarrow> evaluation option) \<Rightarrow> ('f \<Rightarrow> rstring list) \<Rightarrow> 'f policy \<Rightarrow> 'facts \<Rightarrow> judged option" where
  "judge evaluate forest_profiles policy snap =
     (case po_forest policy of
        None \<Rightarrow> Some judged_default
      | Some forest \<Rightarrow>
          (case evaluate forest snap of
             None \<Rightarrow> Some judged_default
           | Some e \<Rightarrow>
               if ev_conflict e then
                 Some \<lparr>jd_outcome = Ignore, jd_rule = join_with '' vs '' (tied_names (ev_candidates e)),
                       jd_backstop = False, jd_conflict = True\<rparr>
               else
                 map_option (\<lambda>outcome. \<lparr>jd_outcome = outcome, jd_rule = ev_attributed_to e,
                                        jd_backstop = ev_backstop e, jd_conflict = False\<rparr>)
                   (case ev_verdict e of
                      VJoin i \<Rightarrow>
                        if unat i < length (forest_profiles forest)
                        then (case bt_get (po_profiles policy) (to_ascii_lowercase (forest_profiles forest ! unat i)) of
                                Some p \<Rightarrow> Some (Join p)
                              | None \<Rightarrow> Some Ignore)
                        else None
                    | VDown \<Rightarrow> Some Down
                    | _ \<Rightarrow> Some Ignore)))"

section \<open>What netd relies on\<close>

text \<open>Every rule of a forest's input, at any depth.\<close>

fun rules_of :: "rule_input \<Rightarrow> rule_input list" where
  "rules_of (RuleInput name vs children) = RuleInput name vs children # concat (map rules_of children)"

text \<open>An action list of a rule that names the profile in a \<^verbatim>\<open>JOIN\<close>.\<close>

definition names_profile :: "rule_input \<Rightarrow> rstring \<Rightarrow> bool" where
  "names_profile r path =
     (\<exists>items s. (''Actions'', RegList items) \<in> set (ri_values r) \<and> RegStr s \<in> set items
        \<and> join_target s = Some (to_ascii_lowercase path))"

text \<open>
  The documented contract of the engine: the profiles of a forest are the paths its
  rules' \<^verbatim>\<open>JOIN\<close> actions name, and a \<^verbatim>\<open>Join\<close> verdict indexes them.
\<close>

definition pnp_contract ::
    "(rule_input list \<Rightarrow> 'e + 'f \<times> (rstring \<times> rstring) list) \<Rightarrow> ('f \<Rightarrow> rstring list)
      \<Rightarrow> ('f \<Rightarrow> 'facts \<Rightarrow> evaluation option) \<Rightarrow> bool" where
  "pnp_contract build_forest forest_profiles evaluate \<longleftrightarrow>
     (\<forall>inputs forest lints. build_forest inputs = Inr (forest, lints) \<longrightarrow>
        (\<forall>path\<in>set (forest_profiles forest). \<exists>r\<in>set (concat (map rules_of inputs)). names_profile r path)
        \<and> (\<forall>snap e i. evaluate forest snap = Some e \<longrightarrow> ev_verdict e = VJoin i \<longrightarrow>
             unat i < length (forest_profiles forest)))"


section \<open>Disabled profiles\<close>

lemma lower_item_enabled:
  assumes "join_target (lower_item profiles ''Actions'' item) = Some t" "bt_get profiles t = Some p"
  shows "pf_enabled p"
proof -
  have null: "join_target ''NULL'' = None" by (simp add: join_target_def is_ascii_whitespace_def ascii_code_def)
  show ?thesis
  proof (rule ccontr)
    assume d: "\<not> pf_enabled p"
    show False
    proof (cases "join_target item")
      case None
      with assms show False by (simp add: lower_item_def)
    next
      case (Some t')
      then have "lower_item profiles ''Actions'' item = ''NULL'' \<or> lower_item profiles ''Actions'' item = item"
        by (simp add: lower_item_def split: option.split)
      with null assms(1) have i: "lower_item profiles ''Actions'' item = item" "t' = t"
        using Some by auto
      with Some assms(2) d have "lower_item profiles ''Actions'' item = ''NULL''"
        by (simp add: lower_item_def eq_ignore_ascii_case_def)
      with null assms(1) show False by simp
    qed
  qed
qed

text \<open>The values of a lowered rule, at any depth, are lowered values.\<close>

definition lowered_rule :: "(rstring, profile) btree \<Rightarrow> rule_input \<Rightarrow> bool" where
  "lowered_rule profiles r =
     (\<forall>n items. (n, RegList items) \<in> set (ri_values r) \<longrightarrow>
        (\<exists>its. items = map (\<lambda>item. RegStr (lower_item profiles n item)) its))"

lemma lower_all_rules:
  assumes "\<And>k r. k \<in> set ks \<Longrightarrow> lower profiles path k = (Inr r :: 'e policy_error + rule_input)
      \<Longrightarrow> list_all (lowered_rule profiles) (rules_of r)"
  shows "lower_all profiles path ks = (Inr rs :: 'e policy_error + rule_input list)
      \<Longrightarrow> list_all (lowered_rule profiles) (concat (map rules_of rs))"
  using assms
proof (induction ks arbitrary: rs)
  case Nil
  then show ?case by simp
next
  case (Cons k ks)
  obtain r rs' where r: "lower profiles path k = (Inr r :: 'e policy_error + rule_input)"
      "lower_all profiles path ks = (Inr rs' :: 'e policy_error + rule_input list)" "rs = r # rs'"
    using Cons.prems(1) by (auto split: sum.splits)
  have "list_all (lowered_rule profiles) (rules_of r)" by (rule Cons.prems(2) [OF _ r(1)]) simp
  moreover have "list_all (lowered_rule profiles) (concat (map rules_of rs'))"
    by (rule Cons.IH [OF r(2)]) (rule Cons.prems(2), simp_all)
  ultimately show ?case by (simp add: r(3))
qed

lemma lower_rules:
  "lower profiles path k = (Inr r :: 'e policy_error + rule_input) \<Longrightarrow> list_all (lowered_rule profiles) (rules_of r)"
proof (induction k arbitrary: path r)
  case (RawKey name vs children)
  from RawKey.prems obtain vs' cs where r: "r = RuleInput name vs' cs"
    and vs: "collect_result (lower_value profiles (join_path path name)) vs = (Inr vs' :: 'e policy_error + _)"
    and cs: "lower_all profiles (join_path path name) children = (Inr cs :: 'e policy_error + _)"
    by (auto simp: Let_def split: sum.splits)
  have "\<exists>its. items = map (\<lambda>item. RegStr (lower_item profiles n item)) its" if "(n, RegList items) \<in> set vs'" for n items
    using collect_result_all [OF vs] that by (fastforce simp: lower_value_def split: prod.splits raw_value.splits)
  then have "lowered_rule profiles (RuleInput name vs' cs)" by (simp add: lowered_rule_def)
  moreover have "list_all (lowered_rule profiles) (concat (map rules_of cs))"
    by (rule lower_all_rules [OF _ cs]) (rule RawKey.IH)
  ultimately show ?case by (simp add: r)
qed

lemma named_enabled:
  assumes "lower_all profiles path ks = (Inr inputs :: 'e policy_error + rule_input list)"
    and "r \<in> set (concat (map rules_of inputs))" "names_profile r name"
    and "bt_get profiles (to_ascii_lowercase name) = Some p"
  shows "pf_enabled p"
proof -
  obtain items s where s: "(''Actions'', RegList items) \<in> set (ri_values r)" "RegStr s \<in> set items"
    "join_target s = Some (to_ascii_lowercase name)"
    using assms(3) by (auto simp: names_profile_def)
  have "list_all (lowered_rule profiles) (concat (map rules_of inputs))"
    by (rule lower_all_rules [OF _ assms(1)]) (rule lower_rules)
  then obtain its where "items = map (\<lambda>item. RegStr (lower_item profiles ''Actions'' item)) its"
    using assms(2) s(1) unfolding list_all_iff lowered_rule_def by blast
  with s(2) obtain item where "s = lower_item profiles ''Actions'' item" by auto
  with lower_item_enabled [of profiles item] s(3) assms(4) show ?thesis by simp
qed

lemma build_parts:
  assumes "build bf fp rules pk = Inr pol" "po_forest pol = Some forest"
  obtains inputs lints ks where
    "lower_all (po_profiles pol) [] ks = (Inr inputs :: 'e policy_error + rule_input list)"
    "bf inputs = (Inr (forest, lints) :: 'e + 'f \<times> (rstring \<times> rstring) list)"
  using assms by (auto simp: build_def split: sum.splits option.splits prod.splits)

text \<open>
  C18: Judging never panics, and never joins a disabled profile.  Over a rule engine that
  keeps its contract, a generation that was built judges every interface, and where
  it says \<^verbatim>\<open>JOIN\<close> the profile is one of the generation's and is enabled: a rule that
  names a disabled one abstains.
\<close>

theorem policy_joins_enabled:
  fixes build_forest :: "rule_input list \<Rightarrow> 'e + 'f \<times> (rstring \<times> rstring) list"
  assumes "pnp_contract build_forest forest_profiles evaluate"
    and "build build_forest forest_profiles rules profile_key = Inr policy"
  shows "\<exists>j. judge evaluate forest_profiles policy snap = Some j
     \<and> (\<forall>p. jd_outcome j = Join p \<longrightarrow> pf_enabled p \<and> p \<in> snd ` set (po_profiles policy))"
proof (cases "po_forest policy")
  case None
  then show ?thesis by (simp add: judge_def judged_default_def)
next
  case (Some forest)
  obtain inputs lints ks where l: "lower_all (po_profiles policy) [] ks = (Inr inputs :: 'e policy_error + rule_input list)"
    and b: "build_forest inputs = Inr (forest, lints)"
    by (rule build_parts [OF assms(2) Some])
  have range: "unat i < length (forest_profiles forest)"
    if "evaluate forest snap = Some e" "ev_verdict e = VJoin i" for e i
    using assms(1) b that unfolding pnp_contract_def by blast
  have enabled: "pf_enabled p"
    if path: "path \<in> set (forest_profiles forest)" "bt_get (po_profiles policy) (to_ascii_lowercase path) = Some p"
    for path p
  proof -
    obtain r where "r \<in> set (concat (map rules_of inputs))" "names_profile r path"
      using assms(1) b path(1) unfolding pnp_contract_def by blast
    from named_enabled [OF l this path(2)] show ?thesis .
  qed
  have known: "p \<in> snd ` set (po_profiles policy)" if "bt_get (po_profiles policy) k = Some p" for k p
    using that by (force simp: bt_get_def dest: map_of_SomeD)
  show ?thesis
    using Some range enabled [OF nth_mem] known
    by (auto simp: judge_def judged_default_def split: option.splits verdict.splits)
qed

text \<open>An engine that joins the first profile its rules name.\<close>

definition ex_targets :: "rule_input \<Rightarrow> rstring list" where
  "ex_targets r =
     concat (map (\<lambda>nv. case nv of
         (n, RegList items) \<Rightarrow>
           if n = ''Actions''
           then List.map_filter (\<lambda>v. case v of RegStr s \<Rightarrow> join_target s | _ \<Rightarrow> None) items else []
       | _ \<Rightarrow> []) (ri_values r))"

definition ex_build_forest :: "rule_input list \<Rightarrow> unit + rstring list \<times> (rstring \<times> rstring) list" where
  "ex_build_forest inputs = Inr (concat (map ex_targets (concat (map rules_of inputs))), [])"

definition ex_evaluate :: "rstring list \<Rightarrow> unit \<Rightarrow> evaluation option" where
  "ex_evaluate forest u =
     Some \<lparr>ev_verdict = (if forest = [] then VIgnore else VJoin 0), ev_attributed_to = ''rule'',
           ev_backstop = (forest = []), ev_candidates = [], ev_conflict = False\<rparr>"

lemma join_target_lower: "join_target s = Some t \<Longrightarrow> to_ascii_lowercase t = t"
  by (auto simp: join_target_def Let_def split: if_splits)

lemma ex_contract: "pnp_contract ex_build_forest (\<lambda>f. f) ex_evaluate"
proof -
  have "names_profile r t" if "t \<in> set (ex_targets r)" for r t
    using that join_target_lower
    by (fastforce simp: ex_targets_def names_profile_def map_filter_def
        split: prod.splits reg_value.splits if_splits)
  then show ?thesis
    by (fastforce simp: pnp_contract_def ex_build_forest_def ex_evaluate_def split: if_splits)
qed

definition ex_rules :: raw_key where
  "ex_rules = RawKey ''Interface'' [] [RawKey ''r'' [(''Actions'', RList [''JOIN(office)''])] []]"

definition ex_office :: raw_key where
  "ex_office = RawKey ''Profiles'' [] [RawKey ''office'' [] []]"

theorem policy_joins_enabled_witness:
  "\<exists>policy j p. build ex_build_forest (\<lambda>f. f) (Some ex_rules) (Some ex_office) = Inr policy
     \<and> judge ex_evaluate (\<lambda>f. f) policy () = Some j \<and> jd_outcome j = Join p \<and> pf_enabled p"
proof -
  let ?p = "\<lparr>pf_path = ''office'', pf_enabled = True, pf_address = address_config_default, pf_dns = dns_config_default\<rparr>"
  have low: "to_ascii_lowercase ''office'' = ''office''"
    by (simp add: to_ascii_lowercase_def to_ascii_lower_def is_ascii_uppercase_def ascii_code_def)
  have target: "join_target ''JOIN(office)'' = Some ''office''"
    unfolding join_target_def
    by (simp add: is_ascii_whitespace_def ascii_code_def eq_ignore_ascii_case_def slice_def replace_backslash_def
        to_ascii_lowercase_def to_ascii_lower_def is_ascii_uppercase_def char_of_def bit_0)
  have "resolve ex_office = Inr [(''office'', ?p)]"
    using low by (simp add: ex_office_def resolve_def bad_name_def join_path_def parse_profile_def
        address_config_default_def Let_def)
  then have "build ex_build_forest (\<lambda>f. f) (Some ex_rules) (Some ex_office)
      = Inr \<lparr>po_forest = Some [''office''], po_profiles = [(''office'', ?p)], po_lints = []\<rparr>"
    using low target
    by (simp add: build_def ex_rules_def Let_def lower_value_def lower_item_def bt_get_def
        ex_build_forest_def ex_targets_def List.map_filter_def eq_ignore_ascii_case_def)
  moreover have "judge ex_evaluate (\<lambda>f. f) \<lparr>po_forest = Some [''office''], po_profiles = [(''office'', ?p)], po_lints = []\<rparr> ()
      = Some \<lparr>jd_outcome = Join ?p, jd_rule = ''rule'', jd_backstop = False, jd_conflict = False\<rparr>"
    using low by (simp add: judge_def ex_evaluate_def bt_get_def)
  ultimately show ?thesis
    using policy_joins_enabled [OF ex_contract, of "Some ex_rules" "Some ex_office" _ "()"] by fastforce
qed
end
