(* ===== verification/Interface.thy ===== *)
theory Interface
  imports Dhcp4_Client Ndp_Engine Dhcp6_Client Reconcile Policy
begin

text \<open>
  One interface as the daemon keeps it (\<^verbatim>\<open>netd/src/main.rs\<close>, \<^verbatim>\<open>networks.rs\<close>): its protocol
  clients, what they told it, and what it therefore wants of the kernel and says to
  others.  Sockets are outside: an operation returns what it sends.
\<close>

section \<open>Levels\<close>

datatype level = Absent | Linked | Addressed | Routed

fun level_rank :: "level \<Rightarrow> nat" where
  "level_rank Absent = 0"
| "level_rank Linked = 1"
| "level_rank Addressed = 2"
| "level_rank Routed = 3"

instantiation level :: linorder
begin

definition less_eq_level :: "level \<Rightarrow> level \<Rightarrow> bool" where
  "less_eq_level a b = (level_rank a \<le> level_rank b)"

definition less_level :: "level \<Rightarrow> level \<Rightarrow> bool" where
  "less_level a b = (level_rank a < level_rank b)"

instance
proof
  fix x y z :: level
  show "x < y \<longleftrightarrow> x \<le> y \<and> \<not> y \<le> x" by (auto simp: less_eq_level_def less_level_def)
  show "x \<le> x" by (simp add: less_eq_level_def)
  show "x \<le> y \<Longrightarrow> y \<le> z \<Longrightarrow> x \<le> z" by (simp add: less_eq_level_def)
  show "x \<le> y \<Longrightarrow> y \<le> x \<Longrightarrow> x = y" by (cases x; cases y) (simp_all add: less_eq_level_def)
  show "x \<le> y \<or> y \<le> x" by (auto simp: less_eq_level_def)
qed

end

fun level_as_str :: "level \<Rightarrow> rstring" where
  "level_as_str Absent = ''absent''"
| "level_as_str Linked = ''link''"
| "level_as_str Addressed = ''addressed''"
| "level_as_str Routed = ''routed''"

definition level_parse :: "rstring \<Rightarrow> level option" where
  "level_parse s =
     (if s = ''absent'' then Some Absent
      else if s = ''link'' then Some Linked
      else if s = ''addressed'' then Some Addressed
      else if s = ''routed'' then Some Routed else None)"

text \<open>Every condition that holds at a level, for the service manager; lines end in a line feed.\<close>

fun readiness_notification :: "level \<Rightarrow> rstring" where
  "readiness_notification Absent = ''LEVEL=absent''"
| "readiness_notification Linked = ''LEVEL=link''"
| "readiness_notification Addressed = ''LEVEL=link'' @ [CHR 0x0A] @ ''LEVEL=addressed''"
| "readiness_notification Routed =
     ''LEVEL=link'' @ [CHR 0x0A] @ ''LEVEL=addressed'' @ [CHR 0x0A] @ ''LEVEL=routed''"

section \<open>Networks\<close>

record signals =
  sg_kind :: rstring
  sg_server :: "ipv4 option"
  sg_subnet :: "(ipv4 \<times> u8) option"
  sg_gateway :: "ipv4 option"
  sg_router6 :: "ipv6 option"
  sg_prefixes6 :: "(ipv6 \<times> u8) list"
  sg_dns :: "ipaddr list"

definition mask4 :: "u8 \<Rightarrow> ipv4" where
  "mask4 prefix = (if prefix = 0 then 0 else push_bit (32 - min (unat prefix) 32) (- 1))"

definition subnet_of :: "ipv4 \<Rightarrow> u8 \<Rightarrow> ipv4 \<times> u8" where
  "subnet_of a prefix = (a AND mask4 prefix, prefix)"

definition derive :: "(bytes \<Rightarrow> bytes) \<Rightarrow> rstring \<Rightarrow> rstring \<Rightarrow> rstring" where
  "derive sha1 kind basis =
     uuid_text (uuid5_bytes (sha1
       (as_bytes ''peios-netd-network|'' @ as_bytes kind @ as_bytes ''|'' @ as_bytes basis)))"

definition signals_basis :: "signals \<Rightarrow> rstring option" where
  "signals_basis s =
     (case (sg_server s, sg_subnet s) of
        (Some server, Some (net, prefix)) \<Rightarrow>
          Some (''dhcp:'' @ ipv4_text server @ ''|'' @ ipv4_text net @ ''/'' @ nat_text (unat prefix))
      | _ \<Rightarrow>
          (case (sg_router6 s, sg_prefixes6 s) of
             (Some router, (net, prefix) # _) \<Rightarrow>
               Some (''ra:'' @ ipv6_text router @ ''|'' @ ipv6_text net @ ''/'' @ nat_text (unat prefix))
           | _ \<Rightarrow> None))"

definition signals_identity :: "(bytes \<Rightarrow> bytes) \<Rightarrow> signals \<Rightarrow> rstring option" where
  "signals_identity sha1 s = map_option (derive sha1 (sg_kind s)) (signals_basis s)"

record network =
  nw_id :: rstring
  nw_name :: "rstring option"
  nw_trust :: "rstring option"
  nw_requested_address :: "ipv4 option"

section \<open>The interface\<close>

record iface =
  if_ifid :: rstring
  if_identity :: identity
  if_link :: link
  if_judged :: judged
  if_network :: "network option"
  if_rejudge :: bool
  if_discovery_unanswered :: bool
  if_dhcp :: "dhcp4 option"
  if_lease :: "lease option"
  if_restart :: "restart_ipv4 option"
  if_first_dhcp_start :: bool
  if_link_local :: "ipv4 option"
  if_ndp :: "ndp option"
  if_dhcp6 :: "dhcp6 option"

definition managed :: "iface \<Rightarrow> bool" where
  "managed i = ((case jd_outcome (if_judged i) of Join _ \<Rightarrow> True | _ \<Rightarrow> False) \<and> \<not> ln_loopback (if_link i))"

definition if_profile :: "iface \<Rightarrow> profile option" where
  "if_profile i = (if ln_loopback (if_link i) then None else outcome_profile (jd_outcome (if_judged i)))"

text \<open>The facts the interface layer judges.\<close>

record facts =
  fc_interface :: rstring
  fc_kind :: rstring
  fc_id :: rstring
  fc_mac :: "bytes option"
  fc_path :: "rstring option"
  fc_driver :: "rstring option"
  fc_network_id :: "rstring option"
  fc_network_name :: "rstring option"
  fc_network_trust :: "rstring option"
  fc_network_kind :: "rstring option"

definition if_facts :: "iface \<Rightarrow> facts" where
  "if_facts i =
     (let non_empty = (\<lambda>s. if s \<noteq> [] then Some s else None)
      in \<lparr>fc_interface = ln_name (if_link i), fc_kind = link_kind_as_str (ln_kind (if_link i)),
          fc_id = if_ifid i, fc_mac = ln_mac (if_link i),
          fc_path = non_empty (id_path (if_identity i)), fc_driver = non_empty (id_driver (if_identity i)),
          fc_network_id = map_option nw_id (if_network i),
          fc_network_name = Option.bind (if_network i) nw_name,
          fc_network_trust = Option.bind (if_network i) nw_trust,
          fc_network_kind = map_option (\<lambda>n. link_kind_as_str (ln_kind (if_link i))) (if_network i)\<rparr>)"

definition mask6 :: "u8 \<Rightarrow> ipv6" where
  "mask6 prefix = (if prefix = 0 then 0 else push_bit (128 - min (unat prefix) 128) (- 1))"

definition add_prefix6 :: "(ipv6 \<times> u8) list \<Rightarrow> desired_address \<Rightarrow> (ipv6 \<times> u8) list" where
  "add_prefix6 ps a =
     (if da_deprecated a then ps
      else (let net = (da_address a AND mask6 (da_prefix a), da_prefix a)
            in if net \<in> set ps then ps else ps @ [net]))"

definition if_signals :: "iface \<Rightarrow> instant \<Rightarrow> signals" where
  "if_signals i now =
     (let s = \<lparr>sg_kind = link_kind_as_str (ln_kind (if_link i)), sg_server = None, sg_subnet = None,
               sg_gateway = None, sg_router6 = None, sg_prefixes6 = [], sg_dns = []\<rparr>;
          s = (case if_lease i of
                 None \<Rightarrow> s
               | Some l \<Rightarrow> s\<lparr>sg_server := Some (l_server l),
                             sg_subnet := Some (subnet_of (l_address l) (l_prefix l)),
                             sg_gateway := lease_gateway l, sg_dns := map V4 (l_dns l)\<rparr>)
      in case if_ndp i of
           None \<Rightarrow> s
         | Some e \<Rightarrow> s\<lparr>sg_router6 := default_router e now,
                       sg_prefixes6 := foldl add_prefix6 (sg_prefixes6 s) (ndp_addresses e now),
                       sg_dns := sg_dns s @ map V6 (dns_servers e now)\<rparr>)"

definition if_metric :: "iface \<Rightarrow> u32" where
  "if_metric i =
     (case Option.bind (if_profile i) (\<lambda>p. ac_route_metric (pf_address p)) of
        Some m \<Rightarrow> m
      | None \<Rightarrow> if ln_kind (if_link i) = Wireless then 600 else 100)"

section \<open>What it wants of the kernel\<close>

definition desired_default :: "u32 \<Rightarrow> desired" where
  "desired_default index =
     \<lparr>d_index = index, d_up = False, d_mtu = None, d_addresses = [], d_addresses6 = [], d_broadcast = None,
      d_default_route = None, d_default_route6 = None, d_routes = []\<rparr>"

definition add_static :: "desired \<Rightarrow> static_address \<Rightarrow> desired" where
  "add_static d s =
     (case sa_address s of
        V4 a \<Rightarrow> d\<lparr>d_addresses := d_addresses d @ [(a, sa_prefix s)]\<rparr>
      | V6 a \<Rightarrow> d\<lparr>d_addresses6 := d_addresses6 d @
                   [\<lparr>dv_address = a, dv_prefix = sa_prefix s, dv_deprecated = False, dv_no_prefix_route = False\<rparr>]\<rparr>)"

definition add_lease :: "address_config \<Rightarrow> u32 \<Rightarrow> desired \<Rightarrow> lease \<Rightarrow> desired" where
  "add_lease a metric d l =
     (let d = d\<lparr>d_addresses := d_addresses d @ [(l_address l, l_prefix l)], d_broadcast := l_broadcast l\<rparr>
      in if ac_route_offered a
         then d\<lparr>d_routes := d_routes d @
                  map (\<lambda>r. (sr_destination r, sr_prefix r, sr_gateway r, metric))
                    (filter (\<lambda>r. 0 < sr_prefix r) (l_static_routes l))\<rparr>
         else d)"

definition offered_mtu :: "address_config \<Rightarrow> iface \<Rightarrow> u32 option" where
  "offered_mtu a i =
     (if ac_mtu_offered a
      then (case Option.bind (if_lease i) (\<lambda>l. map_option ucast (l_mtu l)) of
              Some m \<Rightarrow> Some m | None \<Rightarrow> Option.bind (if_ndp i) e_mtu)
      else None)"

definition add_link_local :: "address_config \<Rightarrow> iface \<Rightarrow> desired \<Rightarrow> desired" where
  "add_link_local a i d =
     (case if_link_local i of
        Some ll \<Rightarrow>
          if if_lease i = None \<and> ac_statics a = []
          then d\<lparr>d_addresses := d_addresses d @ [(ll, 16)]\<rparr> else d
      | None \<Rightarrow> d)"

definition gateway4 :: "address_config \<Rightarrow> iface \<Rightarrow> ipv4 option" where
  "gateway4 a i =
     (case ac_gateway a of
        Some g \<Rightarrow> Some g
      | None \<Rightarrow> if ac_route_offered a then Option.bind (if_lease i) lease_gateway else None)"

definition add_engine :: "iface \<Rightarrow> instant \<Rightarrow> desired \<Rightarrow> desired" where
  "add_engine i now d =
     (case if_ndp i of
        Some e \<Rightarrow>
          d\<lparr>d_addresses6 := d_addresses6 d @
               map (\<lambda>x. \<lparr>dv_address = da_address x, dv_prefix = da_prefix x,
                         dv_deprecated = da_deprecated x, dv_no_prefix_route = \<not> da_on_link x\<rparr>)
                 (ndp_addresses e now)\<rparr>
      | None \<Rightarrow> d)"

definition gateway6 :: "address_config \<Rightarrow> iface \<Rightarrow> instant \<Rightarrow> ipv6 option" where
  "gateway6 a i now =
     (case ac_gateway6 a of
        Some g \<Rightarrow> Some g
      | None \<Rightarrow> if ac_route_offered a then Option.bind (if_ndp i) (\<lambda>e. default_router e now) else None)"

definition desired_in :: "profile \<Rightarrow> iface \<Rightarrow> instant \<Rightarrow> desired" where
  "desired_in profile i now =
     (let a = pf_address profile;
          metric = if_metric i;
          d = (desired_default (ln_index (if_link i)))
                \<lparr>d_up := True, d_mtu := (case ac_mtu a of Some m \<Rightarrow> Some m | None \<Rightarrow> offered_mtu a i)\<rparr>;
          d = foldl add_static d (ac_statics a);
          d = (case if_lease i of Some l \<Rightarrow> add_lease a metric d l | None \<Rightarrow> d);
          d = add_link_local a i d;
          d = (case gateway4 a i of Some g \<Rightarrow> d\<lparr>d_default_route := Some (g, metric)\<rparr> | None \<Rightarrow> d);
          d = (case if_restart i of
                 Some rs \<Rightarrow> restart_preserve rs d (ac_route_offered a) metric | None \<Rightarrow> d);
          d = add_engine i now d
      in case gateway6 a i now of Some g \<Rightarrow> d\<lparr>d_default_route6 := Some (g, metric)\<rparr> | None \<Rightarrow> d)"

definition if_desired :: "iface \<Rightarrow> instant \<Rightarrow> desired option" where
  "if_desired i now =
     (if ln_loopback (if_link i) then None
      else (case jd_outcome (if_judged i) of
              Ignore \<Rightarrow> None
            | Down \<Rightarrow> Some (desired_default (ln_index (if_link i)))
            | Join profile \<Rightarrow> Some (desired_in profile i now)))"

definition if_level :: "iface \<Rightarrow> observed \<Rightarrow> level" where
  "if_level i ob =
     (if \<not> (ln_up (if_link i) \<and> ln_carrier (if_link i)) then Absent
      else if \<not> list_ex address_usable (addresses_of ob (ln_index (if_link i))) then Linked
      else if list_ex route_is_default (routes_of ob (ln_index (if_link i))) then Routed
      else Addressed)"

section \<open>What it says about names\<close>

record dns_facts =
  df_servers :: "ipaddr list"
  df_search :: "rstring list"
  df_ntp :: "ipv4 list"

text \<open>\<^verbatim>\<open>retain(|x| seen.insert(x))\<close>: the first occurrences.\<close>

fun retain_first :: "'a list \<Rightarrow> 'a list \<Rightarrow> 'a list" where
  "retain_first seen [] = []"
| "retain_first seen (x # xs) = (if x \<in> set seen then retain_first seen xs else x # retain_first (x # seen) xs)"

definition if_dns :: "iface \<Rightarrow> instant \<Rightarrow> dns_facts" where
  "if_dns i now =
     (let (servers, search) =
        (case if_profile i of
           None \<Rightarrow> ([], [])
         | Some p \<Rightarrow>
             (let dns = pf_dns p; own = (dc_servers dns, dc_domains dns)
              in if \<not> dc_offered dns then own
                 else (let leased = (case if_lease i of
                                None \<Rightarrow> ([], [])
                              | Some l \<Rightarrow>
                                  (map V4 (l_dns l),
                                   if l_search l \<noteq> [] then l_search l
                                   else (case l_domain l of Some x \<Rightarrow> [x] | None \<Rightarrow> [])));
                           routed = (case if_ndp i of
                                None \<Rightarrow> ([], [])
                              | Some e \<Rightarrow> (map V6 (dns_servers e now), search_domains e now));
                           answered = (case Option.bind (if_dhcp6 i) d_info of
                                None \<Rightarrow> ([], [])
                              | Some x \<Rightarrow> (map V6 (i_dns x), i_search x))
                       in (fst own @ fst leased @ fst routed @ fst answered,
                           snd own @ snd leased @ snd routed @ snd answered))))
      in \<lparr>df_servers = retain_first [] servers, df_search = retain_first [] search,
          df_ntp = (case if_lease i of Some l \<Rightarrow> l_ntp l | None \<Rightarrow> [])\<rparr>)"

section \<open>Carrying out the clients' actions\<close>

datatype outgoing = Out4 message destination | OutSolicit bytes | Out6 bytes

definition link_local_for :: "bytes option \<Rightarrow> u32 \<Rightarrow> ipv4" where
  "link_local_for mac index =
     (let seed = (case mac of Some m \<Rightarrow> u32_of (slice m 2 6) | None \<Rightarrow> index * 2654435761);
          host = 256 + seed mod (65024 - 256)
      in ipv4_of [169, 254, ucast (drop_bit 8 host), ucast host])"

definition remember_restart :: "iface \<Rightarrow> observed \<Rightarrow> ipv4 option \<Rightarrow> iface" where
  "remember_restart i ob requested =
     i\<lparr>if_restart := (if if_first_dhcp_start i then restart_capture ob (ln_index (if_link i)) requested else None),
       if_first_dhcp_start := False\<rparr>"

definition finish_restart :: "iface \<Rightarrow> dhcp4_state option \<Rightarrow> iface \<times> bool" where
  "finish_restart i state =
     (if state \<noteq> Some Rebooting then (i\<lparr>if_restart := None\<rparr>, if_restart i \<noteq> None) else (i, False))"

definition if_warning :: "iface \<Rightarrow> rstring option" where
  "if_warning i =
     (if jd_conflict (if_judged i)
      then Some (''rules '' @ jd_rule (if_judged i) @ '' tie; the interface is ignored'')
      else if if_discovery_unanswered i then Some ''asked for an address; nobody answered'' else None)"

definition stop_dhcp :: "iface \<Rightarrow> instant \<Rightarrow> iface \<times> outgoing list" where
  "stop_dhcp i now =
     (let sends = (case if_dhcp i of
                     None \<Rightarrow> []
                   | Some c \<Rightarrow> List.map_filter
                       (\<lambda>a. case a of Send m dst \<Rightarrow> Some (Out4 m dst) | _ \<Rightarrow> None) (snd (dhcp4_release c now)))
      in (i\<lparr>if_dhcp := None, if_lease := None, if_restart := None, if_link_local := None,
            if_discovery_unanswered := False\<rparr>, sends))"

definition stop_ipv6 :: "iface \<Rightarrow> iface" where
  "stop_ipv6 i = i\<lparr>if_ndp := None, if_dhcp6 := None\<rparr>"

fun perform_ndp :: "iface \<Rightarrow> ndp_action list \<Rightarrow> bool \<times> outgoing list" where
  "perform_ndp i [] = (False, [])"
| "perform_ndp i (a # as) =
     (let (changed, outs) = perform_ndp i as
      in case a of
           Solicit body \<Rightarrow> (changed, (if if_ndp i \<noteq> None then [OutSolicit body] else []) @ outs)
         | Changed \<Rightarrow> (True, outs))"

fun perform_dhcp6 :: "iface \<Rightarrow> dhcp6_action list \<Rightarrow> bool \<times> outgoing list" where
  "perform_dhcp6 i [] = (False, [])"
| "perform_dhcp6 i (a # as) =
     (let (changed, outs) = perform_dhcp6 i as
      in case a of
           Send6 m \<Rightarrow> (changed, (if if_dhcp6 i \<noteq> None then [Out6 m] else []) @ outs)
         | Changed6 \<Rightarrow> (True, outs))"

text \<open>One action of the DHCPv4 client: the interface after it, whether it changed, what is sent.\<close>

fun perform_action :: "iface \<Rightarrow> dhcp4_action \<Rightarrow> iface \<times> bool \<times> outgoing list" where
  "perform_action i (Send m dst) = (i, False, if if_dhcp i \<noteq> None then [Out4 m dst] else [])"
| "perform_action i (BoundTo l) =
     (i\<lparr>if_lease := Some l, if_link_local := None, if_discovery_unanswered := False, if_rejudge := True\<rparr>, True, [])"
| "perform_action i NoOffer =
     (let i = i\<lparr>if_discovery_unanswered := True\<rparr>;
          wants_ll = (case if_profile i of Some p \<Rightarrow> ac_link_local (pf_address p) | None \<Rightarrow> False)
      in if wants_ll \<and> if_link_local i = None
         then (i\<lparr>if_link_local := Some (link_local_for (ln_mac (if_link i)) (ln_index (if_link i)))\<rparr>, True, [])
         else (i, False, []))"
| "perform_action i Lost =
     (let keep = (case if_profile i of Some p \<Rightarrow> ac_on_expiry (pf_address p) = ExpiryKeep | None \<Rightarrow> False)
      in if keep then (i, False, []) else (i\<lparr>if_lease := None\<rparr>, True, []))"

fun perform_actions :: "iface \<Rightarrow> dhcp4_action list \<Rightarrow> iface \<times> bool \<times> outgoing list" where
  "perform_actions i [] = (i, False, [])"
| "perform_actions i (a # as) =
     (let (i1, c1, o1) = perform_action i a;
          (i2, c2, o2) = perform_actions i1 as
      in (i2, c1 \<or> c2, o1 @ o2))"

definition perform :: "iface \<Rightarrow> dhcp4_action list \<Rightarrow> iface \<times> bool \<times> outgoing list" where
  "perform i actions =
     (let (i1, finished) = finish_restart i (map_option c_state (if_dhcp i));
          (i2, changed, outs) = perform_actions i1 actions
      in (i2, finished \<or> changed, outs))"

definition link_local_of :: "observed \<Rightarrow> u32 \<Rightarrow> ipv6 option" where
  "link_local_of ob index =
     (let matching = List.map_filter
        (\<lambda>a. case a_address a of
               V6 v6 \<Rightarrow> if is_v6_link_local v6 \<and> \<not> a_tentative a then Some v6 else None
             | V4 _ \<Rightarrow> None) (addresses_of ob index)
      in case matching of [] \<Rightarrow> None | v # _ \<Rightarrow> Some v)"


section \<open>Where the desired state comes from\<close>

definition statics4 :: "static_address list \<Rightarrow> (ipv4 \<times> u8) list" where
  "statics4 ss = List.map_filter (\<lambda>s. case sa_address s of V4 a \<Rightarrow> Some (a, sa_prefix s) | V6 _ \<Rightarrow> None) ss"

definition statics6 :: "static_address list \<Rightarrow> desired_v6 list" where
  "statics6 ss = List.map_filter
     (\<lambda>s. case sa_address s of
            V6 a \<Rightarrow> Some \<lparr>dv_address = a, dv_prefix = sa_prefix s, dv_deprecated = False, dv_no_prefix_route = False\<rparr>
          | V4 _ \<Rightarrow> None) ss"

lemma add_static_fields [simp]:
  "d_index (add_static d s) = d_index d" "d_up (add_static d s) = d_up d" "d_mtu (add_static d s) = d_mtu d"
  "d_broadcast (add_static d s) = d_broadcast d" "d_default_route (add_static d s) = d_default_route d"
  "d_default_route6 (add_static d s) = d_default_route6 d" "d_routes (add_static d s) = d_routes d"
  by (simp_all add: add_static_def split: ipaddr.split)

lemma add_statics_fields [simp]:
  "d_index (foldl add_static d ss) = d_index d" "d_up (foldl add_static d ss) = d_up d"
  "d_mtu (foldl add_static d ss) = d_mtu d"
  "d_broadcast (foldl add_static d ss) = d_broadcast d" "d_default_route (foldl add_static d ss) = d_default_route d"
  "d_default_route6 (foldl add_static d ss) = d_default_route6 d" "d_routes (foldl add_static d ss) = d_routes d"
  by (induction ss arbitrary: d) simp_all

lemma add_statics_addresses [simp]:
  "d_addresses (foldl add_static d ss) = d_addresses d @ statics4 ss"
  "d_addresses6 (foldl add_static d ss) = d_addresses6 d @ statics6 ss"
  by (induction ss arbitrary: d)
     (auto simp: statics4_def statics6_def add_static_def map_filter_simps split: ipaddr.split)

lemma add_lease_fields [simp]:
  "d_index (add_lease a m d l) = d_index d" "d_up (add_lease a m d l) = d_up d"
  "d_addresses (add_lease a m d l) = d_addresses d @ [(l_address l, l_prefix l)]"
  "d_addresses6 (add_lease a m d l) = d_addresses6 d"
  "d_default_route (add_lease a m d l) = d_default_route d"
  "d_default_route6 (add_lease a m d l) = d_default_route6 d"
  by (simp_all add: add_lease_def Let_def)

lemma preserve_all_fields [simp]:
  "d_index (restart_preserve rs d off m) = d_index d"
  "d_addresses (restart_preserve rs d off m) = d_addresses d @ rs_addresses rs"
  "d_addresses6 (restart_preserve rs d off m) = d_addresses6 d"
  "d_up (restart_preserve rs d off m) = d_up d"
  "d_default_route6 (restart_preserve rs d off m) = d_default_route6 d"
proof -
  have f: "d_addresses6 (foldl (preserve_route m) d rs) = d_addresses6 d \<and> d_up (foldl (preserve_route m) d rs) = d_up d
      \<and> d_default_route6 (foldl (preserve_route m) d rs) = d_default_route6 d" for d rs
    by (induction rs arbitrary: d) (auto simp: preserve_route_def split: ipaddr.split option.split)
  show "d_index (restart_preserve rs d off m) = d_index d"
    "d_addresses (restart_preserve rs d off m) = d_addresses d @ rs_addresses rs"
    by (simp_all add: preserve_addresses)
  show "d_addresses6 (restart_preserve rs d off m) = d_addresses6 d"
    "d_up (restart_preserve rs d off m) = d_up d"
    "d_default_route6 (restart_preserve rs d off m) = d_default_route6 d"
    using f by (simp_all add: restart_preserve_def Let_def)
qed

lemma preserve_default_kept:
  "d_default_route d = Some x \<Longrightarrow> d_default_route (restart_preserve rs d off m) = Some x"
  by (simp add: restart_preserve_def Let_def preserve_default_keep)

lemma preserve_unoffered: "restart_preserve rs d False m = d\<lparr>d_addresses := d_addresses d @ rs_addresses rs\<rparr>"
  by (simp add: restart_preserve_def)

definition lease_addresses :: "iface \<Rightarrow> (ipv4 \<times> u8) list" where
  "lease_addresses i = (case if_lease i of Some l \<Rightarrow> [(l_address l, l_prefix l)] | None \<Rightarrow> [])"

definition fallback_addresses :: "address_config \<Rightarrow> iface \<Rightarrow> (ipv4 \<times> u8) list" where
  "fallback_addresses a i =
     (case if_link_local i of
        Some ll \<Rightarrow> if if_lease i = None \<and> ac_statics a = [] then [(ll, 16)] else [] | None \<Rightarrow> [])"

definition restart_addresses :: "iface \<Rightarrow> (ipv4 \<times> u8) list" where
  "restart_addresses i = (case if_restart i of Some rs \<Rightarrow> rs_addresses rs | None \<Rightarrow> [])"

definition engine_addresses :: "iface \<Rightarrow> instant \<Rightarrow> desired_v6 list" where
  "engine_addresses i now =
     (case if_ndp i of
        None \<Rightarrow> []
      | Some e \<Rightarrow> map (\<lambda>x. \<lparr>dv_address = da_address x, dv_prefix = da_prefix x,
                            dv_deprecated = da_deprecated x, dv_no_prefix_route = \<not> da_on_link x\<rparr>) (ndp_addresses e now))"

lemma stage_lease:
  "d_addresses (case if_lease i of Some l \<Rightarrow> add_lease a m d l | None \<Rightarrow> d) = d_addresses d @ lease_addresses i"
  "d_addresses6 (case if_lease i of Some l \<Rightarrow> add_lease a m d l | None \<Rightarrow> d) = d_addresses6 d"
  "d_index (case if_lease i of Some l \<Rightarrow> add_lease a m d l | None \<Rightarrow> d) = d_index d"
  "d_up (case if_lease i of Some l \<Rightarrow> add_lease a m d l | None \<Rightarrow> d) = d_up d"
  "d_default_route (case if_lease i of Some l \<Rightarrow> add_lease a m d l | None \<Rightarrow> d) = d_default_route d"
  "d_default_route6 (case if_lease i of Some l \<Rightarrow> add_lease a m d l | None \<Rightarrow> d) = d_default_route6 d"
  "\<not> ac_route_offered a \<Longrightarrow> d_routes (case if_lease i of Some l \<Rightarrow> add_lease a m d l | None \<Rightarrow> d) = d_routes d"
  by (auto simp: lease_addresses_def add_lease_def Let_def split: option.split)

lemma stage_link_local:
  "d_addresses (add_link_local a i d) = d_addresses d @ fallback_addresses a i"
  "d_addresses6 (add_link_local a i d) = d_addresses6 d" "d_index (add_link_local a i d) = d_index d"
  "d_up (add_link_local a i d) = d_up d" "d_default_route (add_link_local a i d) = d_default_route d"
  "d_default_route6 (add_link_local a i d) = d_default_route6 d" "d_routes (add_link_local a i d) = d_routes d"
  by (auto simp: add_link_local_def fallback_addresses_def split: option.split)

lemma stage_gateway4:
  "d_addresses (case g of Some x \<Rightarrow> d\<lparr>d_default_route := Some (x, m)\<rparr> | None \<Rightarrow> d) = d_addresses d"
  "d_addresses6 (case g of Some x \<Rightarrow> d\<lparr>d_default_route := Some (x, m)\<rparr> | None \<Rightarrow> d) = d_addresses6 d"
  "d_index (case g of Some x \<Rightarrow> d\<lparr>d_default_route := Some (x, m)\<rparr> | None \<Rightarrow> d) = d_index d"
  "d_up (case g of Some x \<Rightarrow> d\<lparr>d_default_route := Some (x, m)\<rparr> | None \<Rightarrow> d) = d_up d"
  "d_default_route6 (case g of Some x \<Rightarrow> d\<lparr>d_default_route := Some (x, m)\<rparr> | None \<Rightarrow> d) = d_default_route6 d"
  "d_routes (case g of Some x \<Rightarrow> d\<lparr>d_default_route := Some (x, m)\<rparr> | None \<Rightarrow> d) = d_routes d"
  "d_default_route d = None \<Longrightarrow> d_default_route (case g of Some x \<Rightarrow> d\<lparr>d_default_route := Some (x, m)\<rparr> | None \<Rightarrow> d)
     = map_option (\<lambda>x. (x, m)) g"
  by (simp_all split: option.split)

lemma stage_restart:
  "d_addresses (case if_restart i of Some rs \<Rightarrow> restart_preserve rs d off m | None \<Rightarrow> d) = d_addresses d @ restart_addresses i"
  "d_addresses6 (case if_restart i of Some rs \<Rightarrow> restart_preserve rs d off m | None \<Rightarrow> d) = d_addresses6 d"
  "d_index (case if_restart i of Some rs \<Rightarrow> restart_preserve rs d off m | None \<Rightarrow> d) = d_index d"
  "d_up (case if_restart i of Some rs \<Rightarrow> restart_preserve rs d off m | None \<Rightarrow> d) = d_up d"
  "d_default_route6 (case if_restart i of Some rs \<Rightarrow> restart_preserve rs d off m | None \<Rightarrow> d) = d_default_route6 d"
  "d_default_route d = Some x \<Longrightarrow>
     d_default_route (case if_restart i of Some rs \<Rightarrow> restart_preserve rs d off m | None \<Rightarrow> d) = Some x"
  "\<not> off \<Longrightarrow> d_routes (case if_restart i of Some rs \<Rightarrow> restart_preserve rs d off m | None \<Rightarrow> d) = d_routes d"
  "\<not> off \<Longrightarrow> d_default_route (case if_restart i of Some rs \<Rightarrow> restart_preserve rs d off m | None \<Rightarrow> d) = d_default_route d"
  by (auto simp: restart_addresses_def preserve_default_kept preserve_unoffered split: option.split)

lemma stage_engine:
  "d_addresses (add_engine i now d) = d_addresses d"
  "d_addresses6 (add_engine i now d) = d_addresses6 d @ engine_addresses i now"
  "d_index (add_engine i now d) = d_index d" "d_up (add_engine i now d) = d_up d"
  "d_default_route (add_engine i now d) = d_default_route d" "d_routes (add_engine i now d) = d_routes d"
  "d_default_route6 (add_engine i now d) = d_default_route6 d"
  by (simp_all add: add_engine_def engine_addresses_def split: option.split)

lemma stage_gateway6:
  "d_addresses (case g of Some x \<Rightarrow> d\<lparr>d_default_route6 := Some (x, m)\<rparr> | None \<Rightarrow> d) = d_addresses d"
  "d_addresses6 (case g of Some x \<Rightarrow> d\<lparr>d_default_route6 := Some (x, m)\<rparr> | None \<Rightarrow> d) = d_addresses6 d"
  "d_index (case g of Some x \<Rightarrow> d\<lparr>d_default_route6 := Some (x, m)\<rparr> | None \<Rightarrow> d) = d_index d"
  "d_up (case g of Some x \<Rightarrow> d\<lparr>d_default_route6 := Some (x, m)\<rparr> | None \<Rightarrow> d) = d_up d"
  "d_default_route (case g of Some x \<Rightarrow> d\<lparr>d_default_route6 := Some (x, m)\<rparr> | None \<Rightarrow> d) = d_default_route d"
  "d_routes (case g of Some x \<Rightarrow> d\<lparr>d_default_route6 := Some (x, m)\<rparr> | None \<Rightarrow> d) = d_routes d"
  "d_default_route6 d = None \<Longrightarrow> d_default_route6 (case g of Some x \<Rightarrow> d\<lparr>d_default_route6 := Some (x, m)\<rparr> | None \<Rightarrow> d)
     = map_option (\<lambda>x. (x, m)) g"
  by (simp_all split: option.split)

lemmas stages = stage_lease stage_link_local stage_gateway4 stage_restart stage_engine stage_gateway6

lemma desired_in_fields:
  "d_index (desired_in p i now) = ln_index (if_link i)" "d_up (desired_in p i now)"
  "d_addresses (desired_in p i now) = statics4 (ac_statics (pf_address p)) @ lease_addresses i
       @ fallback_addresses (pf_address p) i @ restart_addresses i"
  "d_addresses6 (desired_in p i now) = statics6 (ac_statics (pf_address p)) @ engine_addresses i now"
  "gateway4 (pf_address p) i = Some g \<Longrightarrow> d_default_route (desired_in p i now) = Some (g, if_metric i)"
  by (simp_all add: desired_in_def Let_def stages desired_default_def)

lemma desired_in_unoffered:
  assumes "\<not> ac_route_offered (pf_address p)"
  shows "d_routes (desired_in p i now) = []"
    "d_default_route (desired_in p i now) = map_option (\<lambda>g. (g, if_metric i)) (ac_gateway (pf_address p))"
    "d_default_route6 (desired_in p i now) = map_option (\<lambda>g. (g, if_metric i)) (ac_gateway6 (pf_address p))"
proof -
  have "gateway4 (pf_address p) i = ac_gateway (pf_address p)" "gateway6 (pf_address p) i now = ac_gateway6 (pf_address p)"
    using assms by (simp_all add: gateway4_def gateway6_def split: option.split)
  then show "d_routes (desired_in p i now) = []"
    "d_default_route (desired_in p i now) = map_option (\<lambda>g. (g, if_metric i)) (ac_gateway (pf_address p))"
    "d_default_route6 (desired_in p i now) = map_option (\<lambda>g. (g, if_metric i)) (ac_gateway6 (pf_address p))"
    using assms by (simp_all add: desired_in_def Let_def stages desired_default_def)
qed

lemma in_statics4: "(a, x) \<in> set (statics4 ss) \<longleftrightarrow> (\<exists>s\<in>set ss. sa_address s = V4 a \<and> sa_prefix s = x)"
  by (force simp: statics4_def map_filter_def split: ipaddr.splits)

lemma in_other_addresses:
  "(a, x) \<in> set (lease_addresses i) \<longleftrightarrow> (\<exists>l. if_lease i = Some l \<and> a = l_address l \<and> x = l_prefix l)"
  "(a, x) \<in> set (fallback_addresses c i) \<longleftrightarrow>
     if_link_local i = Some a \<and> x = 16 \<and> if_lease i = None \<and> ac_statics c = []"
  "(a, x) \<in> set (restart_addresses i) \<longleftrightarrow> (\<exists>rs. if_restart i = Some rs \<and> (a, x) \<in> set (rs_addresses rs))"
  by (cases "if_lease i"; cases "if_link_local i"; cases "if_restart i";
      auto simp: lease_addresses_def fallback_addresses_def restart_addresses_def)+


definition ex_profile :: profile where
  "ex_profile = \<lparr>pf_path = ''office'', pf_enabled = True,
     pf_address = address_config_default\<lparr>ac_offered := True, ac_route_offered := True\<rparr>, pf_dns = dns_config_default\<rparr>"

definition ex_iface :: iface where
  "ex_iface =
     \<lparr>if_ifid = ''id'', if_identity = \<lparr>id_path = [], id_driver = []\<rparr>,
      if_link = ex_link\<lparr>ln_up := True, ln_carrier := True, ln_mac := Some [2, 0, 0, 0, 0, 1]\<rparr>,
      if_judged = judged_default\<lparr>jd_outcome := Join ex_profile\<rparr>, if_network = None, if_rejudge = False,
      if_discovery_unanswered = False, if_dhcp = Some ex_bound, if_lease = Some ex_lease, if_restart = None,
      if_first_dhcp_start = False, if_link_local = None, if_ndp = None, if_dhcp6 = None\<rparr>"

end
