(* ===== verification/Daemon.thy ===== *)
theory Daemon
  imports Interface
begin

text \<open>
  The steps of the daemon on its interfaces (\<^verbatim>\<open>netd/src/main.rs\<close>: links, identification,
  starting and stopping clients, reconciling) and the timers and receptions of the
  poll loop (\<^verbatim>\<open>netd/src/event_loop.rs\<close>).  What the outside answers to a step (whether a
  socket opens, a random seed, a registry record, the engine's judgment) is an argument.
\<close>

section \<open>Links\<close>

definition new_iface :: "(bytes \<Rightarrow> bytes) \<Rightarrow> (rstring \<Rightarrow> identity) \<Rightarrow> link \<Rightarrow> iface" where
  "new_iface sha1 read_identity ln =
     (let identity = read_identity (ln_name ln)
      in \<lparr>if_ifid = interface_id sha1 identity (ln_mac ln) (ln_name ln), if_identity = identity, if_link = ln,
          if_judged = judged_default, if_network = None, if_rejudge = False, if_discovery_unanswered = False,
          if_dhcp = None, if_lease = None, if_restart = None, if_first_dhcp_start = True,
          if_link_local = None, if_ndp = None, if_dhcp6 = None\<rparr>)"

definition has_carrier :: "link \<Rightarrow> bool" where
  "has_carrier ln = (ln_carrier ln \<and> ln_up ln)"

definition stop_all :: "iface \<Rightarrow> instant \<Rightarrow> iface \<times> outgoing list" where
  "stop_all i now = (let (i, outs) = stop_dhcp i now in (stop_ipv6 i, outs))"

definition sync_link :: "(facts \<Rightarrow> judged) \<Rightarrow> iface \<Rightarrow> link \<Rightarrow> instant \<Rightarrow> iface \<times> outgoing list" where
  "sync_link judge_of i ln now =
     (let had_carrier = has_carrier (if_link i);
          i = i\<lparr>if_link := ln\<rparr>;
          (i, outs) = (if had_carrier \<and> \<not> has_carrier ln
                       then (let (i, outs) = stop_all i now in (i\<lparr>if_network := None\<rparr>, outs))
                       else (i, []));
          i = i\<lparr>if_rejudge := False\<rparr>
      in if ln_loopback ln then (i, outs)
         else (let j = judge_of (if_facts i);
                   (i, outs') = (if jd_outcome j \<noteq> jd_outcome (if_judged i) then stop_all i now else (i, []))
               in (i\<lparr>if_judged := j\<rparr>, outs @ outs')))"

definition sync_entry ::
    "(bytes \<Rightarrow> bytes) \<Rightarrow> (rstring \<Rightarrow> identity) \<Rightarrow> (facts \<Rightarrow> judged) \<Rightarrow> instant
      \<Rightarrow> (u32, iface) btree \<times> outgoing list \<Rightarrow> link \<Rightarrow> (u32, iface) btree \<times> outgoing list" where
  "sync_entry sha1 read_identity judge_of now st ln =
     (case st of (is, outs) \<Rightarrow>
       (let i = (case bt_get is (ln_index ln) of Some i \<Rightarrow> i | None \<Rightarrow> new_iface sha1 read_identity ln);
            (i', outs') = sync_link judge_of i ln now
        in (bt_insert (ln_index ln) i' is, outs @ outs')))"

definition sync_links ::
    "(bytes \<Rightarrow> bytes) \<Rightarrow> (rstring \<Rightarrow> identity) \<Rightarrow> (facts \<Rightarrow> judged) \<Rightarrow> (u32, iface) btree \<Rightarrow> observed
      \<Rightarrow> instant \<Rightarrow> (u32, iface) btree \<times> outgoing list" where
  "sync_links sha1 read_identity judge_of is ob now =
     foldl (sync_entry sha1 read_identity judge_of now)
       (bt_retain (\<lambda>index i. index \<in> fst ` set (o_links ob)) is, []) (map snd (o_links ob))"

text \<open>\<^verbatim>\<open>network_sync\<close> is the record the registry holds for the network, created or refreshed.\<close>

definition identify_network :: "(bytes \<Rightarrow> bytes) \<Rightarrow> (rstring \<Rightarrow> signals \<Rightarrow> network) \<Rightarrow> instant \<Rightarrow> iface \<Rightarrow> iface" where
  "identify_network sha1 network_sync now i =
     (if \<not> (managed i \<and> ln_up (if_link i) \<and> ln_carrier (if_link i)) then i
      else (case signals_identity sha1 (if_signals i now) of
              None \<Rightarrow> i
            | Some nid \<Rightarrow>
                (let known = (case if_network i of Some n \<Rightarrow> nw_id n = nid | None \<Rightarrow> False);
                     record = network_sync nid (if_signals i now);
                     i = (if \<not> known then i\<lparr>if_rejudge := True\<rparr> else i)
                 in i\<lparr>if_network := Some record\<rparr>)))"

section \<open>Starting and stopping the clients\<close>

text \<open>
  What starting DHCPv4 asks of the outside: whether the packet socket opens, the seed,
  the client identifier, and the address last used on the interface's last network.
\<close>

record dhcp_env =
  de_hostname :: "rstring option"
  de_socket :: bool
  de_seed :: u64
  de_client_id :: bytes
  de_last_address :: "ipv4 option"

definition launch_dhcp :: "iface \<Rightarrow> observed \<Rightarrow> instant \<Rightarrow> dhcp_env \<Rightarrow> profile \<Rightarrow> bytes \<Rightarrow> iface \<times> outgoing list" where
  "launch_dhcp i ob now env p mac =
     (let config = \<lparr>cfg_chaddr = mac, cfg_client_id = de_client_id env,
                    cfg_hostname = (if ac_announce_hostname (pf_address p) then de_hostname env else None),
                    cfg_seed = de_seed env XOR ucast (ln_index (if_link i))\<rparr>;
          previous = (case Option.bind (if_network i) nw_requested_address of
                        Some a \<Rightarrow> Some a | None \<Rightarrow> de_last_address env);
          (client, actions) = dhcp4_start (dhcp4_new config now) now previous;
          i = remember_restart i ob previous;
          (i, changed, outs) = perform (i\<lparr>if_dhcp := Some client, if_lease := None\<rparr>) actions
      in (i, outs))"

definition start_dhcp :: "iface \<Rightarrow> observed \<Rightarrow> instant \<Rightarrow> dhcp_env \<Rightarrow> iface \<times> outgoing list" where
  "start_dhcp i ob now env =
     (case if_profile i of
        None \<Rightarrow> (i, [])
      | Some p \<Rightarrow>
          (let wants = managed i \<and> ac_dhcp4 (pf_address p);
               can = ln_up (if_link i) \<and> ln_carrier (if_link i);
               (i, outs) = (if if_dhcp i \<noteq> None \<and> \<not> (wants \<and> can) then stop_dhcp i now else (i, []))
           in case ln_mac (if_link i) of
                Some mac \<Rightarrow>
                  if wants \<and> can \<and> if_dhcp i = None \<and> de_socket env then
                    (let (i, outs') = launch_dhcp i ob now env p mac in (i, outs @ outs'))
                  else (i, outs)
              | None \<Rightarrow> (i, outs)))"

definition ndp_seed :: "iface \<Rightarrow> u64" where
  "ndp_seed i =
     foldl (\<lambda>a b. word_rotl 8 a XOR ucast b) 0 (as_bytes (if_ifid i)) XOR push_bit 32 (ucast (ln_index (if_link i)))"

text \<open>The same for IPv6: the two sockets, the address secret, the identifier and the seed.\<close>

record ipv6_env =
  ve_icmp6_socket :: bool
  ve_secret :: "bytes option"
  ve_dhcp6_socket :: bool
  ve_duid :: bytes
  ve_seed :: u64

text \<open>The second half of \<^verbatim>\<open>start_ipv6_where_due\<close>: DHCPv6, once the routers have asked for it.\<close>

definition start_dhcp6 :: "iface \<Rightarrow> observed \<Rightarrow> instant \<Rightarrow> ipv6_env \<Rightarrow> iface \<times> outgoing list" where
  "start_dhcp6 i ob now env =
     (let wanted6 = (case if_ndp i of Some e \<Rightarrow> e_dhcp6_wanted e | None \<Rightarrow> False);
          i = (if if_dhcp6 i \<noteq> None \<and> \<not> wanted6 then i\<lparr>if_dhcp6 := None\<rparr> else i)
      in if wanted6 \<and> if_dhcp6 i = None then
           (case (link_local_of ob (ln_index (if_link i)), ln_mac (if_link i)) of
              (Some ll, Some mac) \<Rightarrow>
                if ve_dhcp6_socket env then
                  (let (client, actions) = dhcp6_start
                         (dhcp6_new \<lparr>d_duid = ve_duid env, d_seed = ve_seed env XOR ucast (ln_index (if_link i))\<rparr>) now;
                       i = i\<lparr>if_dhcp6 := Some client\<rparr>
                   in (i, snd (perform_dhcp6 i actions)))
                else (i, [])
            | _ \<Rightarrow> (i, []))
         else (i, []))"

text \<open>None: the engine's start does not return.\<close>

definition start_ipv6 :: "iface \<Rightarrow> observed \<Rightarrow> instant \<Rightarrow> ipv6_env \<Rightarrow> (iface \<times> outgoing list) option" where
  "start_ipv6 i ob now env =
     (case if_profile i of
        None \<Rightarrow> Some (i, [])
      | Some p \<Rightarrow>
          (let wants = managed i \<and> ac_autoconf6 (pf_address p);
               can = ln_up (if_link i) \<and> ln_carrier (if_link i) \<and> link_local_of ob (ln_index (if_link i)) \<noteq> None;
               i = (if if_ndp i \<noteq> None \<and> \<not> (wants \<and> can) then stop_ipv6 i else i)
           in if wants \<and> can \<and> if_ndp i = None then
                (case (ve_icmp6_socket env, ve_secret env) of
                   (True, Some secret) \<Rightarrow>
                     (case ndp_start (ndp_new
                             \<lparr>nc_interface = if_ifid i, nc_secret = secret, nc_temporary = ac_temporary (pf_address p),
                              nc_mac = ln_mac (if_link i), nc_seed = ndp_seed i\<rparr>) now of
                        None \<Rightarrow> None
                      | Some (engine, actions) \<Rightarrow>
                          (let i = i\<lparr>if_ndp := Some engine\<rparr>;
                               outs = snd (perform_ndp i actions);
                               (i, outs') = start_dhcp6 i ob now env
                           in Some (i, outs @ outs')))
                 | _ \<Rightarrow> Some (i, []))
              else Some (start_dhcp6 i ob now env)))"

section \<open>Receiving\<close>

text \<open>Each returns the interface, whether the network changed, and what is sent.\<close>

definition receive4 :: "instant \<Rightarrow> iface \<Rightarrow> message \<Rightarrow> iface \<times> bool \<times> outgoing list" where
  "receive4 now i m =
     (case if_dhcp i of
        None \<Rightarrow> perform i []
      | Some c \<Rightarrow> (let (c', actions) = dhcp4_receive c now m in perform (i\<lparr>if_dhcp := Some c'\<rparr>) actions))"

definition receive_nd :: "(bytes \<Rightarrow> bytes) \<Rightarrow> instant \<Rightarrow> iface \<Rightarrow> ipv6 \<times> nat \<times> bytes
      \<Rightarrow> (iface \<times> bool \<times> outgoing list) option" where
  "receive_nd sha1 now i msg =
     (case msg of (source, hops, body) \<Rightarrow>
       if hops \<noteq> 255 \<or> \<not> is_v6_link_local source then Some (i, False, [])
       else (case if_ndp i of
               None \<Rightarrow> Some (i, False, [])
             | Some e \<Rightarrow>
                 (case ndp_receive sha1 e now source body of
                    None \<Rightarrow> None
                  | Some (e', actions) \<Rightarrow>
                      (let i = i\<lparr>if_ndp := Some e'\<rparr> in Some (i, perform_ndp i actions)))))"

definition receive6 :: "instant \<Rightarrow> iface \<Rightarrow> bytes \<Rightarrow> iface \<times> bool \<times> outgoing list" where
  "receive6 now i m =
     (case if_dhcp6 i of
        None \<Rightarrow> (i, perform_dhcp6 i [])
      | Some c \<Rightarrow> (let (c', actions) = dhcp6_receive c now m; i = i\<lparr>if_dhcp6 := Some c'\<rparr> in (i, perform_dhcp6 i actions)))"

section \<open>Ticking\<close>

definition tick4 :: "instant \<Rightarrow> iface \<Rightarrow> iface \<times> bool \<times> outgoing list" where
  "tick4 now i =
     (case if_dhcp i of
        None \<Rightarrow> perform i []
      | Some c \<Rightarrow> (let (c', actions) = dhcp4_tick c now in perform (i\<lparr>if_dhcp := Some c'\<rparr>) actions))"

definition tick_nd :: "instant \<Rightarrow> iface \<Rightarrow> (iface \<times> bool \<times> outgoing list) option" where
  "tick_nd now i =
     (case if_ndp i of
        None \<Rightarrow> Some (i, perform_ndp i [])
      | Some e \<Rightarrow>
          (case ndp_tick e now of
             None \<Rightarrow> None
           | Some (e', actions) \<Rightarrow> (let i = i\<lparr>if_ndp := Some e'\<rparr> in Some (i, perform_ndp i actions))))"

definition tick6 :: "instant \<Rightarrow> iface \<Rightarrow> iface \<times> bool \<times> outgoing list" where
  "tick6 now i =
     (case if_dhcp6 i of
        None \<Rightarrow> (i, perform_dhcp6 i [])
      | Some c \<Rightarrow> (let (c', actions) = dhcp6_tick c now; i = i\<lparr>if_dhcp6 := Some c'\<rparr> in (i, perform_dhcp6 i actions)))"

text \<open>One interface: the result, and whether to converge or to reconcile.\<close>

definition tick_iface :: "instant \<Rightarrow> iface \<Rightarrow> (iface \<times> bool \<times> bool \<times> outgoing list) option" where
  "tick_iface now i =
     (let (i, r1, o1) = tick4 now i
      in case tick_nd now i of
           None \<Rightarrow> None
         | Some (i, c, o2) \<Rightarrow>
             (let (i, r2, o3) = tick6 now i in Some (i, c, r1 \<or> r2, o1 @ o2 @ o3)))"

fun tick_all :: "instant \<Rightarrow> (u32, iface) btree \<Rightarrow> ((u32, iface) btree \<times> bool \<times> bool \<times> outgoing list) option" where
  "tick_all now [] = Some ([], False, False, [])"
| "tick_all now ((k, i) # is) =
     (case tick_iface now i of
        None \<Rightarrow> None
      | Some (i', c, r, outs) \<Rightarrow>
          map_option (\<lambda>(is', c', r', outs'). ((k, i') # is', c \<or> c', r \<or> r', outs @ outs')) (tick_all now is))"

text \<open>The \<^verbatim>\<open>renew\<close> request of the control socket, on the interface it names; none: it is not using DHCP.\<close>

definition renew_iface :: "instant \<Rightarrow> iface \<Rightarrow> (iface \<times> bool \<times> outgoing list) option" where
  "renew_iface now i =
     (case if_dhcp i of
        None \<Rightarrow> None
      | Some c \<Rightarrow> Some (let (c', actions) = dhcp4_renew_now c now in perform (i\<lparr>if_dhcp := Some c'\<rparr>) actions))"

section \<open>The poll timeout\<close>

definition iface_deadline :: "iface \<Rightarrow> instant option" where
  "iface_deadline i =
     earlier (earlier (Option.bind (if_dhcp i) dhcp4_next_deadline) (Option.bind (if_ndp i) ndp_next_deadline))
       (Option.bind (if_dhcp6 i) dhcp6_next_deadline)"

definition poll_deadline :: "(u32, iface) btree \<Rightarrow> instant option \<Rightarrow> instant option" where
  "poll_deadline is clients = earlier (foldl (\<lambda>d e. earlier d (iface_deadline (snd e))) None is) clients"

definition poll_timeout :: "(u32, iface) btree \<Rightarrow> instant option \<Rightarrow> instant \<Rightarrow> int" where
  "poll_timeout is clients now =
     (case poll_deadline is clients of
        Some t \<Rightarrow> int (min (as_millis (saturating_duration_since t now)) (2 ^ 31 - 1))
      | None \<Rightarrow> - 1)"

section \<open>Reconciling\<close>

definition reconcile_one :: "('k \<Rightarrow> op \<Rightarrow> 'k \<times> int option option) \<Rightarrow> observed \<Rightarrow> instant \<Rightarrow> 'k \<Rightarrow> iface \<Rightarrow> 'k" where
  "reconcile_one rtnl ob now k i =
     (case if_desired i now of
        None \<Rightarrow> k
      | Some d \<Rightarrow> (let ops = plan ob d in if ops \<noteq> [] then fst (apply_ops rtnl k ops) else k))"

text \<open>The observed state is re-read at the end; a dump that fails keeps the old one.\<close>

definition reconcile_all ::
    "('k \<Rightarrow> op \<Rightarrow> 'k \<times> int option option) \<Rightarrow> ('k \<Rightarrow> observed option) \<Rightarrow> (u32, iface) btree \<Rightarrow> observed
      \<Rightarrow> instant \<Rightarrow> 'k \<Rightarrow> 'k \<times> observed" where
  "reconcile_all rtnl dump is ob now k =
     (let k' = foldl (reconcile_one rtnl ob now) k (map snd is)
      in (k', case dump k' of Some ob' \<Rightarrow> ob' | None \<Rightarrow> ob))"

definition machine_level :: "(u32, iface) btree \<Rightarrow> observed \<Rightarrow> level" where
  "machine_level is ob =
     foldl (\<lambda>l i. if ln_loopback (if_link i) then l
                   else if managed i then max l (if_level i ob) else l) Absent (map snd is)"

section \<open>The machine's name\<close>

record naming =
  nm_set :: "rstring option"
  nm_refused :: "rstring option"

definition hostname_from_lease :: "(u32, iface) btree \<Rightarrow> rstring option" where
  "hostname_from_lease is =
     (case List.map_filter
        (\<lambda>i. if (case if_profile i of Some p \<Rightarrow> ac_accept_hostname (pf_address p) | None \<Rightarrow> False)
             then Option.bind (if_lease i) l_hostname else None) (map snd is) of
        [] \<Rightarrow> None | h # _ \<Rightarrow> Some h)"

text \<open>
  \<^verbatim>\<open>apply_hostname\<close>: the names kept, and the name \<^verbatim>\<open>sethostname\<close> is called with, if it is.
  The argument \<^verbatim>\<open>accepted\<close> is whether that call succeeds.
\<close>

definition apply_hostname ::
    "rstring option \<Rightarrow> (u32, iface) btree \<Rightarrow> (rstring \<Rightarrow> bool) \<Rightarrow> naming \<Rightarrow> naming \<times> rstring option" where
  "apply_hostname configured is accepted nm =
     (case (case configured of Some h \<Rightarrow> Some h | None \<Rightarrow> hostname_from_lease is) of
        None \<Rightarrow> (nm\<lparr>nm_refused := None\<rparr>, None)
      | Some name \<Rightarrow>
          (case hostname_check name of
             Inl reason \<Rightarrow> (nm\<lparr>nm_refused := Some name\<rparr>, None)
           | Inr name \<Rightarrow>
               (let nm = nm\<lparr>nm_refused := None\<rparr>
                in if nm_set nm = Some name then (nm, None)
                   else if accepted name then (nm\<lparr>nm_set := Some name\<rparr>, Some name)
                   else (nm, Some name))))"


section \<open>The lease the client reports\<close>

text \<open>The lease a caller holds after the notices of a client that had \<^verbatim>\<open>l\<close>.\<close>

fun noticed :: "lease option \<Rightarrow> dhcp4_action \<Rightarrow> lease option" where
  "noticed l (BoundTo x) = Some x"
| "noticed l Lost = None"
| "noticed l _ = l"

definition lease_after :: "dhcp4_action list \<Rightarrow> lease option \<Rightarrow> lease option" where
  "lease_after as l = foldl noticed l as"

lemma lease_after_simps [simp]:
  "lease_after [] l = l" "lease_after (a # as) l = lease_after as (noticed l a)"
  by (simp_all add: lease_after_def)

lemma lease_after_notices: "lease_after (notices as) l = lease_after as l"
proof (induction as arbitrary: l)
  case (Cons a as)
  then show ?case by (cases a) simp_all
qed simp

fun rfc_lease :: "rfc_state \<Rightarrow> lease option" where
  "rfc_lease (RBound l b) = Some l"
| "rfc_lease (RRenewing l b) = Some l"
| "rfc_lease (RRebinding l b) = Some l"
| "rfc_lease _ = None"

lemma abs_lease: "dhcp4_inv c \<Longrightarrow> rfc_lease (dhcp4_abs c) = c_lease c"
  by (auto simp: dhcp4_inv_def dhcp4_abs_def leased_def unleased_def split: dhcp4_state.splits)

lemma rfc_lease_after:
  assumes "rfc2131 s now ev ns s'" "\<And>p. ev \<noteq> EvStart p" "ev \<noteq> EvRelease"
  shows "rfc_lease s' = lease_after ns (rfc_lease s)"
  using assms by (cases rule: rfc2131.cases) auto

text \<open>So the notices of a call say exactly what became of the lease.\<close>

lemma step_lease:
  assumes "dhcp4_inv c" "dhcp4_step c now ev = (c', as)" "\<And>p. ev \<noteq> EvStart p" "ev \<noteq> EvRelease"
  shows "c_lease c' = lease_after as (c_lease c)"
proof -
  have s: "rfc2131 (dhcp4_abs c) now ev (notices as) (dhcp4_abs c')"
    using refines_step [OF assms(1), of now ev] assms(2) by simp
  have "dhcp4_inv c'" using inv_step [OF assms(1), of now ev] assms(2) by simp
  then show ?thesis
    using rfc_lease_after [OF s assms(3,4)] abs_lease assms(1) lease_after_notices by simp
qed

lemma start_lease:
  assumes "dhcp4_start c now previous = (c', as)"
  shows "c_lease c' = None" "lease_after as None = None" "dhcp4_inv c'"
proof -
  show inv: "dhcp4_inv c'" using inv_start [of c now previous] assms by simp
  have "notices as = []" using notices_send(11) [of c now previous] assms by simp
  then show "lease_after as None = None" using lease_after_notices [of as None] by simp
  have "c_state c' \<in> {Selecting, Rebooting}"
    using assms by (auto simp: dhcp4_start_def enter_rebooting_def send_reboot_request_def enter_selecting_def
        send_discover_def Let_def split_def split: option.splits)
  then show "c_lease c' = None" using inv by (auto simp: dhcp4_inv_def unleased_def)
qed

section \<open>The invariant of an interface\<close>

definition keeps :: "iface \<Rightarrow> bool" where
  "keeps i = (case if_profile i of Some p \<Rightarrow> ac_on_expiry (pf_address p) = ExpiryKeep | None \<Rightarrow> False)"

text \<open>
  The interface's lease is the client's; it outlives the client's only where the
  profile says to keep an address past its expiry.
\<close>

definition coherent :: "iface \<Rightarrow> lease option \<Rightarrow> bool" where
  "coherent i l = ((\<forall>x. l = Some x \<longrightarrow> if_lease i = Some x) \<and> (l = None \<and> if_lease i \<noteq> None \<longrightarrow> keeps i))"

definition dhcp_ok :: "iface \<Rightarrow> bool" where
  "dhcp_ok i =
     (case if_dhcp i of
        None \<Rightarrow> if_lease i = None \<and> if_restart i = None \<and> if_link_local i = None \<and> \<not> if_discovery_unanswered i
      | Some c \<Rightarrow> dhcp4_inv c \<and> coherent i (c_lease c) \<and> (if_restart i \<noteq> None \<longrightarrow> c_state c = Rebooting))"

definition ipv6_ok :: "iface \<Rightarrow> bool" where
  "ipv6_ok i =
     ((\<forall>e. if_ndp i = Some e \<longrightarrow> ndp_inv e) \<and> (\<forall>c. if_dhcp6 i = Some c \<longrightarrow> dhcp6_inv c \<and> if_ndp i \<noteq> None))"

definition iface_inv :: "iface \<Rightarrow> bool" where
  "iface_inv i = (dhcp_ok i \<and> ipv6_ok i \<and> (if_dhcp i \<noteq> None \<or> if_ndp i \<noteq> None \<longrightarrow> managed i))"

lemma profile_cong:
  "if_link i' = if_link i \<Longrightarrow> if_judged i' = if_judged i \<Longrightarrow> if_profile i' = if_profile i \<and> managed i' = managed i \<and> keeps i' = keeps i"
  by (simp add: if_profile_def managed_def keeps_def)

text \<open>What carrying out actions leaves alone.\<close>

lemma perform_action_fields [simp]:
  "if_link (fst (perform_action i a)) = if_link i" "if_judged (fst (perform_action i a)) = if_judged i"
  "if_dhcp (fst (perform_action i a)) = if_dhcp i" "if_ndp (fst (perform_action i a)) = if_ndp i"
  "if_dhcp6 (fst (perform_action i a)) = if_dhcp6 i" "if_restart (fst (perform_action i a)) = if_restart i"
  by (cases a; simp add: Let_def)+

lemma perform_actions_fields [simp]:
  "if_link (fst (perform_actions i as)) = if_link i" "if_judged (fst (perform_actions i as)) = if_judged i"
  "if_dhcp (fst (perform_actions i as)) = if_dhcp i" "if_ndp (fst (perform_actions i as)) = if_ndp i"
  "if_dhcp6 (fst (perform_actions i as)) = if_dhcp6 i" "if_restart (fst (perform_actions i as)) = if_restart i"
  by (induction as arbitrary: i) (simp_all add: Let_def split_def)

lemma perform_action_coherent:
  assumes "coherent i l"
  shows "coherent (fst (perform_action i a)) (noticed l a)"
proof (cases a)
  case Lost
  have "keeps i \<Longrightarrow> fst (perform_action i Lost) = i" "\<not> keeps i \<Longrightarrow> if_lease (fst (perform_action i Lost)) = None"
    by (simp_all add: keeps_def Let_def)
  with Lost show ?thesis by (cases "keeps i") (simp_all add: coherent_def)
next
  case NoOffer
  have "if_lease (fst (perform_action i NoOffer)) = if_lease i" by (simp add: Let_def)
  moreover have "keeps (fst (perform_action i NoOffer)) = keeps i"
    by (intro profile_cong [THEN conjunct2, THEN conjunct2] perform_action_fields)
  ultimately show ?thesis using assms NoOffer by (simp add: coherent_def)
qed (use assms in \<open>simp_all add: coherent_def\<close>)

lemma perform_actions_coherent: "coherent i l \<Longrightarrow> coherent (fst (perform_actions i as)) (lease_after as l)"
proof (induction as arbitrary: i l)
  case (Cons a as)
  from Cons.IH [OF perform_action_coherent [OF Cons.prems, of a]] show ?case
    by (simp add: Let_def split_def)
qed simp

lemma finish_restart_fields [simp]:
  "if_link (fst (finish_restart i s)) = if_link i" "if_judged (fst (finish_restart i s)) = if_judged i"
  "if_dhcp (fst (finish_restart i s)) = if_dhcp i" "if_ndp (fst (finish_restart i s)) = if_ndp i"
  "if_dhcp6 (fst (finish_restart i s)) = if_dhcp6 i" "if_lease (fst (finish_restart i s)) = if_lease i"
  "if_restart (fst (finish_restart i s)) = (if s = Some Rebooting then if_restart i else None)"
  by (simp_all add: finish_restart_def)

lemma perform_fst: "fst (perform i as) = fst (perform_actions (fst (finish_restart i (map_option c_state (if_dhcp i)))) as)"
  by (simp add: perform_def Let_def split_def)

lemma perform_fields [simp]:
  "if_link (fst (perform i as)) = if_link i" "if_judged (fst (perform i as)) = if_judged i"
  "if_dhcp (fst (perform i as)) = if_dhcp i" "if_ndp (fst (perform i as)) = if_ndp i"
  "if_dhcp6 (fst (perform i as)) = if_dhcp6 i"
  "if_restart (fst (perform i as)) = (if map_option c_state (if_dhcp i) = Some Rebooting then if_restart i else None)"
  by (simp_all add: perform_fst)

text \<open>
  After a call on the client: its actions carried out on the interface keep the
  invariant, whatever the interface remembered of a restart.
\<close>

lemma perform_dhcp_ok:
  assumes "if_dhcp i = Some c'" "dhcp4_inv c'" "coherent i l" "c_lease c' = lease_after as l"
  shows "dhcp_ok (fst (perform i as))"
proof -
  let ?s = "Some (c_state c')"
  have "coherent (fst (finish_restart i ?s)) l"
    using assms(3) profile_cong [of "fst (finish_restart i ?s)" i] by (simp add: coherent_def)
  from perform_actions_coherent [OF this, of as] assms show ?thesis
    by (auto simp: dhcp_ok_def perform_fst split: if_splits)
qed

section \<open>Every step keeps it\<close>

lemma iface_inv_cong:
  assumes "iface_inv i" "if_link i' = if_link i" "if_judged i' = if_judged i" "if_ndp i' = if_ndp i"
    "if_dhcp6 i' = if_dhcp6 i" "if_dhcp i' = None \<longleftrightarrow> if_dhcp i = None" "dhcp_ok i'"
  shows "iface_inv i'"
  using assms profile_cong [OF assms(2,3)] by (auto simp: iface_inv_def ipv6_ok_def)

lemma perform_call:
  assumes "iface_inv i" "if_dhcp i = Some c" "dhcp4_step c now ev = (c', as)" "\<And>p. ev \<noteq> EvStart p" "ev \<noteq> EvRelease"
  shows "iface_inv (fst (perform (i\<lparr>if_dhcp := Some c'\<rparr>) as))"
proof -
  let ?i = "i\<lparr>if_dhcp := Some c'\<rparr>"
  have c: "dhcp4_inv c" "coherent i (c_lease c)"
    using assms(1,2) by (simp_all add: iface_inv_def dhcp_ok_def)
  have "dhcp4_inv c'" using inv_step [OF c(1), of now ev] assms(3) by simp
  moreover have "coherent ?i (c_lease c)" using c(2) profile_cong [of ?i i] by (simp add: coherent_def)
  ultimately have "dhcp_ok (fst (perform ?i as))"
    using perform_dhcp_ok [of ?i c' "c_lease c" as] step_lease [OF c(1) assms(3,4,5)] by simp
  then show ?thesis using assms(1,2) by (intro iface_inv_cong [OF assms(1)]) simp_all
qed

lemma perform_nothing: "iface_inv i \<Longrightarrow> if_dhcp i = None \<Longrightarrow> iface_inv (fst (perform i []))"
  by (rule iface_inv_cong) (simp_all add: iface_inv_def dhcp_ok_def perform_fst finish_restart_def)

lemma receive4_inv: "iface_inv i \<Longrightarrow> iface_inv (fst (receive4 now i m))"
  using perform_call [where ev = "EvReceive m"] perform_nothing
  by (auto simp: receive4_def split_def Let_def split: option.split)

lemma tick4_inv: "iface_inv i \<Longrightarrow> iface_inv (fst (tick4 now i))"
  using perform_call [where ev = EvTick] perform_nothing
  by (auto simp: tick4_def split_def Let_def split: option.split)

text \<open>Nothing of the IPv4 part depends on the IPv6 part.\<close>

lemma inv_ndp_update:
  assumes "iface_inv i" "if_ndp i = Some e" "ndp_inv e'"
  shows "iface_inv (i\<lparr>if_ndp := Some e'\<rparr>)"
  using assms profile_cong [of "i\<lparr>if_ndp := Some e'\<rparr>" i]
  by (auto simp: iface_inv_def dhcp_ok_def ipv6_ok_def coherent_def split: option.splits)

lemma inv_dhcp6_update:
  assumes "iface_inv i" "if_ndp i \<noteq> None" "\<forall>c'. d = Some c' \<longrightarrow> dhcp6_inv c'"
  shows "iface_inv (i\<lparr>if_dhcp6 := d\<rparr>)"
  using assms profile_cong [of "i\<lparr>if_dhcp6 := d\<rparr>" i]
  by (auto simp: iface_inv_def dhcp_ok_def ipv6_ok_def coherent_def split: option.splits)

lemma ndp_receive_inv:
  assumes "ndp_receive sha1 e now source body = Some (e', as)" "ndp_inv e" "digest_ok sha1"
  shows "ndp_inv e'"
proof (cases "ndp_acts (NdpReceive source body)")
  case True
  with ndp_step_post(1) [of sha1 e now "NdpReceive source body" e' as] assms show ?thesis by simp
next
  case False
  with ndp_step_idle [of "NdpReceive source body" sha1 e now] assms show ?thesis by simp
qed

lemma inv_ndp: "iface_inv i \<Longrightarrow> if_ndp i = Some e \<Longrightarrow> ndp_inv e"
  by (simp add: iface_inv_def ipv6_ok_def)

lemma receive_nd_inv:
  assumes "iface_inv i" "digest_ok sha1" "receive_nd sha1 now i msg = Some (i', r)"
  shows "iface_inv i'"
proof (cases "i' = i")
  case False
  then obtain e e' as s h b where e: "if_ndp i = Some e" "ndp_receive sha1 e now s b = Some (e', as)"
    "i' = i\<lparr>if_ndp := Some e'\<rparr>"
    using assms(3) by (auto simp: receive_nd_def Let_def split: prod.splits if_splits option.splits)
  show ?thesis
    unfolding e(3) by (rule inv_ndp_update [OF assms(1) e(1)])
      (rule ndp_receive_inv [OF e(2) inv_ndp [OF assms(1) e(1)] assms(2)])
qed (use assms in simp)

lemma tick_nd_inv:
  assumes "iface_inv i" "tick_nd now i = Some (i', r)"
  shows "iface_inv i'"
proof (cases "if_ndp i")
  case None
  then show ?thesis using assms by (simp add: tick_nd_def)
next
  case (Some e)
  then obtain e' as where e: "ndp_tick e now = Some (e', as)" "i' = i\<lparr>if_ndp := Some e'\<rparr>"
    using assms(2) by (auto simp: tick_nd_def Let_def split: option.splits)
  show ?thesis
    unfolding e(2) by (rule inv_ndp_update [OF assms(1) Some])
      (rule ndp_tick_post(1) [OF e(1) inv_ndp [OF assms(1) Some]])
qed

lemma dhcp6_update_inv:
  assumes "iface_inv i" "if_dhcp6 i = Some c" "dhcp6_inv c'"
  shows "iface_inv (i\<lparr>if_dhcp6 := Some c'\<rparr>)"
  using assms by (intro inv_dhcp6_update) (auto simp: iface_inv_def ipv6_ok_def)

lemma inv_dhcp6: "iface_inv i \<Longrightarrow> if_dhcp6 i = Some c \<Longrightarrow> dhcp6_inv c"
  by (simp add: iface_inv_def ipv6_ok_def)

lemma receive6_inv: "iface_inv i \<Longrightarrow> iface_inv (fst (receive6 now i m))"
  by (auto simp: receive6_def Let_def split_def intro: dhcp6_update_inv dhcp6_receive_inv inv_dhcp6 split: option.split)

lemma tick6_inv: "iface_inv i \<Longrightarrow> iface_inv (fst (tick6 now i))"
  by (auto simp: tick6_def Let_def split_def intro: dhcp6_update_inv dhcp6_tick_inv inv_dhcp6 split: option.split)

lemma tick_iface_parts:
  assumes "tick_iface now i = Some (i', c, r, outs)"
  obtains i2 x where "tick_nd now (fst (tick4 now i)) = Some (i2, x)" "i' = fst (tick6 now i2)"
  using assms by (auto simp: tick_iface_def Let_def split_def split: option.splits)

lemma tick_iface_inv:
  assumes "iface_inv i" "tick_iface now i = Some (i', c, r, outs)"
  shows "iface_inv i'"
  using assms(2) by (rule tick_iface_parts) (use tick4_inv [OF assms(1)] tick_nd_inv tick6_inv in blast)

lemma stop_dhcp_fst: "fst (stop_dhcp i now) = i\<lparr>if_dhcp := None, if_lease := None, if_restart := None, if_link_local := None,
            if_discovery_unanswered := False\<rparr>"
  by (simp add: stop_dhcp_def Let_def)

lemma stop_dhcp_inv: "iface_inv i \<Longrightarrow> iface_inv (fst (stop_dhcp i now))"
  using profile_cong [of "fst (stop_dhcp i now)" i]
  by (auto simp: iface_inv_def dhcp_ok_def ipv6_ok_def stop_dhcp_fst)

lemma stop_ipv6_inv: "iface_inv i \<Longrightarrow> iface_inv (stop_ipv6 i)"
  using profile_cong [of "stop_ipv6 i" i]
  by (auto simp: iface_inv_def dhcp_ok_def ipv6_ok_def stop_ipv6_def coherent_def split: option.splits)

text \<open>With its clients stopped, an interface keeps the invariant whatever else changes.\<close>

definition stopped :: "iface \<Rightarrow> bool" where
  "stopped i = (if_dhcp i = None \<and> if_ndp i = None \<and> if_dhcp6 i = None \<and> dhcp_ok i)"

lemma stopped_inv: "stopped i \<Longrightarrow> iface_inv i"
  by (simp add: stopped_def iface_inv_def ipv6_ok_def)

lemma stopped_stop_all: "stopped (fst (stop_all i now))"
  by (simp add: stopped_def stop_all_def stop_dhcp_def stop_ipv6_def dhcp_ok_def Let_def split_def)

lemma stopped_cong:
  "stopped i \<Longrightarrow> stopped (i\<lparr>if_network := n\<rparr>)" "stopped i \<Longrightarrow> stopped (i\<lparr>if_rejudge := b\<rparr>)"
  "stopped i \<Longrightarrow> stopped (i\<lparr>if_judged := j\<rparr>)" "stopped i \<Longrightarrow> stopped (i\<lparr>if_link := ln\<rparr>)"
  by (auto simp: stopped_def dhcp_ok_def)

lemma inv_other_fields:
  assumes "iface_inv i" "ln_loopback ln = ln_loopback (if_link i)" "jd_outcome j = jd_outcome (if_judged i)"
  shows "iface_inv (i\<lparr>if_link := ln, if_judged := j, if_network := n, if_rejudge := b\<rparr>)"
  using assms by (auto simp: iface_inv_def dhcp_ok_def ipv6_ok_def coherent_def keeps_def if_profile_def managed_def
      split: option.splits)

lemma launch_dhcp_inv:
  assumes "iface_inv i" "managed i"
  shows "iface_inv (fst (launch_dhcp i ob now env p mac))"
proof -
  define client where "client = dhcp4_new \<lparr>cfg_chaddr = mac, cfg_client_id = de_client_id env,
      cfg_hostname = (if ac_announce_hostname (pf_address p) then de_hostname env else None),
      cfg_seed = de_seed env XOR ucast (ln_index (if_link i))\<rparr> now"
  define previous where "previous = (case Option.bind (if_network i) nw_requested_address of
      Some a \<Rightarrow> Some a | None \<Rightarrow> de_last_address env)"
  obtain c as where s: "dhcp4_start client now previous = (c, as)" by force
  let ?i = "(remember_restart i ob previous)\<lparr>if_dhcp := Some c, if_lease := None\<rparr>"
  have r: "fst (launch_dhcp i ob now env p mac) = fst (perform ?i as)"
    using s unfolding client_def previous_def by (simp add: launch_dhcp_def Let_def split_def)
  have "dhcp_ok (fst (perform ?i as))"
    by (rule perform_dhcp_ok [of _ c None]) (simp_all add: start_lease [OF s] coherent_def)
  moreover have "managed (fst (perform ?i as))"
    using assms(2) by (simp add: managed_def remember_restart_def)
  moreover have "ipv6_ok (fst (perform ?i as))"
    using assms(1) by (simp add: iface_inv_def ipv6_ok_def remember_restart_def)
  ultimately show ?thesis unfolding r by (simp add: iface_inv_def)
qed

lemma start_dhcp_cases:
  obtains "fst (start_dhcp i ob now env) = i"
  | "fst (start_dhcp i ob now env) = fst (stop_dhcp i now)"
  | p mac where "managed i" "fst (start_dhcp i ob now env) = fst (launch_dhcp i ob now env p mac)"
proof (cases "if_profile i")
  case None
  then show ?thesis using that(1) by (simp add: start_dhcp_def)
next
  case (Some p)
  show ?thesis
  proof (cases "if_dhcp i \<noteq> None \<and> \<not> (managed i \<and> ac_dhcp4 (pf_address p) \<and> ln_up (if_link i) \<and> ln_carrier (if_link i))")
    case True
    with Some have "fst (start_dhcp i ob now env) = fst (stop_dhcp i now)"
      by (auto simp: start_dhcp_def Let_def split_def split: option.split)
    then show ?thesis by (rule that(2))
  next
    case False
    with Some have "fst (start_dhcp i ob now env) = i
        \<or> managed i \<and> (\<exists>mac. fst (start_dhcp i ob now env) = fst (launch_dhcp i ob now env p mac))"
      by (auto simp: start_dhcp_def Let_def split_def split: option.split)
    with that(1,3) show ?thesis by blast
  qed
qed

lemma start_dhcp_inv: "iface_inv i \<Longrightarrow> iface_inv (fst (start_dhcp i ob now env))"
  by (rule start_dhcp_cases [of i ob now env]) (simp_all add: stop_dhcp_inv launch_dhcp_inv)

lemma sync_link_inv:
  assumes "iface_inv i" "ln_loopback ln = ln_loopback (if_link i)"
  shows "iface_inv (fst (sync_link judge_of i ln now))"
proof -
  define lost where "lost = (has_carrier (if_link i) \<and> \<not> has_carrier ln)"
  define i1 where "i1 = (if lost then (fst (stop_all (i\<lparr>if_link := ln\<rparr>) now))\<lparr>if_network := None, if_rejudge := False\<rparr>
                         else i\<lparr>if_link := ln, if_rejudge := False\<rparr>)"
  have keep: "iface_inv (i\<lparr>if_link := ln, if_rejudge := False, if_judged := j\<rparr>)"
    if j: "jd_outcome j = jd_outcome (if_judged i)" for j
  proof -
    have e: "i\<lparr>if_link := ln, if_rejudge := False, if_judged := j\<rparr>
        = i\<lparr>if_link := ln, if_judged := j, if_network := if_network i, if_rejudge := False\<rparr>"
      by simp
    show ?thesis unfolding e by (rule inv_other_fields [OF assms j])
  qed
  have stop: "stopped ((fst (stop_all (i\<lparr>if_link := ln\<rparr>) now))\<lparr>if_network := None, if_rejudge := False\<rparr>)"
    by (intro stopped_cong stopped_stop_all)
  have i1: "iface_inv (i1\<lparr>if_judged := j\<rparr>)" if j: "jd_outcome j = jd_outcome (if_judged i1)" for j
  proof (cases lost)
    case True
    then show ?thesis using stop by (simp add: i1_def stopped_inv stopped_cong)
  next
    case False
    with keep j show ?thesis by (simp add: i1_def)
  qed
  have "iface_inv i1" using i1 [of "if_judged i1"] by simp
  moreover have "stopped ((fst (stop_all i1 now))\<lparr>if_judged := j\<rparr>)" for j by (intro stopped_cong stopped_stop_all)
  moreover have "fst (sync_link judge_of i ln now) =
      (if ln_loopback ln then i1
       else (let j = judge_of (if_facts i1)
             in (if jd_outcome j \<noteq> jd_outcome (if_judged i1) then fst (stop_all i1 now) else i1)\<lparr>if_judged := j\<rparr>))"
    by (simp add: sync_link_def i1_def lost_def Let_def split_def)
  ultimately show ?thesis using i1 stopped_inv by (simp add: Let_def)
qed

lemma inv_notes:
  assumes "iface_inv i"
  shows "iface_inv (i\<lparr>if_network := n\<rparr>)" "iface_inv (i\<lparr>if_rejudge := b\<rparr>)"
  using inv_other_fields [OF assms refl refl, where n = n and b = "if_rejudge i"]
    inv_other_fields [OF assms refl refl, where n = "if_network i" and b = b] by simp_all

lemma identify_network_inv: "iface_inv i \<Longrightarrow> iface_inv (identify_network sha1 network_sync now i)"
  unfolding identify_network_def Let_def by (auto intro!: inv_notes split: option.split)

lemma start_dhcp6_inv: "iface_inv i \<Longrightarrow> iface_inv (fst (start_dhcp6 i ob now env))"
proof -
  assume i: "iface_inv i"
  define wanted where "wanted = (case if_ndp i of Some e \<Rightarrow> e_dhcp6_wanted e | None \<Rightarrow> False)"
  define i1 where "i1 = (if if_dhcp6 i \<noteq> None \<and> \<not> wanted then i\<lparr>if_dhcp6 := None\<rparr> else i)"
  have "if_dhcp6 i \<noteq> None \<Longrightarrow> if_ndp i \<noteq> None" using i by (auto simp: iface_inv_def ipv6_ok_def)
  then have i1: "iface_inv i1" using i by (simp add: i1_def inv_dhcp6_update)
  have w: "wanted \<Longrightarrow> if_ndp i1 \<noteq> None" by (simp add: wanted_def i1_def split: option.splits)
  have "iface_inv (i1\<lparr>if_dhcp6 := Some (fst (dhcp6_start (dhcp6_new cfg) now))\<rparr>)" if "wanted" for cfg
    using w [OF that] by (intro inv_dhcp6_update [OF i1]) (simp_all add: dhcp6_start_inv dhcp6_new_inv)
  moreover have "fst (start_dhcp6 i ob now env) = i1
      \<or> wanted \<and> (\<exists>cfg. fst (start_dhcp6 i ob now env) = i1\<lparr>if_dhcp6 := Some (fst (dhcp6_start (dhcp6_new cfg) now))\<rparr>)"
    unfolding start_dhcp6_def wanted_def [symmetric] i1_def [symmetric] Let_def split_def
    by (auto split: option.splits)
  ultimately show ?thesis using i1 by auto
qed

lemma start_ipv6_inv:
  assumes "iface_inv i" "start_ipv6 i ob now env = Some (i', outs)"
  shows "iface_inv i'"
proof (cases "if_profile i")
  case None
  then show ?thesis using assms by (simp add: start_ipv6_def)
next
  case (Some p)
  define due where "due = (managed i \<and> ac_autoconf6 (pf_address p) \<and> ln_up (if_link i) \<and> ln_carrier (if_link i)
      \<and> link_local_of ob (ln_index (if_link i)) \<noteq> None)"
  define i1 where "i1 = (if if_ndp i \<noteq> None \<and> \<not> due then stop_ipv6 i else i)"
  have i1: "iface_inv i1" using assms(1) by (simp add: i1_def stop_ipv6_inv)
  have start: "iface_inv (i1\<lparr>if_ndp := Some e\<rparr>)"
    if "due" "if_ndp i1 = None" "ndp_start (ndp_new cfg) now = Some (e, as)" for cfg e as
  proof -
    have e: "ndp_inv e"
      using that(3) ndp_tick_post(1) [of _ now e as] ndp_start_inv [OF ndp_new_inv [of cfg], of now] by (simp add: ndp_start_def)
    have "managed i1" using that(1) by (simp add: due_def i1_def managed_def stop_ipv6_def)
    then show ?thesis
      using i1 e that(2) profile_cong [of "i1\<lparr>if_ndp := Some e\<rparr>" i1]
      by (auto simp: iface_inv_def dhcp_ok_def ipv6_ok_def coherent_def split: option.splits)
  qed
  have "i' = i1 \<or> i' = fst (start_dhcp6 i1 ob now env)
      \<or> (\<exists>cfg e as. due \<and> if_ndp i1 = None \<and> ndp_start (ndp_new cfg) now = Some (e, as)
           \<and> i' = fst (start_dhcp6 (i1\<lparr>if_ndp := Some e\<rparr>) ob now env))"
    using assms(2) Some unfolding start_ipv6_def Let_def split_def due_def i1_def
    by (auto split: if_splits option.splits bool.splits) blast
  with i1 start start_dhcp6_inv show ?thesis by metis
qed

lemma renew_iface_inv: "iface_inv i \<Longrightarrow> renew_iface now i = Some r \<Longrightarrow> iface_inv (fst r)"
  using perform_call [where ev = EvRenew]
  by (auto simp: renew_iface_def split_def Let_def split: option.splits)

section \<open>The interface as a state machine\<close>

text \<open>
  Everything the daemon does to one interface, in any order and at any time: what the
  outside answers is arbitrary, but a link does not become a loopback.
\<close>

inductive iface_step :: "(bytes \<Rightarrow> bytes) \<Rightarrow> iface \<Rightarrow> iface \<Rightarrow> bool" for sha1 where
  linked: "ln_loopback ln = ln_loopback (if_link i) \<Longrightarrow> iface_step sha1 i (fst (sync_link judge_of i ln now))"
| identified: "iface_step sha1 i (identify_network sha1 network_sync now i)"
| dhcp_due: "iface_step sha1 i (fst (start_dhcp i ob now env))"
| ipv6_due: "start_ipv6 i ob now env6 = Some (i', outs) \<Longrightarrow> iface_step sha1 i i'"
| received4: "iface_step sha1 i (fst (receive4 now i m))"
| received_nd: "receive_nd sha1 now i msg = Some (i', r) \<Longrightarrow> iface_step sha1 i i'"
| received6: "iface_step sha1 i (fst (receive6 now i bs))"
| ticked: "tick_iface now i = Some (i', c, r', outs) \<Longrightarrow> iface_step sha1 i i'"
| renewed: "renew_iface now i = Some r'' \<Longrightarrow> iface_step sha1 i (fst r'')"

inductive iface_reachable :: "(bytes \<Rightarrow> bytes) \<Rightarrow> iface \<Rightarrow> bool" for sha1 where
  fresh: "iface_reachable sha1 (new_iface sha1 read_identity ln)"
| step: "iface_reachable sha1 i \<Longrightarrow> iface_step sha1 i i' \<Longrightarrow> iface_reachable sha1 i'"

lemma iface_step_inv:
  assumes "iface_step sha1 i i'" "digest_ok sha1" "iface_inv i"
  shows "iface_inv i'"
  using assms(1)
proof cases
  case linked
  then show ?thesis using sync_link_inv [OF assms(3)] by simp
next
  case identified
  then show ?thesis using identify_network_inv [OF assms(3)] by simp
next
  case dhcp_due
  then show ?thesis using start_dhcp_inv [OF assms(3)] by simp
next
  case ipv6_due
  with start_ipv6_inv [OF assms(3)] show ?thesis by blast
next
  case received4
  then show ?thesis using receive4_inv [OF assms(3)] by simp
next
  case received_nd
  with receive_nd_inv [OF assms(3,2)] show ?thesis by blast
next
  case received6
  then show ?thesis using receive6_inv [OF assms(3)] by simp
next
  case ticked
  with tick_iface_inv [OF assms(3)] show ?thesis by blast
next
  case renewed
  then show ?thesis using renew_iface_inv [OF assms(3)] by simp
qed

lemma iface_reachable_inv: "iface_reachable sha1 i \<Longrightarrow> digest_ok sha1 \<Longrightarrow> iface_inv i"
proof (induction rule: iface_reachable.induct)
  case (fresh read_identity ln)
  then show ?case by (simp add: new_iface_def iface_inv_def dhcp_ok_def ipv6_ok_def Let_def)
next
  case (step i i')
  then show ?case using iface_step_inv by blast
qed

section \<open>The timers of the daemon\<close>

text \<open>
  A tick of an interface is a tick of each client it has, so the contract of the
  clients gives that of the interface, and that of the interface gives the daemon's.
\<close>

abbreviation iface_ticked :: "iface \<Rightarrow> instant \<Rightarrow> iface \<Rightarrow> bool" where
  "iface_ticked i now i' \<equiv> \<exists>c r outs. tick_iface now i = Some (i', c, r, outs)"

lemma rel_option_None [simp]: "rel_option R None y \<longleftrightarrow> y = None" "rel_option R x None \<longleftrightarrow> x = None"
  by (cases y; simp) (cases x; simp)

lemma tick4_fields:
  "rel_option (\<lambda>c c'. dhcp4_ticked c now c') (if_dhcp i) (if_dhcp (fst (tick4 now i)))"
  "if_ndp (fst (tick4 now i)) = if_ndp i" "if_dhcp6 (fst (tick4 now i)) = if_dhcp6 i"
  by (simp_all add: tick4_def Let_def split_def split: option.split)

lemma tick_nd_fields:
  assumes "tick_nd now i = Some (i', x)"
  shows "rel_option (\<lambda>e e'. ndp_ticked e now e') (if_ndp i) (if_ndp i')"
    "if_dhcp i' = if_dhcp i" "if_dhcp6 i' = if_dhcp6 i"
  using assms by (auto simp: tick_nd_def Let_def split: option.splits)

lemma tick6_fields:
  "rel_option (\<lambda>c c'. dhcp6_ticked c now c') (if_dhcp6 i) (if_dhcp6 (fst (tick6 now i)))"
  "if_ndp (fst (tick6 now i)) = if_ndp i" "if_dhcp (fst (tick6 now i)) = if_dhcp i"
  by (simp_all add: tick6_def Let_def split_def split: option.split)

lemma iface_ticked_clients:
  assumes "iface_ticked i now i'"
  shows "rel_option (\<lambda>c c'. dhcp4_ticked c now c') (if_dhcp i) (if_dhcp i')"
    "rel_option (\<lambda>e e'. ndp_ticked e now e') (if_ndp i) (if_ndp i')"
    "rel_option (\<lambda>c c'. dhcp6_ticked c now c') (if_dhcp6 i) (if_dhcp6 i')"
proof -
  obtain c r outs where t: "tick_iface now i = Some (i', c, r, outs)" using assms by blast
  obtain i2 x where p: "tick_nd now (fst (tick4 now i)) = Some (i2, x)" "i' = fst (tick6 now i2)"
    by (rule tick_iface_parts [OF t])
  show "rel_option (\<lambda>c c'. dhcp4_ticked c now c') (if_dhcp i) (if_dhcp i')"
    "rel_option (\<lambda>e e'. ndp_ticked e now e') (if_ndp i) (if_ndp i')"
    "rel_option (\<lambda>c c'. dhcp6_ticked c now c') (if_dhcp6 i) (if_dhcp6 i')"
    using tick4_fields [of now i] tick_nd_fields [OF p(1)] tick6_fields [of now i2] by (simp_all add: p(2))
qed

text \<open>Several ticks at one instant, client by client.\<close>

lemma ticks_component:
  assumes "\<And>i i'. tick i now i' \<Longrightarrow> rel_option (\<lambda>c c'. t c now c') (get i) (get i')"
  shows "ticks tick n i now i' \<Longrightarrow> rel_option (\<lambda>c c'. ticks t n c now c') (get i) (get i')"
proof (induction n arbitrary: i)
  case 0
  then show ?case by (simp add: option.rel_refl)
next
  case (Suc n)
  then obtain i1 where i1: "tick i now i1" "ticks tick n i1 now i'" by auto
  from assms [OF i1(1)] Suc.IH [OF i1(2)] show ?case
    by (cases "get i"; cases "get i1"; cases "get i'") auto
qed

lemma later_component:
  assumes "timed_machine t deadline invar k" "k \<le> n" "\<And>c. x = Some c \<Longrightarrow> invar c"
    "rel_option (\<lambda>c c'. ticks t n c now c') x x'"
  shows "later (Option.bind x' deadline) now"
proof (cases x)
  case None
  with assms(4) show ?thesis by simp
next
  case (Some c)
  with assms(4) obtain c' where c': "x' = Some c'" "ticks t n c now c'" by (auto simp: option_rel_Some1)
  from timed_machine.no_spin [OF assms(1) assms(3) [OF Some] assms(2) c'(2)] c'(1) show ?thesis by simp
qed

lemma stays_component:
  assumes "timed_machine t deadline invar k" "rel_option (\<lambda>c c'. t c now c') x x'" "\<And>c. x = Some c \<Longrightarrow> invar c"
    "later (Option.bind x deadline) now"
  shows "later (Option.bind x' deadline) now"
proof (cases x)
  case None
  with assms(2) show ?thesis by simp
next
  case (Some c)
  with assms(2) obtain c' where c': "x' = Some c'" "t c now c'" by (auto simp: option_rel_Some1)
  from timed_machine.stays [OF assms(1) assms(3) [OF Some] _ c'(2)] Some c'(1) assms(4) show ?thesis by simp
qed

lemma inv_clients:
  assumes "iface_inv i"
  shows "if_dhcp i = Some c \<Longrightarrow> dhcp4_inv c" "if_ndp i = Some e \<Longrightarrow> ndp_inv e" "if_dhcp6 i = Some d \<Longrightarrow> dhcp6_inv d"
  using assms by (simp_all add: iface_inv_def dhcp_ok_def ipv6_ok_def)

interpretation iface_timed: timed_machine iface_ticked iface_deadline iface_inv 3
proof
  fix i now i'
  assume inv: "iface_inv i"
  show "iface_ticked i now i' \<Longrightarrow> iface_inv i'" using tick_iface_inv [OF inv] by blast
  note clients = inv_clients [OF inv]
  show "later (iface_deadline i') now" if t: "ticks iface_ticked 3 i now i'"
  proof -
    have "later (Option.bind (if_dhcp i') dhcp4_next_deadline) now"
      by (rule later_component [OF dhcp4_timed.timed_machine_axioms order_refl clients(1)], assumption)
         (rule ticks_component [where get = if_dhcp, OF _ t], rule iface_ticked_clients)
    moreover have "later (Option.bind (if_ndp i') ndp_next_deadline) now"
      by (rule later_component [OF ndp_timed.timed_machine_axioms, of 3, OF _ clients(2)], simp, assumption)
         (rule ticks_component [where get = if_ndp, OF _ t], rule iface_ticked_clients)
    moreover have "later (Option.bind (if_dhcp6 i') dhcp6_next_deadline) now"
      by (rule later_component [OF dhcp6_timed.timed_machine_axioms, of 3, OF _ clients(3)], simp, assumption)
         (rule ticks_component [where get = if_dhcp6, OF _ t], rule iface_ticked_clients)
    ultimately show ?thesis by (simp add: iface_deadline_def)
  qed
  show "later (iface_deadline i') now" if l: "later (iface_deadline i) now" and t: "iface_ticked i now i'"
    using l stays_component [OF dhcp4_timed.timed_machine_axioms iface_ticked_clients(1) [OF t] clients(1)]
      stays_component [OF ndp_timed.timed_machine_axioms iface_ticked_clients(2) [OF t] clients(2)]
      stays_component [OF dhcp6_timed.timed_machine_axioms iface_ticked_clients(3) [OF t] clients(3)]
    by (simp add: iface_deadline_def)
qed

abbreviation netd_ticked :: "(u32, iface) btree \<Rightarrow> instant \<Rightarrow> (u32, iface) btree \<Rightarrow> bool" where
  "netd_ticked is now is' \<equiv> \<exists>c r outs. tick_all now is = Some (is', c, r, outs)"

lemma netd_ticked_each: "netd_ticked is now is' \<Longrightarrow> list_all2 (\<lambda>e e'. iface_ticked (snd e) now (snd e')) is is'"
proof (induction "is" arbitrary: is')
  case (Cons e "is")
  then show ?case by (cases e) (fastforce split: option.splits)
qed simp

lemma netd_ticks_each:
  "ticks netd_ticked n is now is' \<Longrightarrow> list_all2 (\<lambda>e e'. ticks iface_ticked n (snd e) now (snd e')) is is'"
proof (induction n arbitrary: "is")
  case 0
  then show ?case by (simp add: list_all2_refl)
next
  case (Suc n)
  then obtain is1 where "netd_ticked is now is1" "ticks netd_ticked n is1 now is'" by auto
  with Suc.IH netd_ticked_each
  have "list_all2 (\<lambda>e e'. iface_ticked (snd e) now (snd e')) is is1"
    "list_all2 (\<lambda>e e'. ticks iface_ticked n (snd e) now (snd e')) is1 is'" by blast+
  then show ?case by (rule list_all2_trans [rotated]) auto
qed

abbreviation netd_inv :: "(u32, iface) btree \<Rightarrow> bool" where
  "netd_inv is \<equiv> \<forall>e\<in>set is. iface_inv (snd e)"

lemma later_poll_deadline:
  "later (poll_deadline is clients) now \<longleftrightarrow> (\<forall>e\<in>set is. later (iface_deadline (snd e)) now) \<and> later clients now"
  by (simp add: poll_deadline_def later_foldl_earlier)

lemma list_all2_image: "list_all2 R xs ys \<Longrightarrow> (\<And>x y. x \<in> set xs \<Longrightarrow> R x y \<Longrightarrow> P y) \<Longrightarrow> \<forall>y\<in>set ys. P y"
  by (induction rule: list_all2_induct) auto

interpretation netd_timed: timed_machine netd_ticked "\<lambda>is. poll_deadline is None" netd_inv 3
proof
  fix "is" now is'
  assume inv: "netd_inv is"
  show "netd_inv is'" if "netd_ticked is now is'"
    by (rule list_all2_image [OF netd_ticked_each [OF that]]) (use inv iface_timed.invar_tick in blast)
  show "later (poll_deadline is' None) now" if t: "ticks netd_ticked 3 is now is'"
  proof -
    have "\<forall>e\<in>set is'. later (iface_deadline (snd e)) now"
      by (rule list_all2_image [OF netd_ticks_each [OF t]]) (use inv iface_timed.settles in blast)
    then show ?thesis by (simp add: later_poll_deadline)
  qed
  show "later (poll_deadline is' None) now" if l: "later (poll_deadline is None) now" and t: "netd_ticked is now is'"
  proof -
    have "\<forall>e\<in>set is. later (iface_deadline (snd e)) now" using l by (simp add: later_poll_deadline)
    then have "\<forall>e\<in>set is'. later (iface_deadline (snd e)) now"
      by (intro list_all2_image [OF netd_ticked_each [OF t]]) (use inv iface_timed.stays in blast)
    then show ?thesis by (simp add: later_poll_deadline)
  qed
qed

section \<open>The properties of the daemon\<close>

text \<open>
  C20: In every state an interface can reach, whatever the network, the kernel, the rules
  and the operator do and in whatever order: the lease it configures is its client's,
  and outlives the client's only where the profile keeps addresses past their expiry;
  state kept over a restart is only there while the client is confirming its old
  address; without a client there is no lease, no self-assigned address and no such
  state; DHCPv6 runs only beside router discovery; and clients run only on an
  interface that is joined and is not a loopback.
\<close>

theorem iface_invariant:
  assumes "iface_reachable sha1 i" "digest_ok sha1"
  shows "(\<forall>c. if_dhcp i = Some c \<longrightarrow>
            (c_lease c \<noteq> None \<longrightarrow> if_lease i = c_lease c)
            \<and> (c_lease c = None \<and> if_lease i \<noteq> None \<longrightarrow>
                 (\<exists>p. if_profile i = Some p \<and> ac_on_expiry (pf_address p) = ExpiryKeep))
            \<and> (if_restart i \<noteq> None \<longrightarrow> c_state c = Rebooting))
     \<and> (if_dhcp i = None \<longrightarrow> if_lease i = None \<and> if_restart i = None \<and> if_link_local i = None)
     \<and> (if_dhcp6 i \<noteq> None \<longrightarrow> if_ndp i \<noteq> None)
     \<and> (if_dhcp i \<noteq> None \<or> if_ndp i \<noteq> None \<longrightarrow>
          \<not> ln_loopback (if_link i) \<and> (\<exists>p. jd_outcome (if_judged i) = Join p))"
  using iface_reachable_inv [OF assms]
  by (auto simp: iface_inv_def dhcp_ok_def coherent_def keeps_def ipv6_ok_def managed_def
      split: option.splits outcome.splits)

text \<open>A link that comes up, is joined and asks for an address.\<close>

definition ex_up :: link where
  "ex_up = ex_link\<lparr>ln_up := True, ln_carrier := True, ln_mac := Some [2, 0, 0, 0, 0, 1]\<rparr>"

definition ex_env :: dhcp_env where
  "ex_env = \<lparr>de_hostname = None, de_socket = True, de_seed = 1, de_client_id = [1], de_last_address = None\<rparr>"

definition ex_started :: iface where
  "ex_started =
     fst (start_dhcp
       (fst (sync_link (\<lambda>f. judged_default\<lparr>jd_outcome := Join ex_profile\<rparr>)
          (new_iface ex_sha1 (\<lambda>n. \<lparr>id_path = [], id_driver = []\<rparr>) ex_up) ex_up 0)) ex_observed 0 ex_env)"

lemma ex_started_reachable: "iface_reachable ex_sha1 ex_started"
  unfolding ex_started_def
  by (rule iface_reachable.step [OF iface_reachable.step [OF iface_reachable.fresh iface_step.linked] iface_step.dhcp_due])
     (simp add: new_iface_def Let_def)

lemma ex_started_asking: "if_dhcp ex_started \<noteq> None"
  by (simp add: ex_started_def start_dhcp_def launch_dhcp_def sync_link_def stop_all_def stop_dhcp_def stop_ipv6_def
      new_iface_def ex_up_def ex_link_def ex_env_def judged_default_def ex_profile_def if_profile_def managed_def
      ac_dhcp4_def address_config_default_def remember_restart_def Let_def split_def)

theorem iface_invariant_witness:
  "iface_reachable ex_sha1 ex_started \<and> \<not> ln_loopback (if_link ex_started)
   \<and> (\<exists>p. jd_outcome (if_judged ex_started) = Join p)"
  using iface_invariant [OF ex_started_reachable ex_digest_ok, THEN conjunct2, THEN conjunct2, THEN conjunct2]
    ex_started_reachable ex_started_asking by simp

text \<open>
  C21: The poll loop does not spin.  However many interfaces and clients there are, after
  three passes at one instant every deadline of the daemon lies ahead, so a timeout of
  zero means that the next deadline is less than a millisecond away.
\<close>

theorem daemon_no_spin:
  assumes "\<forall>e\<in>set is. iface_reachable sha1 (snd e)" "digest_ok sha1"
    and "ticks netd_ticked n is now is'" "3 \<le> n" "later clients now"
  shows "later (poll_deadline is' clients) now
    \<and> (poll_timeout is' clients now = 0 \<longrightarrow>
         (\<exists>t. poll_deadline is' clients = Some t \<and> now < t \<and> t < now + millis 1))"
proof -
  have "netd_inv is" using assms(1,2) iface_reachable_inv by blast
  from netd_timed.no_spin [OF this assms(4,3)] have l: "later (poll_deadline is' clients) now"
    using assms(5) by (simp add: later_poll_deadline)
  moreover have "poll_timeout is' clients now = 0 \<longrightarrow>
         (\<exists>t. poll_deadline is' clients = Some t \<and> now < t \<and> t < now + millis 1)"
  proof (cases "poll_deadline is' clients")
    case (Some t)
    with l have "now < t" by simp
    moreover have "poll_timeout is' clients now = 0 \<Longrightarrow> (t - now) div 1000000 = 0"
      using Some by (simp add: poll_timeout_def saturating_duration_since_def as_millis_def)
    ultimately show ?thesis using Some by (auto simp: millis_def div_eq_0_iff)
  qed (simp add: poll_timeout_def)
  ultimately show ?thesis by blast
qed

theorem daemon_no_spin_witness:
  "\<exists>is'. ticks netd_ticked 3 [(2, ex_started)] 7 is' \<and> later (poll_deadline is' None) 7"
proof -
  have nd: "if_ndp ex_started = None"
    by (simp add: ex_started_def start_dhcp_def launch_dhcp_def sync_link_def stop_all_def stop_dhcp_def stop_ipv6_def
      new_iface_def ex_up_def ex_link_def ex_env_def judged_default_def ex_profile_def if_profile_def managed_def
      ac_dhcp4_def address_config_default_def remember_restart_def Let_def split_def)
  have step: "\<exists>i'. iface_ticked i 7 i' \<and> if_ndp i' = None" if "if_ndp i = None" for i
  proof -
    have "tick_nd 7 (fst (tick4 7 i)) = Some (fst (tick4 7 i), perform_ndp (fst (tick4 7 i)) [])"
      using that by (simp add: tick_nd_def tick4_fields)
    then have "\<exists>c r outs. tick_iface 7 i = Some (fst (tick6 7 (fst (tick4 7 i))), c, r, outs)"
      by (simp add: tick_iface_def Let_def split_def) blast
    moreover have "if_ndp (fst (tick6 7 (fst (tick4 7 i)))) = None" using that by (simp add: tick6_fields tick4_fields)
    ultimately show ?thesis by blast
  qed
  obtain i1 where i1: "iface_ticked ex_started 7 i1" "if_ndp i1 = None" using step [OF nd] by blast
  obtain i2 where i2: "iface_ticked i1 7 i2" "if_ndp i2 = None" using step [OF i1(2)] by blast
  obtain i3 where i3: "iface_ticked i2 7 i3" using step [OF i2(2)] by blast
  have one: "netd_ticked [(2, i)] 7 [(2, i')]" if "iface_ticked i 7 i'" for i i' using that by auto
  have t: "ticks netd_ticked 3 [(2, ex_started)] 7 [(2, i3)]"
    unfolding numeral_3_eq_3 ticks.simps using one [OF i1(1)] one [OF i2(1)] one [OF i3] by blast
  have "\<forall>e\<in>set [(2 :: u32, ex_started)]. iface_reachable ex_sha1 (snd e)" by (simp add: ex_started_reachable)
  from daemon_no_spin [OF this ex_digest_ok t] t show ?thesis by auto
qed

text \<open>
  C23: The kernel's hostname is only ever set to a name the rule accepts, different from the
  one set before, and taken from the configuration if that has one, else from the
  lease of an interface whose profile accepts it; and once a name is set, applying
  the same configuration again sets nothing.
\<close>

theorem hostname_applied:
  assumes "apply_hostname configured is accepted nm = (nm', Some name)"
  shows "hostname_check name = Inr name \<and> nm_set nm \<noteq> Some name
    \<and> (\<exists>given. hostname_check given = Inr name \<and>
         (configured = Some given \<or> configured = None \<and>
           (\<exists>e\<in>set is. \<exists>p l. if_profile (snd e) = Some p \<and> ac_accept_hostname (pf_address p)
              \<and> if_lease (snd e) = Some l \<and> l_hostname l = Some given)))
    \<and> (accepted name \<longrightarrow> apply_hostname configured is accepted nm' = (nm', None))"
proof -
  obtain given where g: "(case configured of Some h \<Rightarrow> Some h | None \<Rightarrow> hostname_from_lease is) = Some given"
    and n: "hostname_check given = Inr name"
    and s: "nm_set nm \<noteq> Some name" "nm' = (if accepted name then nm\<lparr>nm_refused := None, nm_set := Some name\<rparr>
              else nm\<lparr>nm_refused := None\<rparr>)"
    using assms by (auto simp: apply_hostname_def Let_def split: option.splits sum.splits if_splits)
  have again: "hostname_check name = Inr name"
    using n trim_label [of name] by (auto simp: hostname_check_Inr pattern_iff)
  have lease: "\<exists>e\<in>set is. \<exists>p l. if_profile (snd e) = Some p \<and> ac_accept_hostname (pf_address p)
      \<and> if_lease (snd e) = Some l \<and> l_hostname l = Some given" if "hostname_from_lease is = Some given"
  proof -
    let ?f = "\<lambda>i. if (case if_profile i of Some p \<Rightarrow> ac_accept_hostname (pf_address p) | None \<Rightarrow> False)
             then Option.bind (if_lease i) l_hostname else None"
    have "given \<in> set (List.map_filter ?f (map snd is))"
      using that by (auto simp: hostname_from_lease_def split: list.splits)
    then obtain e where "e \<in> set is" "?f (snd e) = Some given" by (force simp: map_filter_def)
    then show ?thesis by (intro bexI [of _ e]) (auto split: if_splits option.splits simp: bind_eq_Some_conv)
  qed
  have "apply_hostname configured is accepted nm' = (nm', None)" if "accepted name"
    using g n s(2) that by (simp add: apply_hostname_def)
  with again n s(1) g lease show ?thesis by (cases configured) auto
qed

theorem hostname_applied_witness:
  "apply_hostname (Some ''ws-01'') [] (\<lambda>n. True) \<lparr>nm_set = None, nm_refused = None\<rparr>
     = (\<lparr>nm_set = Some ''ws-01'', nm_refused = None\<rparr>, Some ''ws-01'')
   \<and> apply_hostname (Some ''ws-01'') [] (\<lambda>n. True) \<lparr>nm_set = Some ''ws-01'', nm_refused = None\<rparr>
     = (\<lparr>nm_set = Some ''ws-01'', nm_refused = None\<rparr>, None)"
proof -
  have l: "list_all hostname_char ''ws-01''"
    by (simp add: hostname_char_def is_ascii_alphanumeric_def is_ascii_digit_def is_ascii_uppercase_def
        is_ascii_lowercase_def ascii_code_def)
  have "hostname_check ''ws-01'' = Inr ''ws-01''"
    unfolding hostname_check_Inr pattern_iff trim_label [OF l] using l
    by (simp add: eq_ignore_ascii_case_def to_ascii_lowercase_def)
  then have "apply_hostname (Some ''ws-01'') [] (\<lambda>n. True) \<lparr>nm_set = None, nm_refused = None\<rparr>
     = (\<lparr>nm_set = Some ''ws-01'', nm_refused = None\<rparr>, Some ''ws-01'')"
    by (simp add: apply_hostname_def)
  with hostname_applied [OF this] show ?thesis by simp
qed
end
