(* ===== verification/Control_Wire.thy ===== *)
theory Control_Wire
  imports Interface
begin

text \<open>
  The wire of the control socket (\<^verbatim>\<open>src/netd-core/src/lib.rs\<close>): requests, replies and
  what they carry, their encoding as MessagePack maps, and the decoders that read
  bytes any program on the machine may send.

  MessagePack itself is a library netd calls: it is the argument \<open>mp\<close>, a record of
  the reader's and the writer's operations, and \<open>mp_ok\<close> states what the format
  promises of them.  A writer is the list of what was written to it; a reader is the
  rest of the message.  An \<^verbatim>\<open>expect\<close> on the writer's result is an option, where none is
  the panic.
\<close>

section \<open>Rights, requests and replies\<close>

definition NETWORK_QUERY :: u32 where "NETWORK_QUERY = 0x00000001"
definition NETWORK_CONTROL :: u32 where "NETWORK_CONTROL = 0x00000002"
definition NETWORK_ALL_ACCESS :: u32 where
  "NETWORK_ALL_ACCESS = NETWORK_QUERY OR NETWORK_CONTROL OR 0x000F0000"

definition MAX_MESSAGE_BYTES :: nat where "MAX_MESSAGE_BYTES = 65536"

datatype request = ReqStatus | ReqRenew rstring | ReqReconcile | ReqSubscribe

fun required_right :: "request \<Rightarrow> u32" where
  "required_right ReqStatus = NETWORK_QUERY"
| "required_right ReqSubscribe = NETWORK_QUERY"
| "required_right (ReqRenew _) = NETWORK_CONTROL"
| "required_right ReqReconcile = NETWORK_CONTROL"

record lease_status =
  ls_server :: rstring
  ls_expires_in :: u64
  ls_state :: rstring
  ls_duration :: u64
  ls_renew_at :: u64
  ls_rebind_at :: u64

record interface_status =
  is_ifid :: rstring
  is_name :: rstring
  is_index :: u32
  is_mac :: rstring
  is_path :: rstring
  is_driver :: rstring
  is_verdict :: "rstring option"
  is_rule :: "rstring option"
  is_profile :: "rstring option"
  is_network :: "rstring option"
  is_network_name :: "rstring option"
  is_network_trust :: "rstring option"
  is_warning :: "rstring option"
  is_up :: bool
  is_carrier :: bool
  is_level :: level
  is_addresses :: "rstring list"
  is_gateway :: "rstring option"
  is_gateway6 :: "rstring option"
  is_dns :: "rstring list"
  is_search :: "rstring list"
  is_lease :: "lease_status option"

record status =
  st_hostname :: rstring
  st_level :: level
  st_refusal :: "rstring option"
  st_interfaces :: "interface_status list"

record dns_scope =
  ds_ifid :: rstring
  ds_name :: rstring
  ds_servers :: "rstring list"
  ds_domains :: "rstring list"
  ds_ntp :: "rstring list"
  ds_addresses :: "rstring list"
  ds_default_route :: bool
  ds_exclusive :: bool
  ds_metric :: u32
  ds_level :: level

record snapshot =
  sn_hostname :: rstring
  sn_scopes :: "dns_scope list"

datatype reply = ReplyOk | ReplyStatus status | ReplySnapshot snapshot | ReplyError rstring

text \<open>\<^verbatim>\<open>Default\<close>\<close>

definition lease_status_default :: lease_status where
  "lease_status_default = \<lparr>ls_server = [], ls_expires_in = 0, ls_state = [], ls_duration = 0,
     ls_renew_at = 0, ls_rebind_at = 0\<rparr>"

definition interface_status_default :: interface_status where
  "interface_status_default = \<lparr>is_ifid = [], is_name = [], is_index = 0, is_mac = [], is_path = [],
     is_driver = [], is_verdict = None, is_rule = None, is_profile = None, is_network = None,
     is_network_name = None, is_network_trust = None, is_warning = None, is_up = False,
     is_carrier = False, is_level = Absent, is_addresses = [], is_gateway = None, is_gateway6 = None,
     is_dns = [], is_search = [], is_lease = None\<rparr>"

definition status_default :: status where
  "status_default = \<lparr>st_hostname = [], st_level = Absent, st_refusal = None, st_interfaces = []\<rparr>"

definition dns_scope_default :: dns_scope where
  "dns_scope_default = \<lparr>ds_ifid = [], ds_name = [], ds_servers = [], ds_domains = [], ds_ntp = [],
     ds_addresses = [], ds_default_route = False, ds_exclusive = False, ds_metric = 0, ds_level = Absent\<rparr>"

definition snapshot_default :: snapshot where
  "snapshot_default = \<lparr>sn_hostname = [], sn_scopes = []\<rparr>"

section \<open>MessagePack\<close>

text \<open>What is written to a \<^verbatim>\<open>Writer\<close>.\<close>

datatype mp_token = MpMap u32 | MpArray u32 | MpStr rstring | MpBool bool | MpUint u64 | MpNil

text \<open>
  The library's operations: \<^verbatim>\<open>Writer::to_bytes\<close> (none when it refuses), and those of a
  \<^verbatim>\<open>Reader\<close> on the rest of a message, with the text of the error on the left.
\<close>

record msgpack =
  mp_to_bytes :: "mp_token list \<Rightarrow> bytes option"
  mp_read_map :: "bytes \<Rightarrow> rstring + nat \<times> bytes"
  mp_read_array :: "bytes \<Rightarrow> rstring + nat \<times> bytes"
  mp_read_str :: "bytes \<Rightarrow> rstring + rstring \<times> bytes"
  mp_read_bool :: "bytes \<Rightarrow> rstring + bool \<times> bytes"
  mp_read_uint :: "bytes \<Rightarrow> rstring + u64 \<times> bytes"
  mp_read_nil :: "bytes \<Rightarrow> rstring + bytes"
  mp_skip :: "bytes \<Rightarrow> rstring + bytes"
  mp_peek_nil :: "bytes \<Rightarrow> bool"

section \<open>Errors\<close>

datatype io_error_kind = WouldBlock | Interrupted | UnexpectedEof | OtherIo rstring

datatype wire_error =
    Encoding rstring
  | Missing rstring
  | Duplicate rstring
  | UnknownQuery rstring
  | TooLarge nat
  | Io io_error_kind

text \<open>
  \<^verbatim>\<open>Display\<close> of the errors.  How the standard library writes a quoted string and an I/O
  error (Unicode tables, message texts) are the arguments \<open>debug\<close> and \<open>io_text\<close>.
\<close>

fun wire_error_text :: "(rstring \<Rightarrow> rstring) \<Rightarrow> (io_error_kind \<Rightarrow> rstring) \<Rightarrow> wire_error \<Rightarrow> rstring" where
  "wire_error_text debug io_text (Encoding e) = ''malformed message: '' @ e"
| "wire_error_text debug io_text (Missing k) = ''missing field '' @ k"
| "wire_error_text debug io_text (Duplicate k) = ''duplicate field '' @ k"
| "wire_error_text debug io_text (UnknownQuery q) = ''unknown query '' @ debug q"
| "wire_error_text debug io_text (TooLarge n) = ''message of '' @ nat_text n @ '' bytes exceeds the ceiling''"
| "wire_error_text debug io_text (Io e) = io_text e"

text \<open>The operator \<^verbatim>\<open>?\<close>, and the conversion of the library's errors it applies.\<close>

definition then_with :: "'e + 'a \<Rightarrow> ('a \<Rightarrow> 'e + 'b) \<Rightarrow> 'e + 'b" where
  "then_with r f = (case r of Inl e \<Rightarrow> Inl e | Inr a \<Rightarrow> f a)"

lemma then_with_simps [simp]: "then_with (Inl e) f = Inl e" "then_with (Inr a) f = f a"
  by (simp_all add: then_with_def)

definition wired :: "rstring + 'a \<Rightarrow> wire_error + 'a" where
  "wired r = map_sum Encoding (\<lambda>a. a) r"

lemma wired_simps [simp]: "wired (Inl e) = Inl (Encoding e)" "wired (Inr a) = Inr a"
  by (simp_all add: wired_def)

section \<open>Encoding\<close>

definition str_list_tokens :: "rstring \<Rightarrow> rstring list \<Rightarrow> mp_token list" where
  "str_list_tokens key items = [MpStr key, MpArray (word_of_nat (length items))] @ map MpStr items"

definition opt_str_tokens :: "rstring \<Rightarrow> rstring option \<Rightarrow> mp_token list" where
  "opt_str_tokens key v = [MpStr key, case v of Some s \<Rightarrow> MpStr s | None \<Rightarrow> MpNil]"

definition lease_tokens :: "lease_status \<Rightarrow> mp_token list" where
  "lease_tokens l =
     [MpMap 6,
      MpStr ''server'', MpStr (ls_server l),
      MpStr ''expires_in'', MpUint (ls_expires_in l),
      MpStr ''state'', MpStr (ls_state l),
      MpStr ''duration'', MpUint (ls_duration l),
      MpStr ''renew_at'', MpUint (ls_renew_at l),
      MpStr ''rebind_at'', MpUint (ls_rebind_at l)]"

definition encode_interface :: "interface_status \<Rightarrow> mp_token list" where
  "encode_interface i =
     [MpMap 22]
     @ [MpStr ''ifid'', MpStr (is_ifid i)]
     @ [MpStr ''name'', MpStr (is_name i)]
     @ [MpStr ''index'', MpUint (ucast (is_index i))]
     @ [MpStr ''mac'', MpStr (is_mac i)]
     @ [MpStr ''path'', MpStr (is_path i)]
     @ [MpStr ''driver'', MpStr (is_driver i)]
     @ opt_str_tokens ''verdict'' (is_verdict i)
     @ opt_str_tokens ''rule'' (is_rule i)
     @ opt_str_tokens ''profile'' (is_profile i)
     @ opt_str_tokens ''network'' (is_network i)
     @ opt_str_tokens ''network_name'' (is_network_name i)
     @ opt_str_tokens ''network_trust'' (is_network_trust i)
     @ opt_str_tokens ''warning'' (is_warning i)
     @ [MpStr ''up'', MpBool (is_up i)]
     @ [MpStr ''carrier'', MpBool (is_carrier i)]
     @ [MpStr ''level'', MpStr (level_as_str (is_level i))]
     @ str_list_tokens ''addresses'' (is_addresses i)
     @ opt_str_tokens ''gateway'' (is_gateway i)
     @ opt_str_tokens ''gateway6'' (is_gateway6 i)
     @ str_list_tokens ''dns'' (is_dns i)
     @ str_list_tokens ''search'' (is_search i)
     @ [MpStr ''lease'']
     @ (case is_lease i of None \<Rightarrow> [MpNil] | Some l \<Rightarrow> lease_tokens l)"

definition scope_tokens :: "dns_scope \<Rightarrow> mp_token list" where
  "scope_tokens s =
     [MpMap 10]
     @ [MpStr ''ifid'', MpStr (ds_ifid s)]
     @ [MpStr ''name'', MpStr (ds_name s)]
     @ str_list_tokens ''servers'' (ds_servers s)
     @ str_list_tokens ''domains'' (ds_domains s)
     @ str_list_tokens ''ntp'' (ds_ntp s)
     @ str_list_tokens ''addresses'' (ds_addresses s)
     @ [MpStr ''default_route'', MpBool (ds_default_route s)]
     @ [MpStr ''exclusive'', MpBool (ds_exclusive s)]
     @ [MpStr ''metric'', MpUint (ucast (ds_metric s))]
     @ [MpStr ''level'', MpStr (level_as_str (ds_level s))]"

fun request_tokens :: "request \<Rightarrow> mp_token list" where
  "request_tokens ReqStatus = [MpMap 1, MpStr ''query'', MpStr ''status'']"
| "request_tokens (ReqRenew interface) =
     [MpMap 2, MpStr ''query'', MpStr ''renew'', MpStr ''interface'', MpStr interface]"
| "request_tokens ReqReconcile = [MpMap 1, MpStr ''query'', MpStr ''reconcile'']"
| "request_tokens ReqSubscribe = [MpMap 1, MpStr ''query'', MpStr ''subscribe'']"

fun reply_tokens :: "reply \<Rightarrow> mp_token list" where
  "reply_tokens ReplyOk = [MpMap 1, MpStr ''ok'', MpBool True]"
| "reply_tokens (ReplyError message) =
     [MpMap 2, MpStr ''ok'', MpBool False, MpStr ''error'', MpStr message]"
| "reply_tokens (ReplySnapshot sn) =
     [MpMap 4, MpStr ''ok'', MpBool True, MpStr ''kind'', MpStr ''snapshot'',
      MpStr ''hostname'', MpStr (sn_hostname sn),
      MpStr ''scopes'', MpArray (word_of_nat (length (sn_scopes sn)))]
     @ concat (map scope_tokens (sn_scopes sn))"
| "reply_tokens (ReplyStatus st) =
     [MpMap 5, MpStr ''ok'', MpBool True, MpStr ''hostname'', MpStr (st_hostname st),
      MpStr ''level'', MpStr (level_as_str (st_level st))]
     @ opt_str_tokens ''refusal'' (st_refusal st)
     @ [MpStr ''interfaces'', MpArray (word_of_nat (length (st_interfaces st)))]
     @ concat (map encode_interface (st_interfaces st))"

definition request_encode :: "msgpack \<Rightarrow> request \<Rightarrow> bytes option" where
  "request_encode mp r = mp_to_bytes mp (request_tokens r)"

definition reply_encode :: "msgpack \<Rightarrow> reply \<Rightarrow> bytes option" where
  "reply_encode mp r = mp_to_bytes mp (reply_tokens r)"

section \<open>Decoding\<close>

text \<open>The loop of \<^verbatim>\<open>for_each_field\<close>; the closure's captured variables are the state \<open>s\<close>.\<close>

fun fields_loop ::
    "msgpack \<Rightarrow> (rstring \<Rightarrow> 's \<Rightarrow> bytes \<Rightarrow> wire_error + 's \<times> bytes)
      \<Rightarrow> nat \<Rightarrow> rstring list \<Rightarrow> 's \<Rightarrow> bytes \<Rightarrow> wire_error + 's \<times> bytes" where
  "fields_loop mp f 0 seen s r = Inr (s, r)"
| "fields_loop mp f (Suc n) seen s r =
     then_with (wired (mp_read_str mp r)) (\<lambda>(key, r).
       if key \<in> set seen then Inl (Duplicate key)
       else then_with (f key s r) (\<lambda>(s, r). fields_loop mp f n (seen @ [key]) s r))"

definition for_each_field ::
    "msgpack \<Rightarrow> (rstring \<Rightarrow> 's \<Rightarrow> bytes \<Rightarrow> wire_error + 's \<times> bytes)
      \<Rightarrow> 's \<Rightarrow> bytes \<Rightarrow> wire_error + 's \<times> bytes" where
  "for_each_field mp f s r =
     then_with (wired (mp_read_map mp r)) (\<lambda>(n, r). fields_loop mp f n [] s r)"

text \<open>\<^verbatim>\<open>for _ in 0..n\<close>, each round reading one element.\<close>

fun read_n :: "nat \<Rightarrow> (bytes \<Rightarrow> wire_error + 'a \<times> bytes) \<Rightarrow> bytes \<Rightarrow> wire_error + 'a list \<times> bytes" where
  "read_n 0 f r = Inr ([], r)"
| "read_n (Suc n) f r =
     then_with (f r) (\<lambda>(x, r). then_with (read_n n f r) (\<lambda>(xs, r). Inr (x # xs, r)))"

definition read_str_list :: "msgpack \<Rightarrow> bytes \<Rightarrow> wire_error + rstring list \<times> bytes" where
  "read_str_list mp r =
     then_with (wired (mp_read_array mp r)) (\<lambda>(n, r).
       if length r < n then Inl (TooLarge n)
       else read_n n (\<lambda>r. wired (mp_read_str mp r)) r)"

definition read_opt_str :: "msgpack \<Rightarrow> bytes \<Rightarrow> wire_error + rstring option \<times> bytes" where
  "read_opt_str mp r =
     (if mp_peek_nil mp r then then_with (wired (mp_read_nil mp r)) (\<lambda>r. Inr (None, r))
      else then_with (wired (mp_read_str mp r)) (\<lambda>(s, r). Inr (Some s, r)))"

text \<open>One arm of a decoder: read a value and store it.\<close>

definition stored :: "wire_error + 'a \<times> bytes \<Rightarrow> ('a \<Rightarrow> 's) \<Rightarrow> wire_error + 's \<times> bytes" where
  "stored rd upd = then_with rd (\<lambda>(v, r). Inr (upd v, r))"

lemma stored_simps [simp]: "stored (Inr (v, r)) upd = Inr (upd v, r)" "stored (Inl e) upd = Inl e"
  by (simp_all add: stored_def)

definition level_or_absent :: "rstring \<Rightarrow> level" where
  "level_or_absent s = (case level_parse s of Some l \<Rightarrow> l | None \<Rightarrow> Absent)"

definition scope_field :: "msgpack \<Rightarrow> rstring \<Rightarrow> dns_scope \<Rightarrow> bytes \<Rightarrow> wire_error + dns_scope \<times> bytes" where
  "scope_field mp key s r =
     (if key = ''ifid'' then stored (wired (mp_read_str mp r)) (\<lambda>v. s\<lparr>ds_ifid := v\<rparr>)
      else if key = ''name'' then stored (wired (mp_read_str mp r)) (\<lambda>v. s\<lparr>ds_name := v\<rparr>)
      else if key = ''servers'' then stored (read_str_list mp r) (\<lambda>v. s\<lparr>ds_servers := v\<rparr>)
      else if key = ''domains'' then stored (read_str_list mp r) (\<lambda>v. s\<lparr>ds_domains := v\<rparr>)
      else if key = ''ntp'' then stored (read_str_list mp r) (\<lambda>v. s\<lparr>ds_ntp := v\<rparr>)
      else if key = ''addresses'' then stored (read_str_list mp r) (\<lambda>v. s\<lparr>ds_addresses := v\<rparr>)
      else if key = ''default_route'' then stored (wired (mp_read_bool mp r)) (\<lambda>v. s\<lparr>ds_default_route := v\<rparr>)
      else if key = ''exclusive'' then stored (wired (mp_read_bool mp r)) (\<lambda>v. s\<lparr>ds_exclusive := v\<rparr>)
      else if key = ''metric'' then stored (wired (mp_read_uint mp r)) (\<lambda>v. s\<lparr>ds_metric := ucast v\<rparr>)
      else if key = ''level'' then stored (wired (mp_read_str mp r)) (\<lambda>v. s\<lparr>ds_level := level_or_absent v\<rparr>)
      else then_with (wired (mp_skip mp r)) (\<lambda>r. Inr (s, r)))"

definition decode_scope :: "msgpack \<Rightarrow> bytes \<Rightarrow> wire_error + dns_scope \<times> bytes" where
  "decode_scope mp r = for_each_field mp (scope_field mp) dns_scope_default r"

definition lease_field :: "msgpack \<Rightarrow> rstring \<Rightarrow> lease_status \<Rightarrow> bytes \<Rightarrow> wire_error + lease_status \<times> bytes" where
  "lease_field mp key l r =
     (if key = ''server'' then stored (wired (mp_read_str mp r)) (\<lambda>v. l\<lparr>ls_server := v\<rparr>)
      else if key = ''expires_in'' then stored (wired (mp_read_uint mp r)) (\<lambda>v. l\<lparr>ls_expires_in := v\<rparr>)
      else if key = ''state'' then stored (wired (mp_read_str mp r)) (\<lambda>v. l\<lparr>ls_state := v\<rparr>)
      else if key = ''duration'' then stored (wired (mp_read_uint mp r)) (\<lambda>v. l\<lparr>ls_duration := v\<rparr>)
      else if key = ''renew_at'' then stored (wired (mp_read_uint mp r)) (\<lambda>v. l\<lparr>ls_renew_at := v\<rparr>)
      else if key = ''rebind_at'' then stored (wired (mp_read_uint mp r)) (\<lambda>v. l\<lparr>ls_rebind_at := v\<rparr>)
      else then_with (wired (mp_skip mp r)) (\<lambda>r. Inr (l, r)))"

text \<open>The lease of an interface: absent, or a map of its own.\<close>

definition read_lease :: "msgpack \<Rightarrow> interface_status \<Rightarrow> bytes \<Rightarrow> wire_error + interface_status \<times> bytes" where
  "read_lease mp i r =
     (if mp_peek_nil mp r then then_with (wired (mp_read_nil mp r)) (\<lambda>r. Inr (i, r))
      else stored (for_each_field mp (lease_field mp) lease_status_default r) (\<lambda>l. i\<lparr>is_lease := Some l\<rparr>))"

definition interface_field ::
    "msgpack \<Rightarrow> rstring \<Rightarrow> interface_status \<Rightarrow> bytes \<Rightarrow> wire_error + interface_status \<times> bytes" where
  "interface_field mp key i r =
     (if key = ''ifid'' then stored (wired (mp_read_str mp r)) (\<lambda>v. i\<lparr>is_ifid := v\<rparr>)
      else if key = ''name'' then stored (wired (mp_read_str mp r)) (\<lambda>v. i\<lparr>is_name := v\<rparr>)
      else if key = ''index'' then stored (wired (mp_read_uint mp r)) (\<lambda>v. i\<lparr>is_index := ucast v\<rparr>)
      else if key = ''mac'' then stored (wired (mp_read_str mp r)) (\<lambda>v. i\<lparr>is_mac := v\<rparr>)
      else if key = ''path'' then stored (wired (mp_read_str mp r)) (\<lambda>v. i\<lparr>is_path := v\<rparr>)
      else if key = ''driver'' then stored (wired (mp_read_str mp r)) (\<lambda>v. i\<lparr>is_driver := v\<rparr>)
      else if key = ''verdict'' then stored (read_opt_str mp r) (\<lambda>v. i\<lparr>is_verdict := v\<rparr>)
      else if key = ''rule'' then stored (read_opt_str mp r) (\<lambda>v. i\<lparr>is_rule := v\<rparr>)
      else if key = ''profile'' then stored (read_opt_str mp r) (\<lambda>v. i\<lparr>is_profile := v\<rparr>)
      else if key = ''network'' then stored (read_opt_str mp r) (\<lambda>v. i\<lparr>is_network := v\<rparr>)
      else if key = ''network_name'' then stored (read_opt_str mp r) (\<lambda>v. i\<lparr>is_network_name := v\<rparr>)
      else if key = ''network_trust'' then stored (read_opt_str mp r) (\<lambda>v. i\<lparr>is_network_trust := v\<rparr>)
      else if key = ''warning'' then stored (read_opt_str mp r) (\<lambda>v. i\<lparr>is_warning := v\<rparr>)
      else if key = ''up'' then stored (wired (mp_read_bool mp r)) (\<lambda>v. i\<lparr>is_up := v\<rparr>)
      else if key = ''carrier'' then stored (wired (mp_read_bool mp r)) (\<lambda>v. i\<lparr>is_carrier := v\<rparr>)
      else if key = ''level'' then stored (wired (mp_read_str mp r)) (\<lambda>v. i\<lparr>is_level := level_or_absent v\<rparr>)
      else if key = ''addresses'' then stored (read_str_list mp r) (\<lambda>v. i\<lparr>is_addresses := v\<rparr>)
      else if key = ''gateway'' then stored (read_opt_str mp r) (\<lambda>v. i\<lparr>is_gateway := v\<rparr>)
      else if key = ''gateway6'' then stored (read_opt_str mp r) (\<lambda>v. i\<lparr>is_gateway6 := v\<rparr>)
      else if key = ''dns'' then stored (read_str_list mp r) (\<lambda>v. i\<lparr>is_dns := v\<rparr>)
      else if key = ''search'' then stored (read_str_list mp r) (\<lambda>v. i\<lparr>is_search := v\<rparr>)
      else if key = ''lease'' then read_lease mp i r
      else then_with (wired (mp_skip mp r)) (\<lambda>r. Inr (i, r)))"

definition decode_interface :: "msgpack \<Rightarrow> bytes \<Rightarrow> wire_error + interface_status \<times> bytes" where
  "decode_interface mp r = for_each_field mp (interface_field mp) interface_status_default r"

text \<open>The variables of \<^verbatim>\<open>Request::decode\<close>.\<close>

type_synonym request_vars = "rstring option \<times> rstring option"

definition request_field :: "msgpack \<Rightarrow> rstring \<Rightarrow> request_vars \<Rightarrow> bytes \<Rightarrow> wire_error + request_vars \<times> bytes" where
  "request_field mp key s r =
     (if key = ''query'' then stored (wired (mp_read_str mp r)) (\<lambda>v. (Some v, snd s))
      else if key = ''interface'' then stored (wired (mp_read_str mp r)) (\<lambda>v. (fst s, Some v))
      else then_with (wired (mp_skip mp r)) (\<lambda>r. Inr (s, r)))"

definition request_of :: "request_vars \<Rightarrow> wire_error + request" where
  "request_of s =
     (case fst s of
        Some q \<Rightarrow>
          if q = ''status'' then Inr ReqStatus
          else if q = ''reconcile'' then Inr ReqReconcile
          else if q = ''subscribe'' then Inr ReqSubscribe
          else if q = ''renew'' then
            (case snd s of Some i \<Rightarrow> Inr (ReqRenew i) | None \<Rightarrow> Inl (Missing ''interface''))
          else Inl (UnknownQuery q)
      | None \<Rightarrow> Inl (Missing ''query''))"

definition request_decode :: "msgpack \<Rightarrow> bytes \<Rightarrow> wire_error + request" where
  "request_decode mp bs =
     then_with (for_each_field mp (request_field mp) (None, None) bs) (\<lambda>(s, r). request_of s)"

text \<open>The variables of \<^verbatim>\<open>Reply::decode\<close>.\<close>

record reply_vars =
  rv_ok :: "bool option"
  rv_error :: "rstring option"
  rv_status :: status
  rv_has_status :: bool
  rv_snapshot :: snapshot
  rv_kind :: "rstring option"

definition reply_field :: "msgpack \<Rightarrow> rstring \<Rightarrow> reply_vars \<Rightarrow> bytes \<Rightarrow> wire_error + reply_vars \<times> bytes" where
  "reply_field mp key s r =
     (if key = ''ok'' then stored (wired (mp_read_bool mp r)) (\<lambda>v. s\<lparr>rv_ok := Some v\<rparr>)
      else if key = ''error'' then stored (wired (mp_read_str mp r)) (\<lambda>v. s\<lparr>rv_error := Some v\<rparr>)
      else if key = ''kind'' then stored (wired (mp_read_str mp r)) (\<lambda>v. s\<lparr>rv_kind := Some v\<rparr>)
      else if key = ''scopes'' then
        then_with (wired (mp_read_array mp r)) (\<lambda>(n, r).
          stored (read_n n (decode_scope mp) r)
            (\<lambda>v. s\<lparr>rv_snapshot := (rv_snapshot s)\<lparr>sn_scopes := sn_scopes (rv_snapshot s) @ v\<rparr>\<rparr>))
      else if key = ''hostname'' then
        stored (wired (mp_read_str mp r))
          (\<lambda>v. s\<lparr>rv_status := (rv_status s)\<lparr>st_hostname := v\<rparr>,
                 rv_snapshot := (rv_snapshot s)\<lparr>sn_hostname := v\<rparr>, rv_has_status := True\<rparr>)
      else if key = ''level'' then
        stored (wired (mp_read_str mp r))
          (\<lambda>v. s\<lparr>rv_status := (rv_status s)\<lparr>st_level := level_or_absent v\<rparr>, rv_has_status := True\<rparr>)
      else if key = ''refusal'' then
        stored (read_opt_str mp r)
          (\<lambda>v. s\<lparr>rv_status := (rv_status s)\<lparr>st_refusal := v\<rparr>, rv_has_status := True\<rparr>)
      else if key = ''interfaces'' then
        then_with (wired (mp_read_array mp r)) (\<lambda>(n, r).
          stored (read_n n (decode_interface mp) r)
            (\<lambda>v. s\<lparr>rv_status := (rv_status s)\<lparr>st_interfaces := st_interfaces (rv_status s) @ v\<rparr>,
                   rv_has_status := True\<rparr>))
      else then_with (wired (mp_skip mp r)) (\<lambda>r. Inr (s, r)))"

definition reply_of :: "reply_vars \<Rightarrow> wire_error + reply" where
  "reply_of s =
     (case rv_ok s of
        Some True \<Rightarrow>
          if rv_kind s = Some ''snapshot'' then Inr (ReplySnapshot (rv_snapshot s))
          else if rv_has_status s then Inr (ReplyStatus (rv_status s))
          else Inr ReplyOk
      | Some False \<Rightarrow>
          Inr (ReplyError (case rv_error s of Some e \<Rightarrow> e | None \<Rightarrow> ''unspecified error''))
      | None \<Rightarrow> Inl (Missing ''ok''))"

definition reply_vars_default :: reply_vars where
  "reply_vars_default = \<lparr>rv_ok = None, rv_error = None, rv_status = status_default, rv_has_status = False,
     rv_snapshot = snapshot_default, rv_kind = None\<rparr>"

definition reply_decode :: "msgpack \<Rightarrow> bytes \<Rightarrow> wire_error + reply" where
  "reply_decode mp bs =
     then_with (for_each_field mp (reply_field mp) reply_vars_default bs) (\<lambda>(s, r). reply_of s)"

section \<open>Framing over a stream\<close>

text \<open>\<^verbatim>\<open>send\<close> and \<^verbatim>\<open>recv\<close> on a blocking stream: what is written, and what is taken from what comes.\<close>

definition wire_send :: "bytes \<Rightarrow> wire_error + bytes" where
  "wire_send payload =
     (if MAX_MESSAGE_BYTES < length payload then Inl (TooLarge (length payload))
      else Inr (le32 (word_of_nat (length payload)) @ payload))"

definition read_exact :: "nat \<Rightarrow> bytes \<Rightarrow> wire_error + bytes \<times> bytes" where
  "read_exact n s = (if length s < n then Inl (Io UnexpectedEof) else Inr (take n s, drop n s))"

definition wire_recv :: "bytes \<Rightarrow> wire_error + bytes \<times> bytes" where
  "wire_recv s =
     then_with (read_exact 4 s) (\<lambda>(h, s).
       let len = unat (u32_of_le h)
       in if MAX_MESSAGE_BYTES < len then Inl (TooLarge len) else read_exact len s)"

section \<open>What the format promises\<close>

text \<open>
  A value is one token, or a map or array header and the values it announces.
  \<open>complete k ts\<close> holds when the tokens are exactly \<open>k\<close> values.
\<close>

fun complete :: "nat \<Rightarrow> mp_token list \<Rightarrow> bool" where
  "complete k [] = (k = 0)"
| "complete 0 (t # ts) = False"
| "complete (Suc k) (MpMap n # ts) = complete (k + 2 * unat n) ts"
| "complete (Suc k) (MpArray n # ts) = complete (k + unat n) ts"
| "complete (Suc k) (MpStr s # ts) = complete k ts"
| "complete (Suc k) (MpBool b # ts) = complete k ts"
| "complete (Suc k) (MpUint u # ts) = complete k ts"
| "complete (Suc k) (MpNil # ts) = complete k ts"

text \<open>A Rust string is valid UTF-8, and the format has room for a length of 32 bits.\<close>

definition text_ok :: "rstring \<Rightarrow> bool" where
  "text_ok s = (from_utf8 (as_bytes s) = Some s \<and> length s < 2 ^ 32)"

fun token_ok :: "mp_token \<Rightarrow> bool" where
  "token_ok (MpStr s) = text_ok s"
| "token_ok _ = True"

text \<open>
  The contract: a complete message that fits in memory is written as the encodings
  of its tokens in order, each at least a byte; a read takes the encoding it expects
  off the front and yields what was written; and a nil is told apart by its first
  byte.  A Rust vector never holds \<open>2 ^ 63\<close> bytes or more.
\<close>

definition vec_fits :: "bytes \<Rightarrow> bool" where
  "vec_fits b = (length b < 2 ^ 63)"

definition mp_ok :: "msgpack \<Rightarrow> (mp_token \<Rightarrow> bytes) \<Rightarrow> bool" where
  "mp_ok mp enc =
     ((\<forall>ts. complete 1 ts \<and> list_all token_ok ts \<and> vec_fits (concat (map enc ts)) \<longrightarrow>
           mp_to_bytes mp ts = Some (concat (map enc ts)))
      \<and> (\<forall>ts b. mp_to_bytes mp ts = Some b \<longrightarrow> vec_fits b)
      \<and> (\<forall>t. enc t \<noteq> [])
      \<and> (\<forall>s. length (enc (MpStr s)) \<le> 5 + length s)
      \<and> (\<forall>n. length (enc (MpMap n)) \<le> 5)
      \<and> (\<forall>b. length (enc (MpBool b)) = 1)
      \<and> (\<forall>n r. mp_read_map mp (enc (MpMap n) @ r) = Inr (unat n, r))
      \<and> (\<forall>n r. mp_read_array mp (enc (MpArray n) @ r) = Inr (unat n, r))
      \<and> (\<forall>s r. text_ok s \<longrightarrow> mp_read_str mp (enc (MpStr s) @ r) = Inr (s, r))
      \<and> (\<forall>b r. mp_read_bool mp (enc (MpBool b) @ r) = Inr (b, r))
      \<and> (\<forall>u r. mp_read_uint mp (enc (MpUint u) @ r) = Inr (u, r))
      \<and> (\<forall>r. mp_read_nil mp (enc MpNil @ r) = Inr r)
      \<and> (\<forall>t r. mp_peek_nil mp (enc t @ r) = (t = MpNil)))"

lemma mp_okD:
  assumes "mp_ok mp enc"
  shows "complete 1 ts \<Longrightarrow> list_all token_ok ts \<Longrightarrow> vec_fits (concat (map enc ts)) \<Longrightarrow>
      mp_to_bytes mp ts = Some (concat (map enc ts))"
    and "enc t \<noteq> []" "length (enc (MpStr s)) \<le> 5 + length s"
    and "length (enc (MpMap n)) \<le> 5" "length (enc (MpBool b)) = 1"
    and "mp_read_map mp (enc (MpMap n) @ r) = Inr (unat n, r)"
    and "mp_read_array mp (enc (MpArray n) @ r) = Inr (unat n, r)"
    and "text_ok s \<Longrightarrow> mp_read_str mp (enc (MpStr s) @ r) = Inr (s, r)"
    and "mp_read_bool mp (enc (MpBool b) @ r) = Inr (b, r)"
    and "mp_read_uint mp (enc (MpUint u) @ r) = Inr (u, r)"
    and "mp_read_nil mp (enc MpNil @ r) = Inr r"
    and "mp_peek_nil mp (enc t @ r) = (t = MpNil)"
    and "mp_to_bytes mp ts = Some b' \<Longrightarrow> vec_fits b'"
  using assms unfolding mp_ok_def by blast+

definition enc_all :: "(mp_token \<Rightarrow> bytes) \<Rightarrow> mp_token list \<Rightarrow> bytes" where
  "enc_all enc ts = concat (map enc ts)"

lemma enc_all_simps [simp]:
  "enc_all enc [] = []" "enc_all enc (t # ts) = enc t @ enc_all enc ts"
  "enc_all enc (ts @ us) = enc_all enc ts @ enc_all enc us"
  by (simp_all add: enc_all_def)

section \<open>Well-formed values\<close>

abbreviation texts_ok :: "rstring list \<Rightarrow> bool" where
  "texts_ok xs \<equiv> list_all text_ok xs \<and> length xs < 2 ^ 32"

definition lease_ok :: "lease_status \<Rightarrow> bool" where
  "lease_ok l = (text_ok (ls_server l) \<and> text_ok (ls_state l))"

definition interface_ok :: "interface_status \<Rightarrow> bool" where
  "interface_ok i =
     (list_all text_ok [is_ifid i, is_name i, is_mac i, is_path i, is_driver i]
      \<and> list_all (pred_option text_ok) [is_verdict i, is_rule i, is_profile i, is_network i, is_network_name i,
           is_network_trust i, is_warning i, is_gateway i, is_gateway6 i]
      \<and> texts_ok (is_addresses i) \<and> texts_ok (is_dns i) \<and> texts_ok (is_search i)
      \<and> pred_option lease_ok (is_lease i))"

definition scope_ok :: "dns_scope \<Rightarrow> bool" where
  "scope_ok s =
     (text_ok (ds_ifid s) \<and> text_ok (ds_name s) \<and> texts_ok (ds_servers s) \<and> texts_ok (ds_domains s)
      \<and> texts_ok (ds_ntp s) \<and> texts_ok (ds_addresses s))"

fun request_ok :: "request \<Rightarrow> bool" where
  "request_ok (ReqRenew i) = text_ok i"
| "request_ok _ = True"

fun reply_ok :: "reply \<Rightarrow> bool" where
  "reply_ok ReplyOk = True"
| "reply_ok (ReplyError m) = text_ok m"
| "reply_ok (ReplySnapshot sn) =
     (text_ok (sn_hostname sn) \<and> list_all scope_ok (sn_scopes sn) \<and> length (sn_scopes sn) < 2 ^ 32)"
| "reply_ok (ReplyStatus st) =
     (text_ok (st_hostname st) \<and> pred_option text_ok (st_refusal st)
      \<and> list_all interface_ok (st_interfaces st) \<and> length (st_interfaces st) < 2 ^ 32)"

section \<open>Reading back fields\<close>

text \<open>
  The lemma every decoder rests on: a map written as keys and encoded values is
  read by storing the values one after the other.  A field is its key, the bytes
  of its value and what the decoder does to its state.
\<close>

type_synonym 's field = "rstring \<times> bytes \<times> ('s \<Rightarrow> 's)"

definition field_reads :: "(rstring \<Rightarrow> 's \<Rightarrow> bytes \<Rightarrow> wire_error + 's \<times> bytes) \<Rightarrow> 's field \<Rightarrow> bool" where
  "field_reads f fd = (text_ok (fst fd) \<and>
     (\<forall>s r. f (fst fd) s (fst (snd fd) @ r) = Inr (snd (snd fd) s, r)))"

definition field_bytes :: "(mp_token \<Rightarrow> bytes) \<Rightarrow> 's field list \<Rightarrow> bytes" where
  "field_bytes enc fs = concat (map (\<lambda>fd. enc (MpStr (fst fd)) @ fst (snd fd)) fs)"

lemma field_bytes_simps [simp]:
  "field_bytes enc [] = []"
  "field_bytes enc ((k, b, g) # fs) = enc (MpStr k) @ b @ field_bytes enc fs"
  by (simp_all add: field_bytes_def)

lemma fields_loop_reads:
  assumes "mp_ok mp enc" "list_all (field_reads f) fs" "distinct (map fst fs)" "set seen \<inter> fst ` set fs = {}"
  shows "fields_loop mp f (length fs) seen s (field_bytes enc fs @ r)
    = Inr (fold (\<lambda>fd s. snd (snd fd) s) fs s, r)"
  using assms(2-)
proof (induction fs arbitrary: seen s)
  case (Cons fd fs)
  obtain k b g where fd: "fd = (k, b, g)" by (cases fd)
  have k: "text_ok k" "f k s (b @ field_bytes enc fs @ r) = Inr (g s, field_bytes enc fs @ r)"
    using Cons.prems(1) by (simp_all add: fd field_reads_def)
  have "fields_loop mp f (length fs) (seen @ [k]) (g s) (field_bytes enc fs @ r)
      = Inr (fold (\<lambda>fd s. snd (snd fd) s) fs (g s), r)"
    using Cons.prems by (intro Cons.IH) (auto simp: fd)
  then show ?case
    using k Cons.prems by (simp add: fd mp_okD(8) [OF assms(1)])
qed simp

lemma for_each_field_reads:
  assumes "mp_ok mp enc" "list_all (field_reads f) fs" "distinct (map fst fs)" "unat n = length fs"
  shows "for_each_field mp f s (enc (MpMap n) @ field_bytes enc fs @ r)
    = Inr (fold (\<lambda>fd s. snd (snd fd) s) fs s, r)"
  using fields_loop_reads [OF assms(1-3), of "[]"] assms(4)
  by (simp add: for_each_field_def mp_okD(6) [OF assms(1)])

text \<open>A repeated key is an error, whatever its value and whatever follows.\<close>

lemma fields_loop_duplicate:
  assumes "mp_ok mp enc" "list_all (field_reads f) fs" "distinct (map fst fs)" "set seen \<inter> fst ` set fs = {}"
    and "k \<in> set seen \<union> fst ` set fs" "text_ok k"
  shows "fields_loop mp f (length fs + Suc n) seen s (field_bytes enc fs @ enc (MpStr k) @ r) = Inl (Duplicate k)"
  using assms(2-)
proof (induction fs arbitrary: seen s)
  case Nil
  then show ?case by (simp add: mp_okD(8) [OF assms(1)])
next
  case (Cons fd fs)
  obtain k' b g where fd: "fd = (k', b, g)" by (cases fd)
  have k': "text_ok k'" "f k' s (b @ q) = Inr (g s, q)" for q
    using Cons.prems(1) by (simp_all add: fd field_reads_def)
  have "fields_loop mp f (length fs + Suc n) (seen @ [k']) (g s) (field_bytes enc fs @ enc (MpStr k) @ r)
      = Inl (Duplicate k)"
    using Cons.prems by (intro Cons.IH) (auto simp: fd)
  then show ?case
    using k' Cons.prems by (simp add: fd mp_okD(8) [OF assms(1)])
qed


section \<open>Reading back values\<close>

lemma ord_ascii:
  assumes "\<not> digit7 c"
  shows "ord c < 0x80"
proof -
  have "(of_char c :: nat) < 128"
    using assms by (cases c) (auto simp: of_char_def)
  then show ?thesis by (simp add: ord_def word_less_nat_alt unat_of_nat)
qed

text \<open>ASCII literals are texts.\<close>

lemma text_ok_ascii: "list_all (\<lambda>c. \<not> digit7 c) s \<Longrightarrow> length s < 2 ^ 32 \<Longrightarrow> text_ok s"
  unfolding text_ok_def using from_utf8_ascii [of "as_bytes s"]
  by (auto simp: list_all_iff as_bytes_def of_bytes_def comp_def dest: ord_ascii)

lemma text_ok_Nil [simp]: "text_ok []"
  by (rule text_ok_ascii) simp_all

lemma unat_count: "n < 2 ^ 32 \<Longrightarrow> unat (word_of_nat n :: u32) = n"
  by (simp add: unat_of_nat)

lemma read_n_reads:
  assumes "\<And>x r. x \<in> set xs \<Longrightarrow> f (b x @ r) = Inr (x, r)"
  shows "read_n (length xs) f (concat (map b xs) @ r) = Inr (xs, r)"
  using assms by (induction xs) simp_all

definition str_list_bytes :: "(mp_token \<Rightarrow> bytes) \<Rightarrow> rstring list \<Rightarrow> bytes" where
  "str_list_bytes enc items = enc (MpArray (word_of_nat (length items))) @ concat (map (\<lambda>s. enc (MpStr s)) items)"

definition opt_str_bytes :: "(mp_token \<Rightarrow> bytes) \<Rightarrow> rstring option \<Rightarrow> bytes" where
  "opt_str_bytes enc v = enc (case v of Some s \<Rightarrow> MpStr s | None \<Rightarrow> MpNil)"

lemma enc_all_values [simp]:
  "enc_all enc (str_list_tokens key items) = enc (MpStr key) @ str_list_bytes enc items"
  "enc_all enc (opt_str_tokens key v) = enc (MpStr key) @ opt_str_bytes enc v"
  by (simp_all add: enc_all_def str_list_tokens_def str_list_bytes_def opt_str_tokens_def opt_str_bytes_def comp_def)

lemma length_le_concat: "(\<And>x. x \<in> set xs \<Longrightarrow> f x \<noteq> []) \<Longrightarrow> length xs \<le> length (concat (map f xs))"
proof (induction xs)
  case (Cons x xs)
  then have "1 \<le> length (f x)" by (simp add: Suc_le_eq)
  with Cons show ?case by simp
qed simp

lemma read_str_list_reads:
  assumes "mp_ok mp enc" "texts_ok items"
  shows "read_str_list mp (str_list_bytes enc items @ r) = Inr (items, r)"
proof -
  have "length items \<le> length (concat (map (\<lambda>s. enc (MpStr s)) items))"
    by (rule length_le_concat) (rule mp_okD(2) [OF assms(1)])
  then have "\<not> length (concat (map (\<lambda>s. enc (MpStr s)) items) @ r) < length items" by simp
  moreover have "read_n (length items) (\<lambda>r. wired (mp_read_str mp r)) (concat (map (\<lambda>s. enc (MpStr s)) items) @ r)
      = Inr (items, r)"
    using assms by (intro read_n_reads) (simp add: mp_okD(8) list_all_iff)
  moreover have "unat (word_of_nat (length items) :: u32) = length items"
    using assms(2) by (intro unat_count) simp
  ultimately show ?thesis
    by (simp add: read_str_list_def str_list_bytes_def mp_okD(7) [OF assms(1)])
qed

lemma read_opt_str_reads:
  assumes "mp_ok mp enc" "pred_option text_ok v"
  shows "read_opt_str mp (opt_str_bytes enc v @ r) = Inr (v, r)"
  using assms by (cases v) (simp_all add: read_opt_str_def opt_str_bytes_def mp_okD)

lemma level_text [simp]: "level_or_absent (level_as_str l) = l" "text_ok (level_as_str l)"
  by (cases l; simp add: level_or_absent_def level_parse_def; fail)+ (cases l; simp add: text_ok_ascii)

lemmas value_reads = read_str_list_reads read_opt_str_reads
  mp_okD(8) mp_okD(9) mp_okD(10)

definition scope_fields :: "(mp_token \<Rightarrow> bytes) \<Rightarrow> dns_scope \<Rightarrow> dns_scope field list" where
  "scope_fields enc s =
     [(''ifid'', enc (MpStr (ds_ifid s)), \<lambda>x. x\<lparr>ds_ifid := ds_ifid s\<rparr>),
      (''name'', enc (MpStr (ds_name s)), \<lambda>x. x\<lparr>ds_name := ds_name s\<rparr>),
      (''servers'', str_list_bytes enc (ds_servers s), \<lambda>x. x\<lparr>ds_servers := ds_servers s\<rparr>),
      (''domains'', str_list_bytes enc (ds_domains s), \<lambda>x. x\<lparr>ds_domains := ds_domains s\<rparr>),
      (''ntp'', str_list_bytes enc (ds_ntp s), \<lambda>x. x\<lparr>ds_ntp := ds_ntp s\<rparr>),
      (''addresses'', str_list_bytes enc (ds_addresses s), \<lambda>x. x\<lparr>ds_addresses := ds_addresses s\<rparr>),
      (''default_route'', enc (MpBool (ds_default_route s)), \<lambda>x. x\<lparr>ds_default_route := ds_default_route s\<rparr>),
      (''exclusive'', enc (MpBool (ds_exclusive s)), \<lambda>x. x\<lparr>ds_exclusive := ds_exclusive s\<rparr>),
      (''metric'', enc (MpUint (ucast (ds_metric s))), \<lambda>x. x\<lparr>ds_metric := ds_metric s\<rparr>),
      (''level'', enc (MpStr (level_as_str (ds_level s))), \<lambda>x. x\<lparr>ds_level := ds_level s\<rparr>)]"

lemma ucast_up_down: "ucast (ucast (w :: u32) :: u64) = w"
  by (simp add: ucast_up_ucast_id is_up)

lemma scope_fields_read:
  assumes "mp_ok mp enc" "scope_ok s"
  shows "list_all (field_reads (scope_field mp)) (scope_fields enc s)"
  using assms(2)
  by (simp add: scope_fields_def field_reads_def scope_field_def scope_ok_def value_reads [OF assms(1)]
      text_ok_ascii ucast_up_down)

lemma decode_scope_reads:
  assumes "mp_ok mp enc" "scope_ok s"
  shows "decode_scope mp (enc_all enc (scope_tokens s) @ r) = Inr (s, r)"
proof -
  have "enc_all enc (scope_tokens s) @ r = enc (MpMap 10) @ field_bytes enc (scope_fields enc s) @ r"
    by (simp add: scope_tokens_def scope_fields_def)
  moreover have "for_each_field mp (scope_field mp) dns_scope_default
      (enc (MpMap 10) @ field_bytes enc (scope_fields enc s) @ r)
      = Inr (fold (\<lambda>fd x. snd (snd fd) x) (scope_fields enc s) dns_scope_default, r)"
    by (rule for_each_field_reads [OF assms(1) scope_fields_read [OF assms]]) (simp_all add: scope_fields_def)
  ultimately show ?thesis
    by (simp add: decode_scope_def scope_fields_def dns_scope_default_def)
qed


definition lease_fields :: "(mp_token \<Rightarrow> bytes) \<Rightarrow> lease_status \<Rightarrow> lease_status field list" where
  "lease_fields enc l =
     [(''server'', enc (MpStr (ls_server l)), \<lambda>x. x\<lparr>ls_server := ls_server l\<rparr>),
      (''expires_in'', enc (MpUint (ls_expires_in l)), \<lambda>x. x\<lparr>ls_expires_in := ls_expires_in l\<rparr>),
      (''state'', enc (MpStr (ls_state l)), \<lambda>x. x\<lparr>ls_state := ls_state l\<rparr>),
      (''duration'', enc (MpUint (ls_duration l)), \<lambda>x. x\<lparr>ls_duration := ls_duration l\<rparr>),
      (''renew_at'', enc (MpUint (ls_renew_at l)), \<lambda>x. x\<lparr>ls_renew_at := ls_renew_at l\<rparr>),
      (''rebind_at'', enc (MpUint (ls_rebind_at l)), \<lambda>x. x\<lparr>ls_rebind_at := ls_rebind_at l\<rparr>)]"

lemma lease_fields_read:
  assumes "mp_ok mp enc" "lease_ok l"
  shows "list_all (field_reads (lease_field mp)) (lease_fields enc l)"
  using assms(2)
  by (simp add: lease_fields_def field_reads_def lease_field_def lease_ok_def value_reads [OF assms(1)] text_ok_ascii)

lemma decode_lease_reads:
  assumes "mp_ok mp enc" "lease_ok l"
  shows "for_each_field mp (lease_field mp) lease_status_default (enc_all enc (lease_tokens l) @ r) = Inr (l, r)"
proof -
  have "enc_all enc (lease_tokens l) @ r = enc (MpMap 6) @ field_bytes enc (lease_fields enc l) @ r"
    by (simp add: lease_tokens_def lease_fields_def)
  moreover have "for_each_field mp (lease_field mp) lease_status_default
      (enc (MpMap 6) @ field_bytes enc (lease_fields enc l) @ r)
      = Inr (fold (\<lambda>fd x. snd (snd fd) x) (lease_fields enc l) lease_status_default, r)"
    by (rule for_each_field_reads [OF assms(1) lease_fields_read [OF assms]]) (simp_all add: lease_fields_def)
  ultimately show ?thesis
    by (simp add: lease_fields_def lease_status_default_def)
qed

definition opt_lease_bytes :: "(mp_token \<Rightarrow> bytes) \<Rightarrow> lease_status option \<Rightarrow> bytes" where
  "opt_lease_bytes enc v = enc_all enc (case v of None \<Rightarrow> [MpNil] | Some l \<Rightarrow> lease_tokens l)"

lemma read_lease_reads:
  assumes "mp_ok mp enc" "pred_option lease_ok v"
  shows "read_lease mp i (opt_lease_bytes enc v @ r)
    = Inr (case v of None \<Rightarrow> i | Some l \<Rightarrow> i\<lparr>is_lease := Some l\<rparr>, r)"
proof (cases v)
  case None
  then show ?thesis using assms(1) by (simp add: read_lease_def opt_lease_bytes_def mp_okD)
next
  case (Some l)
  obtain ts where "lease_tokens l = MpMap 6 # ts" by (simp add: lease_tokens_def)
  then have "\<not> mp_peek_nil mp (enc_all enc (lease_tokens l) @ r)"
    using assms(1) by (simp add: mp_okD(12))
  then show ?thesis
    using assms Some by (simp add: read_lease_def opt_lease_bytes_def decode_lease_reads)
qed

definition interface_fields :: "(mp_token \<Rightarrow> bytes) \<Rightarrow> interface_status \<Rightarrow> interface_status field list" where
  "interface_fields enc i =
     [(''ifid'', enc (MpStr (is_ifid i)), \<lambda>x. x\<lparr>is_ifid := is_ifid i\<rparr>),
      (''name'', enc (MpStr (is_name i)), \<lambda>x. x\<lparr>is_name := is_name i\<rparr>),
      (''index'', enc (MpUint (ucast (is_index i))), \<lambda>x. x\<lparr>is_index := is_index i\<rparr>),
      (''mac'', enc (MpStr (is_mac i)), \<lambda>x. x\<lparr>is_mac := is_mac i\<rparr>),
      (''path'', enc (MpStr (is_path i)), \<lambda>x. x\<lparr>is_path := is_path i\<rparr>),
      (''driver'', enc (MpStr (is_driver i)), \<lambda>x. x\<lparr>is_driver := is_driver i\<rparr>),
      (''verdict'', opt_str_bytes enc (is_verdict i), \<lambda>x. x\<lparr>is_verdict := is_verdict i\<rparr>),
      (''rule'', opt_str_bytes enc (is_rule i), \<lambda>x. x\<lparr>is_rule := is_rule i\<rparr>),
      (''profile'', opt_str_bytes enc (is_profile i), \<lambda>x. x\<lparr>is_profile := is_profile i\<rparr>),
      (''network'', opt_str_bytes enc (is_network i), \<lambda>x. x\<lparr>is_network := is_network i\<rparr>),
      (''network_name'', opt_str_bytes enc (is_network_name i), \<lambda>x. x\<lparr>is_network_name := is_network_name i\<rparr>),
      (''network_trust'', opt_str_bytes enc (is_network_trust i), \<lambda>x. x\<lparr>is_network_trust := is_network_trust i\<rparr>),
      (''warning'', opt_str_bytes enc (is_warning i), \<lambda>x. x\<lparr>is_warning := is_warning i\<rparr>),
      (''up'', enc (MpBool (is_up i)), \<lambda>x. x\<lparr>is_up := is_up i\<rparr>),
      (''carrier'', enc (MpBool (is_carrier i)), \<lambda>x. x\<lparr>is_carrier := is_carrier i\<rparr>),
      (''level'', enc (MpStr (level_as_str (is_level i))), \<lambda>x. x\<lparr>is_level := is_level i\<rparr>),
      (''addresses'', str_list_bytes enc (is_addresses i), \<lambda>x. x\<lparr>is_addresses := is_addresses i\<rparr>),
      (''gateway'', opt_str_bytes enc (is_gateway i), \<lambda>x. x\<lparr>is_gateway := is_gateway i\<rparr>),
      (''gateway6'', opt_str_bytes enc (is_gateway6 i), \<lambda>x. x\<lparr>is_gateway6 := is_gateway6 i\<rparr>),
      (''dns'', str_list_bytes enc (is_dns i), \<lambda>x. x\<lparr>is_dns := is_dns i\<rparr>),
      (''search'', str_list_bytes enc (is_search i), \<lambda>x. x\<lparr>is_search := is_search i\<rparr>),
      (''lease'', opt_lease_bytes enc (is_lease i),
         \<lambda>x. case is_lease i of None \<Rightarrow> x | Some l \<Rightarrow> x\<lparr>is_lease := Some l\<rparr>)]"

lemma interface_fields_read:
  assumes "mp_ok mp enc" "interface_ok i"
  shows "list_all (field_reads (interface_field mp)) (interface_fields enc i)"
  using assms(2)
  by (simp add: interface_fields_def field_reads_def interface_field_def interface_ok_def
      value_reads [OF assms(1)] read_lease_reads [OF assms(1)] text_ok_ascii ucast_up_down)

lemma decode_interface_reads:
  assumes "mp_ok mp enc" "interface_ok i"
  shows "decode_interface mp (enc_all enc (encode_interface i) @ r) = Inr (i, r)"
proof -
  have "enc_all enc (encode_interface i) @ r = enc (MpMap 22) @ field_bytes enc (interface_fields enc i) @ r"
    by (simp add: encode_interface_def interface_fields_def opt_lease_bytes_def)
  moreover have "for_each_field mp (interface_field mp) interface_status_default
      (enc (MpMap 22) @ field_bytes enc (interface_fields enc i) @ r)
      = Inr (fold (\<lambda>fd x. snd (snd fd) x) (interface_fields enc i) interface_status_default, r)"
    by (rule for_each_field_reads [OF assms(1) interface_fields_read [OF assms]]) (simp_all add: interface_fields_def)
  moreover have "fold (\<lambda>fd x. snd (snd fd) x) (interface_fields enc i) interface_status_default = i"
    by (cases "is_lease i") (simp_all add: interface_fields_def interface_status_default_def)
  ultimately show ?thesis
    by (simp add: decode_interface_def)
qed


section \<open>Messages are complete\<close>

text \<open>
  The counts the encoders announce are the number of values they write: the
  writer never refuses, and the \<^verbatim>\<open>expect\<close> on its result never panics.
\<close>

lemma complete_eat [simp]:
  "complete n (MpMap m # ts) \<longleftrightarrow> 0 < n \<and> complete (n - 1 + 2 * unat m) ts"
  "complete n (MpArray m # ts) \<longleftrightarrow> 0 < n \<and> complete (n - 1 + unat m) ts"
  "complete n (MpStr s # ts) \<longleftrightarrow> 0 < n \<and> complete (n - 1) ts"
  "complete n (MpBool b # ts) \<longleftrightarrow> 0 < n \<and> complete (n - 1) ts"
  "complete n (MpUint u # ts) \<longleftrightarrow> 0 < n \<and> complete (n - 1) ts"
  "complete n (MpNil # ts) \<longleftrightarrow> 0 < n \<and> complete (n - 1) ts"
  by (cases n; simp)+

lemma complete_strs: "complete (k + length items) (map MpStr items @ ts) = complete k ts"
  by (induction items) simp_all

lemma complete_value:
  "complete n (opt_str_tokens key v @ ts) \<longleftrightarrow> 2 \<le> n \<and> complete (n - 2) ts"
  "length items < 2 ^ 32 \<Longrightarrow> complete n (str_list_tokens key items @ ts) \<longleftrightarrow> 2 \<le> n \<and> complete (n - 2) ts"
  by (cases v; auto simp: opt_str_tokens_def numeral_2_eq_2)
    (auto simp: str_list_tokens_def unat_count complete_strs numeral_2_eq_2)

lemma complete_values:
  assumes "\<And>x k ts. x \<in> set xs \<Longrightarrow> complete (Suc k) (f x @ ts) = complete k ts"
  shows "complete (k + length xs) (concat (map f xs) @ ts) = complete k ts"
  using assms by (induction xs) simp_all

lemma complete_lease:
  "complete n ((case v of None \<Rightarrow> [MpNil] | Some l \<Rightarrow> lease_tokens l) @ ts) \<longleftrightarrow> 0 < n \<and> complete (n - 1) ts"
  by (cases v) (auto simp: lease_tokens_def)

lemma complete_scope: "scope_ok s \<Longrightarrow> complete (Suc k) (scope_tokens s @ ts) = complete k ts"
  by (simp add: scope_tokens_def scope_ok_def complete_value)

lemma complete_interface: "interface_ok i \<Longrightarrow> complete (Suc k) (encode_interface i @ ts) = complete k ts"
  by (simp add: encode_interface_def interface_ok_def complete_value complete_lease)

lemma complete_scopes:
  "list_all scope_ok xs \<Longrightarrow> complete (length xs) (concat (map scope_tokens xs))"
  using complete_values [of xs scope_tokens 0 "[]"] by (simp add: list_all_iff complete_scope)

lemma complete_interfaces:
  "list_all interface_ok xs \<Longrightarrow> complete (length xs) (concat (map encode_interface xs))"
  using complete_values [of xs encode_interface 0 "[]"] by (simp add: list_all_iff complete_interface)

lemma request_complete: "complete 1 (request_tokens r)"
  by (cases r) simp_all

lemma reply_complete:
  assumes "reply_ok r"
  shows "complete 1 (reply_tokens r)"
proof (cases r)
  case (ReplySnapshot sn)
  then show ?thesis using assms by (simp add: unat_count complete_scopes)
next
  case (ReplyStatus st)
  then show ?thesis
    using assms complete_interfaces [of "st_interfaces st"]
    by (simp add: unat_count complete_value)
qed simp_all


lemma tokens_ok_values [simp]:
  "list_all token_ok (opt_str_tokens key v) \<longleftrightarrow> text_ok key \<and> pred_option text_ok v"
  "list_all token_ok (str_list_tokens key items) \<longleftrightarrow> text_ok key \<and> list_all text_ok items"
  "list_all token_ok (concat (map f xs)) \<longleftrightarrow> list_all (\<lambda>x. list_all token_ok (f x)) xs"
  by (cases v; simp add: opt_str_tokens_def) (simp_all add: str_list_tokens_def list_all_iff)

lemma scope_tokens_ok: "scope_ok s \<Longrightarrow> list_all token_ok (scope_tokens s)"
  by (simp add: scope_tokens_def scope_ok_def text_ok_ascii)

lemma interface_tokens_ok: "interface_ok i \<Longrightarrow> list_all token_ok (encode_interface i)"
  by (auto simp: encode_interface_def interface_ok_def text_ok_ascii lease_tokens_def lease_ok_def
      split: option.splits)

lemma request_tokens_ok: "request_ok r \<Longrightarrow> list_all token_ok (request_tokens r)"
  by (cases r) (simp_all add: text_ok_ascii)

lemma reply_tokens_ok:
  assumes "reply_ok r"
  shows "list_all token_ok (reply_tokens r)"
proof (cases r)
  case (ReplySnapshot sn)
  with assms have "list_all (\<lambda>s. list_all token_ok (scope_tokens s)) (sn_scopes sn)"
    by (auto elim!: list.pred_mono_strong intro: scope_tokens_ok)
  with assms ReplySnapshot show ?thesis by (simp add: text_ok_ascii)
next
  case (ReplyStatus st)
  with assms have "list_all (\<lambda>i. list_all token_ok (encode_interface i)) (st_interfaces st)"
    by (auto elim!: list.pred_mono_strong intro: interface_tokens_ok)
  with assms ReplyStatus show ?thesis by (simp add: text_ok_ascii)
qed (use assms in \<open>simp_all add: text_ok_ascii\<close>)

lemma request_fits:
  assumes "mp_ok mp enc" "request_ok r"
  shows "vec_fits (enc_all enc (request_tokens r))"
proof -
  have str: "length (enc (MpStr s)) \<le> 5 + length s" for s by (rule mp_okD(3) [OF assms(1)])
  note lits = str [of "''query''"] str [of "''status''"] str [of "''renew''"] str [of "''interface''"]
      str [of "''reconcile''"] str [of "''subscribe''"] mp_okD(4) [OF assms(1), of 1] mp_okD(4) [OF assms(1), of 2]
  show ?thesis
  proof (cases r)
    case (ReqRenew i)
    then show ?thesis using assms(2) lits str [of i] by (simp add: vec_fits_def text_ok_def)
  qed (use lits in \<open>simp_all add: vec_fits_def\<close>)
qed

lemma request_encodes:
  "mp_ok mp enc \<Longrightarrow> request_ok r \<Longrightarrow> request_encode mp r = Some (enc_all enc (request_tokens r))"
  unfolding request_encode_def enc_all_def
  by (intro mp_okD(1) request_complete request_tokens_ok request_fits [unfolded enc_all_def])

lemma reply_encodes:
  "mp_ok mp enc \<Longrightarrow> reply_ok r \<Longrightarrow> vec_fits (enc_all enc (reply_tokens r)) \<Longrightarrow>
    reply_encode mp r = Some (enc_all enc (reply_tokens r))"
  unfolding reply_encode_def enc_all_def
  by (intro mp_okD(1) reply_complete reply_tokens_ok)

section \<open>Requests and replies come back\<close>

lemma request_decodes:
  assumes "mp_ok mp enc" "request_ok r"
  shows "request_decode mp (enc_all enc (request_tokens r)) = Inr r"
proof -
  have q: "field_reads (request_field mp) (''query'', enc (MpStr v), \<lambda>s. (Some v, snd s))" if "text_ok v" for v
    using that by (simp add: field_reads_def request_field_def value_reads [OF assms(1)] text_ok_ascii)
  have i: "field_reads (request_field mp) (''interface'', enc (MpStr v), \<lambda>s. (fst s, Some v))" if "text_ok v" for v
    using that by (simp add: field_reads_def request_field_def value_reads [OF assms(1)] text_ok_ascii)
  have one: "for_each_field mp (request_field mp) (None, None) (enc_all enc [MpMap 1, MpStr ''query'', MpStr v])
      = Inr ((Some v, None), [])" if "text_ok v" for v
    using for_each_field_reads [OF assms(1), of "request_field mp" "[(''query'', enc (MpStr v), \<lambda>s. (Some v, snd s))]"
        1 "(None, None)" "[]"] q [OF that] by simp
  have two: "for_each_field mp (request_field mp) (None, None)
      (enc_all enc [MpMap 2, MpStr ''query'', MpStr v, MpStr ''interface'', MpStr w]) = Inr ((Some v, Some w), [])"
    if "text_ok v" "text_ok w" for v w
    using for_each_field_reads [OF assms(1), of "request_field mp"
        "[(''query'', enc (MpStr v), \<lambda>s. (Some v, snd s)), (''interface'', enc (MpStr w), \<lambda>s. (fst s, Some w))]"
        2 "(None, None)" "[]"] q [OF that(1)] i [OF that(2)] by simp
  show ?thesis
    using assms(2)
    by (cases r) (simp_all add: request_decode_def request_of_def one two text_ok_ascii del: enc_all_simps)
qed

text \<open>The fields of the replies.\<close>

definition scopes_bytes :: "(mp_token \<Rightarrow> bytes) \<Rightarrow> dns_scope list \<Rightarrow> bytes" where
  "scopes_bytes enc xs = enc (MpArray (word_of_nat (length xs))) @ concat (map (\<lambda>s. enc_all enc (scope_tokens s)) xs)"

definition interfaces_bytes :: "(mp_token \<Rightarrow> bytes) \<Rightarrow> interface_status list \<Rightarrow> bytes" where
  "interfaces_bytes enc xs =
     enc (MpArray (word_of_nat (length xs))) @ concat (map (\<lambda>i. enc_all enc (encode_interface i)) xs)"

lemma enc_all_concat: "enc_all enc (concat (map f xs)) = concat (map (\<lambda>x. enc_all enc (f x)) xs)"
  by (induction xs) simp_all

lemma reply_field_simple:
  assumes "mp_ok mp enc"
  shows "field_reads (reply_field mp) (''ok'', enc (MpBool b), \<lambda>s. s\<lparr>rv_ok := Some b\<rparr>)"
    and "text_ok v \<Longrightarrow> field_reads (reply_field mp) (''error'', enc (MpStr v), \<lambda>s. s\<lparr>rv_error := Some v\<rparr>)"
    and "text_ok v \<Longrightarrow> field_reads (reply_field mp) (''kind'', enc (MpStr v), \<lambda>s. s\<lparr>rv_kind := Some v\<rparr>)"
    and "text_ok v \<Longrightarrow> field_reads (reply_field mp) (''hostname'', enc (MpStr v),
           \<lambda>s. s\<lparr>rv_status := (rv_status s)\<lparr>st_hostname := v\<rparr>,
                 rv_snapshot := (rv_snapshot s)\<lparr>sn_hostname := v\<rparr>, rv_has_status := True\<rparr>)"
    and "field_reads (reply_field mp) (''level'', enc (MpStr (level_as_str l)),
           \<lambda>s. s\<lparr>rv_status := (rv_status s)\<lparr>st_level := l\<rparr>, rv_has_status := True\<rparr>)"
    and "pred_option text_ok o' \<Longrightarrow> field_reads (reply_field mp) (''refusal'', opt_str_bytes enc o',
           \<lambda>s. s\<lparr>rv_status := (rv_status s)\<lparr>st_refusal := o'\<rparr>, rv_has_status := True\<rparr>)"
  by (simp_all add: field_reads_def reply_field_def value_reads [OF assms] text_ok_ascii)

lemma reply_field_scopes:
  assumes "mp_ok mp enc" "list_all scope_ok xs" "length xs < 2 ^ 32"
  shows "field_reads (reply_field mp) (''scopes'', scopes_bytes enc xs,
    \<lambda>s. s\<lparr>rv_snapshot := (rv_snapshot s)\<lparr>sn_scopes := sn_scopes (rv_snapshot s) @ xs\<rparr>\<rparr>)"
proof -
  have "read_n (length xs) (decode_scope mp) (concat (map (\<lambda>s. enc_all enc (scope_tokens s)) xs) @ r) = Inr (xs, r)" for r
    using assms(1,2) by (intro read_n_reads decode_scope_reads) (simp_all add: list_all_iff)
  then show ?thesis
    using assms(3)
    by (simp add: field_reads_def reply_field_def scopes_bytes_def mp_okD(7) [OF assms(1)] unat_count text_ok_ascii)
qed

lemma reply_field_interfaces:
  assumes "mp_ok mp enc" "list_all interface_ok xs" "length xs < 2 ^ 32"
  shows "field_reads (reply_field mp) (''interfaces'', interfaces_bytes enc xs,
    \<lambda>s. s\<lparr>rv_status := (rv_status s)\<lparr>st_interfaces := st_interfaces (rv_status s) @ xs\<rparr>, rv_has_status := True\<rparr>)"
proof -
  have "read_n (length xs) (decode_interface mp) (concat (map (\<lambda>i. enc_all enc (encode_interface i)) xs) @ r)
      = Inr (xs, r)" for r
    using assms(1,2) by (intro read_n_reads decode_interface_reads) (simp_all add: list_all_iff)
  then show ?thesis
    using assms(3)
    by (simp add: field_reads_def reply_field_def interfaces_bytes_def mp_okD(7) [OF assms(1)] unat_count text_ok_ascii)
qed

lemma reply_decodes:
  assumes "mp_ok mp enc" "reply_ok r"
  shows "reply_decode mp (enc_all enc (reply_tokens r)) = Inr r"
proof -
  note read = for_each_field_reads [OF assms(1), of "reply_field mp" _ _ reply_vars_default "[]"]
  note fields = reply_field_simple [OF assms(1)] reply_field_scopes [OF assms(1)] reply_field_interfaces [OF assms(1)]
  note defaults = reply_vars_default_def status_default_def snapshot_default_def
  show ?thesis
  proof (cases r)
    case ReplyOk
    then show ?thesis
      using read [of "[(''ok'', enc (MpBool True), \<lambda>s. s\<lparr>rv_ok := Some True\<rparr>)]" 1] fields(1) [of True]
      by (simp add: reply_decode_def reply_of_def defaults)
  next
    case (ReplyError m)
    then show ?thesis
      using read [of "[(''ok'', enc (MpBool False), \<lambda>s. s\<lparr>rv_ok := Some False\<rparr>),
          (''error'', enc (MpStr m), \<lambda>s. s\<lparr>rv_error := Some m\<rparr>)]" 2]
        fields(1) [of False] fields(2) [of m] assms(2)
      by (simp add: reply_decode_def reply_of_def defaults)
  next
    case (ReplySnapshot sn)
    have "text_ok ''snapshot''" by (simp add: text_ok_ascii)
    with ReplySnapshot show ?thesis
      using read [of "[(''ok'', enc (MpBool True), \<lambda>s. s\<lparr>rv_ok := Some True\<rparr>),
          (''kind'', enc (MpStr ''snapshot''), \<lambda>s. s\<lparr>rv_kind := Some ''snapshot''\<rparr>),
          (''hostname'', enc (MpStr (sn_hostname sn)),
             \<lambda>s. s\<lparr>rv_status := (rv_status s)\<lparr>st_hostname := sn_hostname sn\<rparr>,
                   rv_snapshot := (rv_snapshot s)\<lparr>sn_hostname := sn_hostname sn\<rparr>, rv_has_status := True\<rparr>),
          (''scopes'', scopes_bytes enc (sn_scopes sn),
             \<lambda>s. s\<lparr>rv_snapshot := (rv_snapshot s)\<lparr>sn_scopes := sn_scopes (rv_snapshot s) @ sn_scopes sn\<rparr>\<rparr>)]" 4]
        fields(1) [of True] fields(3) [of "''snapshot''"] fields(4) [of "sn_hostname sn"]
        fields(7) [of "sn_scopes sn"] assms(2)
      by (simp add: reply_decode_def reply_of_def defaults enc_all_concat scopes_bytes_def)
  next
    case (ReplyStatus st)
    then show ?thesis
      using read [of "[(''ok'', enc (MpBool True), \<lambda>s. s\<lparr>rv_ok := Some True\<rparr>),
          (''hostname'', enc (MpStr (st_hostname st)),
             \<lambda>s. s\<lparr>rv_status := (rv_status s)\<lparr>st_hostname := st_hostname st\<rparr>,
                   rv_snapshot := (rv_snapshot s)\<lparr>sn_hostname := st_hostname st\<rparr>, rv_has_status := True\<rparr>),
          (''level'', enc (MpStr (level_as_str (st_level st))),
             \<lambda>s. s\<lparr>rv_status := (rv_status s)\<lparr>st_level := st_level st\<rparr>, rv_has_status := True\<rparr>),
          (''refusal'', opt_str_bytes enc (st_refusal st),
             \<lambda>s. s\<lparr>rv_status := (rv_status s)\<lparr>st_refusal := st_refusal st\<rparr>, rv_has_status := True\<rparr>),
          (''interfaces'', interfaces_bytes enc (st_interfaces st),
             \<lambda>s. s\<lparr>rv_status := (rv_status s)\<lparr>st_interfaces := st_interfaces (rv_status s) @ st_interfaces st\<rparr>,
                   rv_has_status := True\<rparr>)]" 5]
        fields(1) [of True] fields(4) [of "st_hostname st"] fields(5) [of "st_level st"]
        fields(6) [of "st_refusal st"] fields(8) [of "st_interfaces st"] assms(2)
      by (simp add: reply_decode_def reply_of_def defaults enc_all_concat interfaces_bytes_def)
  qed
qed


lemma wire_recv_send:
  assumes "wire_send payload = Inr frame"
  shows "wire_recv (frame @ rest) = Inr (payload, rest)"
proof -
  have len: "length payload \<le> MAX_MESSAGE_BYTES" and f: "frame = le32 (word_of_nat (length payload)) @ payload"
    using assms by (auto simp: wire_send_def split: if_splits)
  have "unat (word_of_nat (length payload) :: u32) = length payload"
    using len by (intro unat_count) (simp add: MAX_MESSAGE_BYTES_def)
  then show ?thesis using len by (simp add: wire_recv_def read_exact_def f Let_def)
qed

text \<open>A request in which a key comes twice is refused, naming the key, whatever the values and whatever follows.\<close>

lemma request_duplicate:
  assumes "mp_ok mp enc" "list_all (field_reads (request_field mp)) fs" "distinct (map fst fs)"
    and "k \<in> fst ` set fs" "text_ok k" "length fs < unat n"
  shows "request_decode mp (enc (MpMap n) @ field_bytes enc fs @ enc (MpStr k) @ r) = Inl (Duplicate k)"
proof -
  obtain m where "unat n = length fs + Suc m" using assms(6) less_imp_Suc_add by (metis add_Suc_right)
  then show ?thesis
    using fields_loop_duplicate [OF assms(1-3), of "[]" k m "(None, None)" r] assms(4,5)
    by (simp add: request_decode_def for_each_field_def mp_okD(6) [OF assms(1)])
qed

text \<open>
  C27: The control wire round trips.  With a MessagePack library that keeps its
  contract, every request and every reply whose texts are Rust strings and that fits in
  memory encodes
  (the writer is never handed a map or array whose count does not match, so the
  \<^verbatim>\<open>expect\<close> cannot fail), and its decoder returns the same value, with every field of
  every interface, scope and lease; a payload within the ceiling is framed, and the
  reader takes exactly that payload off the front of the stream.
\<close>

theorem wire_roundtrip:
  assumes "mp_ok mp enc" "request_ok q" "reply_ok r" "vec_fits (enc_all enc (reply_tokens r))"
  shows "(\<exists>b. request_encode mp q = Some b \<and> request_decode mp b = Inr q)
    \<and> (\<exists>b. reply_encode mp r = Some b \<and> reply_decode mp b = Inr r
         \<and> (length b \<le> MAX_MESSAGE_BYTES \<longrightarrow>
              (\<exists>frame. wire_send b = Inr frame \<and> wire_recv (frame @ rest) = Inr (b, rest))))"
proof -
  let ?b = "enc_all enc (reply_tokens r)"
  have "\<exists>frame. wire_send ?b = Inr frame \<and> wire_recv (frame @ rest) = Inr (?b, rest)"
    if "length ?b \<le> MAX_MESSAGE_BYTES"
    using that wire_recv_send [of ?b] unfolding wire_send_def by (metis not_less)
  then show ?thesis
    using request_encodes [OF assms(1,2)] request_decodes [OF assms(1,2)]
      reply_encodes [OF assms(1,3,4)] reply_decodes [OF assms(1,3)] by blast
qed

section \<open>An implementation of the format\<close>

text \<open>The widest encoding of each kind: it meets the contract, so the hypotheses of the theorems can hold.\<close>

fun ref_enc :: "mp_token \<Rightarrow> bytes" where
  "ref_enc (MpMap n) = 0xdf # be32 n"
| "ref_enc (MpArray n) = 0xdd # be32 n"
| "ref_enc (MpStr s) = 0xdb # be32 (word_of_nat (length s)) @ as_bytes s"
| "ref_enc (MpBool b) = [if b then 0xc3 else 0xc2]"
| "ref_enc (MpUint u) = 0xcf # nat_be 8 (unat u)"
| "ref_enc MpNil = [0xc0]"

definition ref_count :: "u8 \<Rightarrow> bytes \<Rightarrow> rstring + nat \<times> bytes" where
  "ref_count tag r =
     (case r of
        t # r \<Rightarrow> if t = tag \<and> 4 \<le> length r then Inr (unat (u32_of (take 4 r)), drop 4 r) else Inl ''type''
      | [] \<Rightarrow> Inl ''end'')"

definition ref_str :: "bytes \<Rightarrow> rstring + rstring \<times> bytes" where
  "ref_str r =
     (case ref_count 0xdb r of
        Inl e \<Rightarrow> Inl e
      | Inr (n, r) \<Rightarrow>
          if n \<le> length r
          then (case from_utf8 (take n r) of Some s \<Rightarrow> Inr (s, drop n r) | None \<Rightarrow> Inl ''utf-8'')
          else Inl ''end'')"

definition ref_bool :: "bytes \<Rightarrow> rstring + bool \<times> bytes" where
  "ref_bool r = (case r of t # r \<Rightarrow> if t = 0xc3 then Inr (True, r) else if t = 0xc2 then Inr (False, r) else Inl ''type''
                 | [] \<Rightarrow> Inl ''end'')"

definition ref_uint :: "bytes \<Rightarrow> rstring + u64 \<times> bytes" where
  "ref_uint r = (case r of t # r \<Rightarrow> if t = 0xcf \<and> 8 \<le> length r then Inr (word_of_nat (be_nat (take 8 r)), drop 8 r)
                              else Inl ''type'' | [] \<Rightarrow> Inl ''end'')"

definition ref_nil :: "bytes \<Rightarrow> rstring + bytes" where
  "ref_nil r = (case r of t # r \<Rightarrow> if t = 0xc0 then Inr r else Inl ''type'' | [] \<Rightarrow> Inl ''end'')"

definition mp_ref :: msgpack where
  "mp_ref = \<lparr>mp_to_bytes = \<lambda>ts. if complete 1 ts \<and> list_all token_ok ts \<and> vec_fits (concat (map ref_enc ts))
       then Some (concat (map ref_enc ts)) else None,
     mp_read_map = ref_count 0xdf, mp_read_array = ref_count 0xdd, mp_read_str = ref_str, mp_read_bool = ref_bool,
     mp_read_uint = ref_uint, mp_read_nil = ref_nil, mp_skip = \<lambda>r. Inl ''unsupported'',
     mp_peek_nil = \<lambda>r. r \<noteq> [] \<and> hd r = 0xc0\<rparr>"

lemma mp_ref_ok: "mp_ok mp_ref ref_enc"
proof -
  have str: "ref_str (ref_enc (MpStr s) @ r) = Inr (s, r)" if "text_ok s" for s r
    using that by (simp add: ref_str_def ref_count_def text_ok_def unat_count)
  have uint: "ref_uint (ref_enc (MpUint u) @ r) = Inr (u, r)" for u r
  proof -
    have "unat u < 256 ^ 8" using unsigned_less [of u, where ?'a = nat] by simp
    then show ?thesis by (simp add: ref_uint_def be_nat_nat_be)
  qed
  have peek: "(ref_enc t @ r \<noteq> [] \<and> hd (ref_enc t @ r) = 0xc0) = (t = MpNil)" for t r
    by (cases t) auto
  have "ref_enc t \<noteq> []" for t by (cases t) simp_all
  moreover have "length (ref_enc (MpStr s)) \<le> 5 + length s" for s by simp
  ultimately show ?thesis using str uint peek
    by (auto simp: mp_ok_def mp_ref_def ref_count_def ref_bool_def ref_nil_def simp del: ref_enc.simps(3,5) simp flip: append_is_Nil_conv)
qed

definition ex_snapshot :: snapshot where
  "ex_snapshot = \<lparr>sn_hostname = ''box'', sn_scopes =
     [dns_scope_default\<lparr>ds_ifid := ''a'', ds_name := ''eth0'', ds_servers := [''10.0.0.3''], ds_metric := 100,
        ds_level := Routed, ds_default_route := True\<rparr>]\<rparr>"

theorem wire_roundtrip_witness:
  "\<exists>b. reply_encode mp_ref (ReplySnapshot ex_snapshot) = Some b \<and> reply_decode mp_ref b = Inr (ReplySnapshot ex_snapshot)"
proof -
  have "reply_ok (ReplySnapshot ex_snapshot)"
    by (simp add: ex_snapshot_def scope_ok_def dns_scope_default_def text_ok_ascii)
  moreover have "request_ok (ReqRenew ''eth0'')" by (simp add: text_ok_ascii)
  moreover have "vec_fits (enc_all ref_enc (reply_tokens (ReplySnapshot ex_snapshot)))"
    by (simp add: vec_fits_def ex_snapshot_def scope_tokens_def dns_scope_default_def str_list_bytes_def)
  ultimately show ?thesis
    using wire_roundtrip [OF mp_ref_ok, of "ReqRenew ''eth0''" "ReplySnapshot ex_snapshot"] by blast
qed

end
