(* ===== verification/Control_Socket.thy ===== *)
theory Control_Socket
  imports Control_Wire
begin

text \<open>
  The clients of the control socket (\<^verbatim>\<open>src/netd/src/control.rs\<close>): one request and one
  reply per connection, read and written a piece at a time on nonblocking streams,
  with a fixed number of slots and a fixed deadline per exchange.

  A stream is its file descriptor.  What a read or a write on it returns is an
  argument of \<open>advance\<close>: the read is handed the number of bytes asked for, the write
  the bytes offered.  The hash map of the pending clients is an ordered map: the
  order of its iteration is not used.  The access check of the kernel is an argument
  of \<open>permits\<close>.
\<close>

section \<open>State\<close>

definition IO_TIMEOUT :: duration where [time_simps]: "IO_TIMEOUT = secs 2"
definition MAX_CLIENTS :: nat where "MAX_CLIENTS = 64"
definition ACCEPT_BATCH :: nat where "ACCEPT_BATCH = 16"
definition IO_CHUNK :: nat where "IO_CHUNK = 4096"

type_synonym fd = nat

datatype client_state = Reading bytes | Writing (w_frame: bytes) (w_sent: nat)

record client =
  cl_stream :: fd
  cl_deadline :: instant
  cl_state :: client_state

type_synonym clients = "(fd, client) btree"

datatype progress = PendingIo | Requested "wire_error + request" | ClosedIo

text \<open>The library and the texts of the standard library the replies use.\<close>

record control_env =
  ce_mp :: msgpack
  ce_debug :: "rstring \<Rightarrow> rstring"
  ce_io_text :: "io_error_kind \<Rightarrow> rstring"

definition error_text :: "control_env \<Rightarrow> wire_error \<Rightarrow> rstring" where
  "error_text env e = wire_error_text (ce_debug env) (ce_io_text env) e"

section \<open>One client\<close>

text \<open>\<^verbatim>\<open>Client::reply\<close>; none is the panic of an encoding that fails.\<close>

definition client_reply :: "control_env \<Rightarrow> client \<Rightarrow> reply \<Rightarrow> instant \<Rightarrow> client option" where
  "client_reply env c reply now =
     Option.bind (reply_encode (ce_mp env) reply) (\<lambda>payload.
     Option.bind
       (if MAX_MESSAGE_BYTES < length payload
        then reply_encode (ce_mp env) (ReplyError (error_text env (TooLarge (length payload))))
        else Some payload) (\<lambda>payload.
     Some (c\<lparr>cl_state := Writing (le32 (word_of_nat (length payload)) @ payload) 0,
             cl_deadline := now + IO_TIMEOUT\<rparr>)))"

definition header_len :: "bytes \<Rightarrow> nat" where
  "header_len buf = unat (u32_of_le (take 4 buf))"

definition read_target :: "bytes \<Rightarrow> nat" where
  "read_target buf = (if length buf < 4 then 4 else 4 + header_len buf)"

definition advance_reading ::
    "msgpack \<Rightarrow> (nat \<Rightarrow> io_error_kind + bytes) \<Rightarrow> bytes \<Rightarrow> bytes \<times> progress" where
  "advance_reading mp rd buf =
     (let target = read_target buf; count = min (target - length buf) IO_CHUNK
      in case rd count of
           Inr chunk \<Rightarrow>
             if chunk = [] then (buf, Requested (Inl (Io UnexpectedEof)))
             else
               (let buf = buf @ chunk
                in if 4 \<le> length buf then
                     (let len = header_len buf
                      in if MAX_MESSAGE_BYTES < len then (buf, Requested (Inl (TooLarge len)))
                         else if length buf = 4 + len then (buf, Requested (request_decode mp (drop 4 buf)))
                         else (buf, PendingIo))
                   else (buf, PendingIo))
         | Inl e \<Rightarrow> if e = WouldBlock \<or> e = Interrupted then (buf, PendingIo) else (buf, ClosedIo))"

definition advance_writing ::
    "(bytes \<Rightarrow> io_error_kind + nat) \<Rightarrow> bytes \<Rightarrow> nat \<Rightarrow> nat \<times> progress" where
  "advance_writing wr frame nsent =
     (let stop = min (nsent + IO_CHUNK) (length frame)
      in case wr (slice frame nsent stop) of
           Inr n \<Rightarrow>
             if n = 0 then (nsent, ClosedIo)
             else if nsent + n = length frame then (nsent + n, ClosedIo) else (nsent + n, PendingIo)
         | Inl e \<Rightarrow> if e = WouldBlock \<or> e = Interrupted then (nsent, PendingIo) else (nsent, ClosedIo))"

definition advance ::
    "msgpack \<Rightarrow> (nat \<Rightarrow> io_error_kind + bytes) \<Rightarrow> (bytes \<Rightarrow> io_error_kind + nat) \<Rightarrow> client \<Rightarrow> client \<times> progress" where
  "advance mp rd wr c =
     (case cl_state c of
        Reading buf \<Rightarrow>
          (let (buf, p) = advance_reading mp rd buf in (c\<lparr>cl_state := Reading buf\<rparr>, p))
      | Writing frame nsent \<Rightarrow>
          (let (nsent, p) = advance_writing wr frame nsent in (c\<lparr>cl_state := Writing frame nsent\<rparr>, p)))"

section \<open>The clients\<close>

definition can_accept :: "clients \<Rightarrow> bool" where
  "can_accept cs = (length cs < MAX_CLIENTS)"

text \<open>\<^verbatim>\<open>Clients::add\<close>; \<open>ok\<close> is whether the stream could be made nonblocking.\<close>

definition clients_add :: "fd \<Rightarrow> bool \<Rightarrow> instant \<Rightarrow> clients \<Rightarrow> clients" where
  "clients_add fd ok now cs =
     (if ok then bt_insert fd \<lparr>cl_stream = fd, cl_deadline = now + IO_TIMEOUT, cl_state = Reading []\<rparr> cs else cs)"

text \<open>What a call of \<^verbatim>\<open>accept\<close> on the listener returns.\<close>

datatype accepted = Accepted fd bool | AcceptBlocks | AcceptFails

text \<open>\<^verbatim>\<open>Clients::accept\<close>, over the results of the successive calls.\<close>

fun accept_loop :: "nat \<Rightarrow> accepted list \<Rightarrow> instant \<Rightarrow> clients \<Rightarrow> clients" where
  "accept_loop 0 rs now cs = cs"
| "accept_loop (Suc n) [] now cs = cs"
| "accept_loop (Suc n) (r # rs) now cs =
     (if \<not> can_accept cs then cs
      else (case r of
              Accepted fd ok \<Rightarrow> accept_loop n rs now (clients_add fd ok now cs)
            | AcceptBlocks \<Rightarrow> cs
            | AcceptFails \<Rightarrow> cs))"

definition clients_accept :: "accepted list \<Rightarrow> instant \<Rightarrow> clients \<Rightarrow> clients" where
  "clients_accept rs now cs = accept_loop ACCEPT_BATCH rs now cs"

definition clients_next_deadline :: "clients \<Rightarrow> instant option" where
  "clients_next_deadline cs = foldl (\<lambda>d e. earlier d (Some (cl_deadline (snd e)))) None cs"

definition clients_expire :: "instant \<Rightarrow> clients \<Rightarrow> clients" where
  "clients_expire now cs = bt_retain (\<lambda>_ c. now < cl_deadline c) cs"

datatype poll_event = POLLIN | POLLOUT

definition clients_fds :: "clients \<Rightarrow> (fd \<times> poll_event) list" where
  "clients_fds cs = map (\<lambda>(fd, c). (fd, case cl_state c of Reading _ \<Rightarrow> POLLIN | Writing _ _ \<Rightarrow> POLLOUT)) cs"

text \<open>\<^verbatim>\<open>Clients::service\<close>: the clients after it, and the stream and its request when one is complete.\<close>

definition clients_service ::
    "control_env \<Rightarrow> (nat \<Rightarrow> io_error_kind + bytes) \<Rightarrow> (bytes \<Rightarrow> io_error_kind + nat) \<Rightarrow> fd \<Rightarrow> instant \<Rightarrow> clients
      \<Rightarrow> (clients \<times> (fd \<times> request) option) option" where
  "clients_service env rd wr fd now cs =
     (case bt_get cs fd of
        None \<Rightarrow> Some (cs, None)
      | Some c \<Rightarrow>
          (let cs = bt_remove fd cs
           in if cl_deadline c \<le> now then Some (cs, None)
              else
                (case advance (ce_mp env) rd wr c of
                   (c, Requested (Inr request)) \<Rightarrow> Some (cs, Some (cl_stream c, request))
                 | (c, Requested (Inl e)) \<Rightarrow>
                     map_option (\<lambda>c. (bt_insert fd c cs, None))
                       (client_reply env c (ReplyError (error_text env e)) now)
                 | (c, ClosedIo) \<Rightarrow> Some (cs, None)
                 | (c, PendingIo) \<Rightarrow> Some (bt_insert fd c cs, None))))"

definition clients_reply :: "control_env \<Rightarrow> fd \<Rightarrow> reply \<Rightarrow> instant \<Rightarrow> clients \<Rightarrow> clients option" where
  "clients_reply env stream reply now cs =
     map_option (\<lambda>c. bt_insert (cl_stream c) c cs)
       (client_reply env \<lparr>cl_stream = stream, cl_deadline = now, cl_state = Reading []\<rparr> reply now)"

section \<open>The control object\<close>

text \<open>
  \<^verbatim>\<open>ControlObject::permits\<close>, over what the kernel answers: the peer's token, the
  access check (an error counts as a refusal), and the user of the token.
\<close>

definition permits ::
    "'tok option \<Rightarrow> ('tok \<Rightarrow> u32 \<Rightarrow> bool option) \<Rightarrow> ('tok \<Rightarrow> 'sid option) \<Rightarrow> u32 \<Rightarrow> 'sid option" where
  "permits token check user right =
     (case token of
        None \<Rightarrow> None
      | Some t \<Rightarrow>
          if (case check t right of Some allowed \<Rightarrow> allowed | None \<Rightarrow> False) then user t else None)"

section \<open>Clients keep their bounds\<close>

text \<open>What the standard library documents of a read and a write: never more than was asked for or offered.\<close>

definition rd_ok :: "(nat \<Rightarrow> io_error_kind + bytes) \<Rightarrow> bool" where
  "rd_ok rd = (\<forall>n bs. rd n = Inr bs \<longrightarrow> length bs \<le> n)"

definition wr_ok :: "(bytes \<Rightarrow> io_error_kind + nat) \<Rightarrow> bool" where
  "wr_ok wr = (\<forall>bs n. wr bs = Inr n \<longrightarrow> n \<le> length bs)"

text \<open>
  The state of a client between two turns: while reading there is something left to
  read, so the subtraction in \<^verbatim>\<open>advance\<close> does not underflow, and a length that was
  read is within the ceiling; while writing there is something left to write.
\<close>

definition reading_ok :: "bytes \<Rightarrow> bool" where
  "reading_ok buf = (length buf < read_target buf \<and> (4 \<le> length buf \<longrightarrow> header_len buf \<le> MAX_MESSAGE_BYTES))"

fun state_ok :: "client_state \<Rightarrow> bool" where
  "state_ok (Reading buf) = reading_ok buf"
| "state_ok (Writing frame n) = (n < length frame \<and> length frame \<le> 4 + MAX_MESSAGE_BYTES)"

lemma header_len_append [simp]: "4 \<le> length buf \<Longrightarrow> header_len (buf @ rest) = header_len buf"
  by (simp add: header_len_def)

lemma reading_Nil [simp]: "reading_ok []"
  by (simp add: reading_ok_def read_target_def)

text \<open>One read: the cases of the reader, for a buffer that is not yet complete.\<close>

lemma advance_reading_cases:
  assumes "reading_ok buf" "rd_ok rd" "advance_reading mp rd buf = (buf', p)"
  obtains (pending) "p = PendingIo" "reading_ok buf'"
    | (other) "p \<noteq> PendingIo"
proof (cases "p = PendingIo")
  case True
  let ?count = "min (read_target buf - length buf) IO_CHUNK"
  have "reading_ok buf'"
  proof (cases "rd ?count")
    case (Inl e)
    then show ?thesis using assms True by (auto simp: advance_reading_def Let_def split: if_splits)
  next
    case (Inr chunk)
    then have "length chunk \<le> read_target buf - length buf"
      using assms(2) unfolding rd_ok_def by (metis min.boundedE)
    then have le: "length (buf @ chunk) \<le> read_target buf"
      using assms(1) unfolding reading_ok_def by simp linarith
    have b: "buf' = buf @ chunk" "4 \<le> length buf' \<Longrightarrow> header_len buf' \<le> MAX_MESSAGE_BYTES"
      "4 \<le> length buf' \<Longrightarrow> length buf' \<noteq> 4 + header_len buf'"
      using assms(3) True Inr by (auto simp: advance_reading_def Let_def split: if_splits)
    show ?thesis
    proof (cases "4 \<le> length buf")
      case True
      then have "read_target buf = 4 + header_len buf'" by (simp add: read_target_def b(1))
      then show ?thesis
        using b le True by (auto simp: reading_ok_def read_target_def)
    next
      case False
      then have "length buf' \<le> 4" using le b(1) by (simp add: read_target_def)
      then show ?thesis using b by (auto simp: reading_ok_def read_target_def)
    qed
  qed
  then show ?thesis using True that by blast
qed (use that in blast)

lemma advance_writing_pending:
  assumes "n < length frame" "wr_ok wr" "advance_writing wr frame n = (n', PendingIo)"
  shows "n' < length frame"
proof -
  let ?stop = "min (n + IO_CHUNK) (length frame)"
  have "k \<le> length frame - n" if "wr (slice frame n ?stop) = Inr k" for k
  proof -
    have "k \<le> length (slice frame n ?stop)" using that assms(2) unfolding wr_ok_def by blast
    then show ?thesis by simp
  qed
  then show ?thesis
    using assms(1,3) by (force simp: advance_writing_def Let_def split: sum.splits if_splits)
qed

lemma advance_fields [simp]:
  "cl_stream (fst (advance mp rd wr c)) = cl_stream c" "cl_deadline (fst (advance mp rd wr c)) = cl_deadline c"
  by (simp_all add: advance_def split_def Let_def split: client_state.splits)

lemma advance_pending:
  assumes "state_ok (cl_state c)" "rd_ok rd" "wr_ok wr" "advance mp rd wr c = (c', PendingIo)"
  shows "state_ok (cl_state c')"
proof (cases "cl_state c")
  case (Reading buf)
  obtain buf' p where a: "advance_reading mp rd buf = (buf', p)" by force
  then have "p = PendingIo" "cl_state c' = Reading buf'"
    using assms(4) Reading by (auto simp: advance_def)
  with a show ?thesis
    using assms(1,2) Reading by (auto elim: advance_reading_cases [of buf rd mp buf' p])
next
  case (Writing frame n)
  obtain n' p where a: "advance_writing wr frame n = (n', p)" by force
  then have "p = PendingIo" "cl_state c' = Writing frame n'"
    using assms(4) Writing by (auto simp: advance_def)
  with a show ?thesis
    using assms(1,3) Writing advance_writing_pending [of n frame wr n'] by simp
qed

lemma error_reply_encodes:
  assumes "mp_ok mp enc" "text_ok m" "length m \<le> 60"
  shows "\<exists>b. reply_encode mp (ReplyError m) = Some b \<and> length b \<le> MAX_MESSAGE_BYTES"
proof -
  let ?b = "enc_all enc (reply_tokens (ReplyError m))"
  have "length ?b \<le> 28 + length m"
    using mp_okD(4) [OF assms(1), of 2] mp_okD(5) [OF assms(1), of False] mp_okD(3) [OF assms(1), of "''ok''"]
      mp_okD(3) [OF assms(1), of "''error''"] mp_okD(3) [OF assms(1), of m] by simp
  then show ?thesis
    using reply_encodes [OF assms(1), of "ReplyError m"] assms(2,3)
    by (simp add: vec_fits_def MAX_MESSAGE_BYTES_def)
qed

lemma hex_digit_ascii: "n < 16 \<Longrightarrow> \<not> digit7 (hex_digit n)"
  by (auto simp: hex_digit_def char_of_def bit_iff_odd)

lemma nat_text_ascii: "list_all (\<lambda>c. \<not> digit7 c) (nat_text n)"
proof (induction n rule: nat_text.induct)
  case (1 n)
  then show ?case by (subst nat_text.simps) (simp add: hex_digit_ascii)
qed

text \<open>A decimal number below a power of ten is that short.\<close>

lemma length_nat_text: "n < 10 ^ Suc k \<Longrightarrow> length (nat_text n) \<le> Suc k"
proof (induction k arbitrary: n)
  case 0
  then show ?case by (subst nat_text.simps) simp
next
  case (Suc k)
  then have "n div 10 < 10 ^ Suc k" by (simp add: less_mult_imp_div_less mult.commute)
  with Suc.IH [of "n div 10"] show ?case by (subst nat_text.simps) simp
qed

lemma too_large_text:
  assumes "n < 2 ^ 63"
  shows "text_ok (error_text env (TooLarge n)) \<and> length (error_text env (TooLarge n)) \<le> 60"
proof -
  have "length (nat_text n) \<le> Suc 19" using assms by (intro length_nat_text) simp
  then have len: "length (error_text env (TooLarge n)) \<le> 60" by (simp add: error_text_def)
  moreover have "text_ok (error_text env (TooLarge n))"
    using len by (intro text_ok_ascii) (simp_all add: error_text_def nat_text_ascii)
  ultimately show ?thesis by simp
qed

text \<open>
  A reply that encodes, however long, becomes a frame within the ceiling and a fresh
  deadline: a reply over the ceiling becomes the error that says so, which encodes.
\<close>

lemma client_reply_frame:
  assumes "mp_ok (ce_mp env) enc" "reply_encode (ce_mp env) r = Some payload"
  obtains payload' where "length payload' \<le> MAX_MESSAGE_BYTES"
    and "length payload \<le> MAX_MESSAGE_BYTES \<Longrightarrow> payload' = payload"
    and "client_reply env c r now = Some (c\<lparr>cl_state := Writing (le32 (word_of_nat (length payload')) @ payload') 0,
           cl_deadline := now + IO_TIMEOUT\<rparr>)"
proof (cases "MAX_MESSAGE_BYTES < length payload")
  case True
  have "vec_fits payload" using assms by (metis mp_okD(13) reply_encode_def)
  then have "length payload < 2 ^ 63" by (simp add: vec_fits_def)
  from too_large_text [OF this, of env] obtain b
    where "reply_encode (ce_mp env) (ReplyError (error_text env (TooLarge (length payload)))) = Some b"
      "length b \<le> MAX_MESSAGE_BYTES"
    using error_reply_encodes [OF assms(1)] by blast
  with True assms(2) show ?thesis by (intro that [of b]) (simp_all add: client_reply_def)
next
  case False
  with assms(2) show ?thesis by (intro that [of payload]) (simp_all add: client_reply_def)
qed

lemma client_reply_ok:
  assumes "mp_ok (ce_mp env) enc" "client_reply env c r now = Some c'"
  shows "cl_stream c' = cl_stream c \<and> cl_deadline c' = now + IO_TIMEOUT \<and> state_ok (cl_state c')"
proof -
  obtain payload where p: "reply_encode (ce_mp env) r = Some payload"
    using assms(2) by (auto simp: client_reply_def bind_eq_Some_conv)
  show ?thesis
    by (rule client_reply_frame [OF assms(1) p, of c now]) (use assms(2) in auto)
qed

section \<open>Reachable states\<close>

text \<open>
  What the event loop does with the clients, in any order and at times that do not
  go back: accepting, expiring, serving one stream, and answering the request a
  served stream completed (\<open>replied\<close>) or keeping the stream for itself (\<open>served\<close>, a
  subscription).
\<close>

inductive control_reachable :: "control_env \<Rightarrow> instant \<Rightarrow> clients \<Rightarrow> bool" for env where
  start: "control_reachable env t []"
| wait: "control_reachable env t cs \<Longrightarrow> t \<le> t' \<Longrightarrow> control_reachable env t' cs"
| accept: "control_reachable env t cs \<Longrightarrow> control_reachable env t (clients_accept rs t cs)"
| expire: "control_reachable env t cs \<Longrightarrow> control_reachable env t (clients_expire t cs)"
| served: "control_reachable env t cs \<Longrightarrow> rd_ok rd \<Longrightarrow> wr_ok wr \<Longrightarrow>
    clients_service env rd wr fd t cs = Some (cs', r) \<Longrightarrow> control_reachable env t cs'"
| replied: "control_reachable env t cs \<Longrightarrow> rd_ok rd \<Longrightarrow> wr_ok wr \<Longrightarrow>
    clients_service env rd wr fd t cs = Some (cs', Some (stream, request)) \<Longrightarrow> t \<le> t' \<Longrightarrow>
    clients_reply env stream reply t' cs' = Some cs'' \<Longrightarrow> control_reachable env t' cs''"

definition client_ok :: "instant \<Rightarrow> fd \<times> client \<Rightarrow> bool" where
  "client_ok t e = (cl_stream (snd e) = fst e \<and> state_ok (cl_state (snd e)) \<and> cl_deadline (snd e) \<le> t + IO_TIMEOUT)"

definition clients_inv :: "instant \<Rightarrow> clients \<Rightarrow> bool" where
  "clients_inv t cs = (bt_ok cs \<and> length cs \<le> MAX_CLIENTS \<and> list_all (client_ok t) cs)"

lemma length_bt_insert: "length (bt_insert k v m) \<le> Suc (length m)"
  by (induction k v m rule: bt_insert.induct) auto

lemma length_bt_remove:
  assumes "bt_ok m" "bt_get m k = Some v"
  shows "Suc (length (bt_remove k m)) \<le> length m"
proof -
  have "(k, v) \<in> set m" using assms by (simp add: bt_get_in)
  from length_filter_less [OF this, of "\<lambda>e. fst e \<noteq> k"]
  have "length (filter (\<lambda>e. fst e \<noteq> k) m) < length m" by simp
  then show ?thesis by (simp add: bt_remove_def)
qed

lemma inv_insert:
  assumes "clients_inv t cs" "length cs < MAX_CLIENTS" "client_ok t (fd, c)"
  shows "clients_inv t (bt_insert fd c cs)"
  using assms length_bt_insert [of fd c cs] by (auto simp: clients_inv_def list_all_iff set_bt_insert)

lemma inv_remove: "clients_inv t cs \<Longrightarrow> clients_inv t (bt_remove fd cs)"
  by (auto simp: clients_inv_def bt_remove_def list_all_iff intro: le_trans [OF length_filter_le])

lemma inv_accept: "clients_inv t cs \<Longrightarrow> clients_inv t (accept_loop n rs t cs)"
proof (induction n rs t cs rule: accept_loop.induct)
  case (3 n r rs now cs)
  have "clients_inv now (clients_add fd ok now cs)" if "can_accept cs" for fd ok
    using 3(2) that unfolding clients_add_def can_accept_def by (auto simp: client_ok_def intro!: inv_insert)
  then show ?case using 3 by (auto split: accepted.splits)
qed simp_all

lemma inv_wait: "clients_inv t cs \<Longrightarrow> t \<le> t' \<Longrightarrow> clients_inv t' cs"
  by (auto simp: clients_inv_def client_ok_def list_all_iff)

lemma inv_expire: "clients_inv t cs \<Longrightarrow> clients_inv t (clients_expire t' cs)"
  by (auto simp: clients_inv_def clients_expire_def bt_retain_def list_all_iff intro: le_trans [OF length_filter_le])

lemma inv_service:
  assumes "mp_ok (ce_mp env) enc" "clients_inv t cs" "rd_ok rd" "wr_ok wr" "clients_service env rd wr fd t cs = Some (cs', r)"
  shows "clients_inv t cs' \<and> (r \<noteq> None \<longrightarrow> length cs' < MAX_CLIENTS)"
proof (cases "bt_get cs fd")
  case None
  then show ?thesis using assms(2,5) by (simp add: clients_service_def)
next
  case (Some c)
  have ok: "client_ok t (fd, c)"
    using assms(2) Some bt_get_in [of cs fd c] by (auto simp: clients_inv_def list_all_iff)
  let ?cs = "bt_remove fd cs"
  have rem: "clients_inv t ?cs" "length ?cs < MAX_CLIENTS"
    using inv_remove [OF assms(2)] length_bt_remove [of cs fd c] Some assms(2) by (auto simp: clients_inv_def)
  obtain c1 p where a: "advance (ce_mp env) rd wr c = (c1, p)" by force
  have c1: "cl_stream c1 = fd" "cl_deadline c1 \<le> t + IO_TIMEOUT"
    using ok advance_fields [of "ce_mp env" rd wr c] a by (auto simp: client_ok_def)
  have ins: "clients_inv t (bt_insert fd c2 ?cs)" if "client_ok t (fd, c2)" for c2
    using inv_insert [OF rem that] .
  have pending: "client_ok t (fd, c1)" if "p = PendingIo"
    using ok a that c1 assms(3,4) advance_pending [of c rd wr "ce_mp env" c1] by (simp add: client_ok_def)
  have replied: "client_ok t (fd, c2)" if "client_reply env c1 x t = Some c2" for c2 x
    using client_reply_ok [OF assms(1) that] c1 by (simp add: client_ok_def)
  show ?thesis
    using assms(5) Some a rem ins pending replied
    by (auto simp: clients_service_def Let_def split: if_splits progress.splits sum.splits)
qed

lemma reachable_clients_inv:
  assumes "mp_ok (ce_mp env) enc"
  shows "control_reachable env t cs \<Longrightarrow> clients_inv t cs"
proof (induction rule: control_reachable.induct)
  case (start t)
  then show ?case by (simp add: clients_inv_def)
next
  case (served t cs rd wr fd cs' r)
  then show ?case using inv_service [OF assms] by blast
next
  case (replied t cs rd wr fd cs' stream request t' reply cs'')
  have "clients_inv t' cs'" "length cs' < MAX_CLIENTS"
    using inv_service [OF assms replied.IH replied.hyps(2-4)] inv_wait replied.hyps(5) by auto
  moreover obtain c where "client_reply env \<lparr>cl_stream = stream, cl_deadline = t', cl_state = Reading []\<rparr> reply t' = Some c"
      "cs'' = bt_insert (cl_stream c) c cs'"
    using replied.hyps(6) by (auto simp: clients_reply_def)
  ultimately show ?case
    using client_reply_ok [OF assms, of _ reply t' c] by (auto simp: client_ok_def intro!: inv_insert)
qed (auto intro: inv_wait inv_accept inv_expire simp: clients_accept_def)


lemma next_deadline_later: "later (clients_next_deadline (clients_expire t cs)) t"
  by (auto simp: clients_next_deadline_def later_foldl_earlier clients_expire_def)

lemma all_expired: "clients_inv t cs \<Longrightarrow> clients_expire (t + IO_TIMEOUT) cs = []"
  by (auto simp: clients_inv_def clients_expire_def bt_retain_def client_ok_def list_all_iff filter_empty_conv not_less)

text \<open>A request that trickles in does not move its deadline.\<close>

lemma trickle_keeps_deadline:
  assumes "bt_ok cs" "bt_get cs fd = Some c" "clients_service env rd wr fd t cs = Some (cs', r)"
    and "bt_get cs' fd = Some c'" "cl_state c' = Reading buf"
  shows "cl_deadline c' = cl_deadline c"
proof -
  obtain c1 p where a: "advance (ce_mp env) rd wr c = (c1, p)" by force
  have d: "cl_deadline c1 = cl_deadline c" using advance_fields(2) [of "ce_mp env" rd wr c] a by simp
  have w: "cl_state c2 \<noteq> Reading buf" if "client_reply env c1 x t = Some c2" for x c2
    using that by (auto simp: client_reply_def bind_eq_Some_conv)
  have none: "bt_get (bt_remove fd cs) fd = None" by (simp add: bt_get_remove)
  have ins: "bt_get (bt_insert fd c2 (bt_remove fd cs)) fd = Some c2" for c2
    using assms(1) by (simp add: bt_get_insert)
  show ?thesis
    using assms(2-) a d w none ins
    by (auto simp: clients_service_def Let_def split: if_splits progress.splits sum.splits)
qed

text \<open>
  C28: The control socket is bounded.  In every reachable state there are at most 64
  clients; none buffers more than a header and the ceiling of 65536 bytes, neither of
  what it reads nor of what it is sent, and there is something left to read or to
  write; no deadline lies more than two seconds ahead, so two seconds without a new
  connection or a new reply free every slot; bytes that trickle in do not move a
  deadline; and once the expired clients are gone, the next deadline is in the future.
\<close>

theorem control_bounded:
  assumes "mp_ok (ce_mp env) enc" "control_reachable env t cs"
  shows "length cs \<le> 64
    \<and> (\<forall>e\<in>set cs. case cl_state (snd e) of
          Reading buf \<Rightarrow> length buf < 4 + MAX_MESSAGE_BYTES \<and> length buf < read_target buf
        | Writing frame n \<Rightarrow> n < length frame \<and> length frame \<le> 4 + MAX_MESSAGE_BYTES)
    \<and> clients_expire (t + secs 2) cs = []
    \<and> (\<forall>fd c c' buf rd wr cs' r. bt_get cs fd = Some c \<and> clients_service env rd wr fd t cs = Some (cs', r)
          \<and> bt_get cs' fd = Some c' \<and> cl_state c' = Reading buf \<longrightarrow> cl_deadline c' = cl_deadline c)
    \<and> later (clients_next_deadline (clients_expire t cs)) t"
proof -
  have inv: "clients_inv t cs" using reachable_clients_inv [OF assms] .
  have "length buf < 4 + MAX_MESSAGE_BYTES \<and> length buf < read_target buf" if "reading_ok buf" for buf
    using that by (auto simp: reading_ok_def read_target_def MAX_MESSAGE_BYTES_def split: if_splits)
  then have "case cl_state (snd e) of
      Reading buf \<Rightarrow> length buf < 4 + MAX_MESSAGE_BYTES \<and> length buf < read_target buf
    | Writing frame n \<Rightarrow> n < length frame \<and> length frame \<le> 4 + MAX_MESSAGE_BYTES" if "e \<in> set cs" for e
    using inv that by (auto simp: clients_inv_def client_ok_def list_all_iff split: client_state.splits)
  moreover have "clients_expire (t + secs 2) cs = []"
    using all_expired [OF inv] by (simp add: IO_TIMEOUT_def)
  moreover have "bt_ok cs" "length cs \<le> 64" using inv by (simp_all add: clients_inv_def MAX_CLIENTS_def)
  ultimately show ?thesis
    using trickle_keeps_deadline next_deadline_later by blast
qed

section \<open>Reading and writing in pieces\<close>

text \<open>
  A client read until it has a result, where the i-th read is given at most as many
  bytes as the i-th limit allows, and an exhausted stream is at its end.
\<close>

fun read_all :: "msgpack \<Rightarrow> nat list \<Rightarrow> bytes \<Rightarrow> bytes \<Rightarrow> (wire_error + request) option \<times> bytes" where
  "read_all mp [] buf s = (None, s)"
| "read_all mp (k # ks) buf s =
     (let (buf', p) = advance_reading mp (\<lambda>n. Inr (take (min n k) s)) buf;
          s' = drop (length buf' - length buf) s
      in case p of
           Requested r \<Rightarrow> (Some r, s')
         | PendingIo \<Rightarrow> read_all mp ks buf' s'
         | ClosedIo \<Rightarrow> (None, s'))"

fun write_all :: "nat list \<Rightarrow> bytes \<Rightarrow> nat \<Rightarrow> bytes \<times> bool" where
  "write_all [] frame n = ([], False)"
| "write_all (k # ks) frame n =
     (let (n', p) = advance_writing (\<lambda>bs. Inr (min k (length bs))) frame n;
          out = slice frame n n'
      in case p of
           PendingIo \<Rightarrow> (let (more_out, fin) = write_all ks frame n' in (out @ more_out, fin))
         | _ \<Rightarrow> (out, True))"

text \<open>What the blocking reader and the decoder make of a stream.\<close>

definition whole_request :: "msgpack \<Rightarrow> bytes \<Rightarrow> wire_error + request" where
  "whole_request mp w = then_with (wire_recv w) (\<lambda>(payload, rest). request_decode mp payload)"

lemma wire_recv_complete:
  assumes "4 \<le> length buf" "header_len buf \<le> MAX_MESSAGE_BYTES" "length buf = 4 + header_len buf"
  shows "wire_recv (buf @ s) = Inr (drop 4 buf, s)"
  using assms by (simp add: wire_recv_def read_exact_def Let_def header_len_def)

lemma wire_recv_too_large:
  assumes "4 \<le> length buf" "MAX_MESSAGE_BYTES < header_len buf"
  shows "wire_recv (buf @ s) = Inl (TooLarge (header_len buf))"
  using assms by (simp add: wire_recv_def read_exact_def Let_def header_len_def)

lemma wire_recv_eof: "reading_ok buf \<Longrightarrow> wire_recv buf = Inl (Io UnexpectedEof)"
  by (auto simp: wire_recv_def read_exact_def Let_def header_len_def reading_ok_def read_target_def split: if_splits)

lemma read_all_recv:
  assumes "list_all (\<lambda>k. 0 < k) ks" "length s < length ks" "reading_ok buf"
  shows "fst (read_all mp ks buf s) = Some (whole_request mp (buf @ s))
    \<and> (\<forall>payload rest. wire_recv (buf @ s) = Inr (payload, rest) \<longrightarrow> snd (read_all mp ks buf s) = rest)"
  using assms
proof (induction ks arbitrary: buf s)
  case (Cons k ks)
  define count where "count = min (read_target buf - length buf) IO_CHUNK"
  define chunk where "chunk = take (min count k) s"
  let ?rd = "\<lambda>n. Inr (take (min n k) s)"
  have rd: "rd_ok ?rd" by (auto simp: rd_ok_def)
  have pos: "0 < min count k"
    using Cons.prems(1,3) by (simp add: count_def reading_ok_def IO_CHUNK_def)
  obtain buf' p where a: "advance_reading mp ?rd buf = (buf', p)" by force
  show ?case
  proof (cases "s = []")
    case True
    then have "advance_reading mp ?rd buf = (buf, Requested (Inl (Io UnexpectedEof)))"
      by (simp add: advance_reading_def Let_def)
    then show ?thesis using True wire_recv_eof [OF Cons.prems(3)] by (simp add: whole_request_def)
  next
    case False
    then have ne: "chunk \<noteq> []" using pos by (simp add: chunk_def)
    let ?b = "buf @ chunk" and ?s = "drop (length chunk) s"
    have "?s = drop (min count k) s" by (auto simp: chunk_def min_def)
    then have split: "buf @ s = ?b @ ?s" by (simp add: chunk_def)
    have adv: "advance_reading mp ?rd buf =
        (if 4 \<le> length ?b then
           if MAX_MESSAGE_BYTES < header_len ?b then (?b, Requested (Inl (TooLarge (header_len ?b))))
           else if length ?b = 4 + header_len ?b then (?b, Requested (request_decode mp (drop 4 ?b)))
           else (?b, PendingIo)
         else (?b, PendingIo))"
      using ne unfolding advance_reading_def Let_def count_def [symmetric] chunk_def [symmetric] by simp
    then have b': "buf' = ?b" using a by (auto split: if_splits)
    consider (big) "4 \<le> length ?b" "MAX_MESSAGE_BYTES < header_len ?b"
      | (whole) "4 \<le> length ?b" "header_len ?b \<le> MAX_MESSAGE_BYTES" "length ?b = 4 + header_len ?b"
      | (part) "p = PendingIo"
      using a adv by (auto split: if_splits)
    then show ?thesis
    proof cases
      case big
      then show ?thesis
        unfolding split using adv wire_recv_too_large [OF big, of ?s] by (simp add: whole_request_def)
    next
      case whole
      then have "4 + header_len ?b - length buf = length chunk" by simp
      with whole show ?thesis
        unfolding split using adv wire_recv_complete [OF whole, of ?s] by (simp add: whole_request_def)
    next
      case part
      then have "reading_ok ?b"
        using a b' Cons.prems(3) rd by (auto elim: advance_reading_cases [of buf ?rd mp buf' p])
      moreover have "length ?s < length ks"
        using Cons.prems(2) ne False by (cases chunk; cases s) auto
      ultimately have "fst (read_all mp ks ?b ?s) = Some (whole_request mp (?b @ ?s))
          \<and> (\<forall>payload rest. wire_recv (?b @ ?s) = Inr (payload, rest) \<longrightarrow> snd (read_all mp ks ?b ?s) = rest)"
        using Cons.prems(1) by (intro Cons.IH) simp_all
      then show ?thesis
        unfolding split using a b' part by simp
    qed
  qed
qed simp

lemma write_all_frame:
  assumes "list_all (\<lambda>k. 0 < k) ks" "length frame - n \<le> length ks" "n < length frame"
  shows "write_all ks frame n = (drop n frame, True)"
  using assms
proof (induction ks arbitrary: n)
  case (Cons k ks)
  let ?stop = "min (n + IO_CHUNK) (length frame)"
  define m where "m = min k (length (slice frame n ?stop))"
  have m: "0 < m" "n + m \<le> length frame"
    using Cons.prems by (auto simp: m_def IO_CHUNK_def)
  have adv: "advance_writing (\<lambda>bs. Inr (min k (length bs))) frame n
      = (n + m, if n + m = length frame then ClosedIo else PendingIo)"
    using m(1) unfolding advance_writing_def Let_def m_def [symmetric] by simp
  show ?case
  proof (cases "n + m = length frame")
    case True
    then show ?thesis using adv by (simp add: slice_def)
  next
    case False
    then have "write_all ks frame (n + m) = (drop (n + m) frame, True)"
      using Cons.prems m by (intro Cons.IH) auto
    moreover have "slice frame n (n + m) @ drop (n + m) frame = drop n frame"
      by (simp add: slice_def add.commute flip: drop_drop)
    ultimately show ?thesis using adv False by simp
  qed
qed simp

text \<open>
  C29: Reading and writing in pieces changes nothing.  However the stream is cut into
  reads, as long as each read makes progress, a client ends with exactly what the
  blocking reader and the decoder make of the whole stream -- the request, the refusal
  of an oversized header before any of its payload is read, or the premature end --
  and leaves what follows the frame unread; and the writes put exactly the frame on
  the stream, once, and then close it.
\<close>

theorem control_pieces:
  assumes "list_all (\<lambda>k. 0 < k) ks" "length s < length ks" "0 < length frame" "length frame \<le> length ks"
  shows "fst (read_all mp ks [] s) = Some (whole_request mp s)
    \<and> (\<forall>payload rest. wire_recv s = Inr (payload, rest) \<longrightarrow> snd (read_all mp ks [] s) = rest)
    \<and> write_all ks frame 0 = (frame, True)"
  using read_all_recv [OF assms(1,2), of "[]" mp] write_all_frame [OF assms(1), of frame 0] assms(3,4) by simp

definition ex_control_env :: control_env where
  "ex_control_env = \<lparr>ce_mp = mp_ref, ce_debug = \<lambda>s. s, ce_io_text = \<lambda>e. ''i/o''\<rparr>"

definition ex_client :: client where
  "ex_client = \<lparr>cl_stream = 7, cl_deadline = IO_TIMEOUT, cl_state = Reading []\<rparr>"

lemma ex_clients_reachable: "control_reachable ex_control_env 0 [(7, ex_client)]"
  using control_reachable.accept [OF control_reachable.start, of ex_control_env 0 "[Accepted 7 True, AcceptBlocks]"]
  by (simp add: clients_accept_def ACCEPT_BATCH_def clients_add_def can_accept_def MAX_CLIENTS_def ex_client_def
      numeral_eq_Suc)


theorem control_bounded_witness:
  "length [(7, ex_client)] \<le> 64 \<and> clients_expire (secs 2) [(7, ex_client)] = []"
proof -
  have "mp_ok (ce_mp ex_control_env) ref_enc" by (simp add: ex_control_env_def mp_ref_ok)
  from control_bounded [OF this ex_clients_reachable] show ?thesis by simp
qed

definition ex_frame :: bytes where
  "ex_frame = le32 (word_of_nat (length (enc_all ref_enc (request_tokens ReqStatus))))
     @ enc_all ref_enc (request_tokens ReqStatus)"

theorem control_pieces_witness:
  "fst (read_all mp_ref (replicate 64 1) [] ex_frame) = Some (Inr ReqStatus)
   \<and> write_all (replicate 64 1) ex_frame 0 = (ex_frame, True)"
proof -
  let ?b = "enc_all ref_enc (request_tokens ReqStatus)"
  have len: "length ?b = 26" by simp
  then have "wire_recv (ex_frame @ []) = Inr (?b, [])"
    by (intro wire_recv_send) (simp add: wire_send_def ex_frame_def MAX_MESSAGE_BYTES_def del: enc_all_simps request_tokens.simps)
  moreover have "request_decode mp_ref ?b = Inr ReqStatus"
    by (rule request_decodes [OF mp_ref_ok]) simp
  ultimately have "whole_request mp_ref ex_frame = Inr ReqStatus"
    by (simp add: whole_request_def del: enc_all_simps request_tokens.simps)
  moreover have "length ex_frame = 30" using len by (simp add: ex_frame_def del: enc_all_simps request_tokens.simps)
  ultimately show ?thesis
    using control_pieces [of "replicate 64 1" ex_frame ex_frame mp_ref] by (auto simp: list_all_iff)
qed

end
