(* ===== verification/Registry_Config.thy ===== *)
theory Registry_Config
  imports Profile
begin

text \<open>
  Reading the registry (\<^verbatim>\<open>src/netd/src/config.rs\<close>): the values netd takes from it, the
  lowering of a key to the neutral tree the interface layer and the profiles are
  built from, and the configuration as a whole, which is read completely or not at
  all.

  The registry is the argument \<open>rd\<close>, the four operations of the trait \<^verbatim>\<open>Reader\<close> on the
  keys of a type of its own.
\<close>

section \<open>The reader\<close>

datatype value_type = REG_SZ | REG_EXPAND_SZ | REG_MULTI_SZ | REG_DWORD | REG_QWORD | REG_BINARY | REG_OTHER

record reg_entry =
  rv_name :: bytes
  rv_ty :: value_type
  rv_data :: bytes

datatype 'e config_error = ReaderError 'e | InvalidData rstring | Disappeared

record ('k, 'e) reader =
  rd_value :: "'k \<Rightarrow> rstring \<Rightarrow> 'e + (value_type \<times> bytes) option"
  rd_values :: "'k \<Rightarrow> 'e + reg_entry list"
  rd_names :: "'k \<Rightarrow> 'e + bytes list"
  rd_child :: "'k \<Rightarrow> rstring \<Rightarrow> 'e + 'k option"

definition read_ok :: "'e + 'a \<Rightarrow> 'e config_error + 'a" where
  "read_ok r = map_sum ReaderError (\<lambda>a. a) r"

lemma read_ok_Inr [simp]: "read_ok r = Inr a \<longleftrightarrow> r = Inr a" "read_ok (Inl e) = Inl (ReaderError e)"
  by (cases r; simp add: read_ok_def)+

definition MAX_DEPTH :: nat where "MAX_DEPTH = 16"

section \<open>Values\<close>

definition cfg_text :: "bytes \<Rightarrow> 'e config_error + rstring" where
  "cfg_text bs = (case from_utf8 bs of Some s \<Rightarrow> Inr s | None \<Rightarrow> Inl (InvalidData ''configuration text is not UTF-8''))"

text \<open>Up to the first zero byte.\<close>

definition before_nul :: "bytes \<Rightarrow> bytes" where
  "before_nul data = takeWhile (\<lambda>b. b \<noteq> 0) data"

definition cfg_sz :: "value_type \<times> bytes \<Rightarrow> 'e config_error + rstring" where
  "cfg_sz v =
     (if fst v \<noteq> REG_SZ \<and> fst v \<noteq> REG_EXPAND_SZ then Inl (InvalidData ''configuration string has a non-string type'')
      else cfg_text (before_nul (snd v)))"

text \<open>\<^verbatim>\<open>data.split(|&byte| byte == 0)\<close>.\<close>

fun split_nul :: "bytes \<Rightarrow> bytes list" where
  "split_nul [] = [[]]"
| "split_nul (b # bs) = (if b = 0 then [] # split_nul bs else (case split_nul bs of p # ps \<Rightarrow> (b # p) # ps | [] \<Rightarrow> [[b]]))"

definition cfg_lower_value :: "value_type \<Rightarrow> bytes \<Rightarrow> 'e config_error + raw_value" where
  "cfg_lower_value ty data =
     (if ty = REG_DWORD \<and> length data = 4 then Inr (RInt (int (be_nat (rev data))))
      else if ty = REG_QWORD \<and> length data = 8 then Inr (RInt (sint (word_of_nat (be_nat (rev data)) :: u64)))
      else if ty = REG_SZ \<or> ty = REG_EXPAND_SZ then map_sum (\<lambda>e. e) RStr (cfg_text (before_nul data))
      else if ty = REG_MULTI_SZ then
        map_sum (\<lambda>e. e) RList (collect_result cfg_text (filter (\<lambda>p. p \<noteq> []) (split_nul data)))
      else Inr ROther)"

definition read_sz :: "('k, 'e) reader \<Rightarrow> 'k \<Rightarrow> rstring \<Rightarrow> 'e config_error + rstring option" where
  "read_sz rd key name =
     (case read_ok (rd_value rd key name) of
        Inl e \<Rightarrow> Inl e
      | Inr None \<Rightarrow> Inr None
      | Inr (Some v) \<Rightarrow>
          (case cfg_sz v of Inl e \<Rightarrow> Inl e | Inr s \<Rightarrow> Inr (if s = [] then None else Some s)))"

section \<open>Trees\<close>

text \<open>The values of a key, by name; an unnamed value is left out.\<close>

definition read_entry :: "reg_entry \<Rightarrow> 'e config_error + (rstring \<times> raw_value) list" where
  "read_entry r =
     (case cfg_text (rv_name r) of
        Inl e \<Rightarrow> Inl e
      | Inr name \<Rightarrow>
          if name \<noteq> []
          then (case cfg_lower_value (rv_ty r) (rv_data r) of Inl e \<Rightarrow> Inl e | Inr v \<Rightarrow> Inr [(name, v)])
          else Inr [])"

definition read_values :: "('k, 'e) reader \<Rightarrow> 'k \<Rightarrow> 'e config_error + (rstring \<times> raw_value) list" where
  "read_values rd key =
     (case read_ok (rd_values rd key) of
        Inl e \<Rightarrow> Inl e
      | Inr records \<Rightarrow>
          (case collect_result read_entry records of Inl e \<Rightarrow> Inl e | Inr vs \<Rightarrow> Inr (sort_key fst (concat vs))))"

definition read_names :: "('k, 'e) reader \<Rightarrow> 'k \<Rightarrow> 'e config_error + rstring list" where
  "read_names rd key =
     (case read_ok (rd_names rd key) of
        Inl e \<Rightarrow> Inl e
      | Inr ns \<Rightarrow> (case collect_result cfg_text ns of Inl e \<Rightarrow> Inl e | Inr names \<Rightarrow> Inr (sort names)))"

definition open_child :: "('k, 'e) reader \<Rightarrow> 'k \<Rightarrow> rstring \<Rightarrow> 'e config_error + 'k" where
  "open_child rd key name =
     (case read_ok (rd_child rd key name) of
        Inl e \<Rightarrow> Inl e
      | Inr (Some child) \<Rightarrow> Inr child
      | Inr None \<Rightarrow> Inl Disappeared)"

lemma collect_result_cong [fundef_cong]:
  assumes "xs = ys" "\<And>x. x \<in> set ys \<Longrightarrow> f x = g x"
  shows "collect_result f xs = collect_result g ys"
  using assms(2) unfolding assms(1) by (induction ys) (auto split: sum.splits)

function read_tree :: "('k, 'e) reader \<Rightarrow> 'k \<Rightarrow> rstring \<Rightarrow> nat \<Rightarrow> 'e config_error + raw_key" where
  "read_tree rd key name depth =
     (case read_values rd key of
        Inl e \<Rightarrow> Inl e
      | Inr vs \<Rightarrow>
          (case read_names rd key of
             Inl e \<Rightarrow> Inl e
           | Inr names \<Rightarrow>
               if MAX_DEPTH \<le> depth \<and> names \<noteq> []
               then Inl (InvalidData ''configuration tree exceeds the read depth limit'')
               else
                 (case collect_result
                     (\<lambda>n. case open_child rd key n of
                            Inl e \<Rightarrow> Inl e
                          | Inr child \<Rightarrow> read_tree rd child n (depth + 1))
                     names of
                    Inl e \<Rightarrow> Inl e
                  | Inr children \<Rightarrow> Inr (RawKey name vs children))))"
  by pat_completeness auto
termination
  by (relation "measure (\<lambda>(rd, key, name, depth). MAX_DEPTH - depth)") auto

declare read_tree.simps [simp del]

section \<open>Identifiers in hexadecimal\<close>

fun hex_pairs :: "rstring \<Rightarrow> bytes" where
  "hex_pairs (a # b # s) = word_of_nat (the (to_digit 16 a) * 16 + the (to_digit 16 b)) # hex_pairs s"
| "hex_pairs _ = []"

definition parse_hex :: "rstring \<Rightarrow> bytes option" where
  "parse_hex s =
     (let digits = filter is_ascii_hexdigit s
      in if digits = [] \<or> length digits mod 2 \<noteq> 0 then None
         else if list_ex (\<lambda>c. \<not> (is_ascii_hexdigit c \<or> c = CHR '':'' \<or> c = CHR ''-'' \<or> is_ascii_whitespace c)) s
         then None
         else Some (hex_pairs digits))"

definition format_hex :: "bytes \<Rightarrow> rstring" where
  "format_hex bs = join_with '':'' (map hex2 bs)"

section \<open>The configuration\<close>

record config =
  cf_hostname :: "rstring option"
  cf_control_security :: "bytes option"
  cf_duid :: "bytes option"
  cf_rules :: "raw_key option"
  cf_profiles :: "raw_key option"

definition config_default :: config where
  "config_default = \<lparr>cf_hostname = None, cf_control_security = None, cf_duid = None, cf_rules = None, cf_profiles = None\<rparr>"

definition load_control_security :: "('k, 'e) reader \<Rightarrow> 'k \<Rightarrow> 'e config_error + bytes option" where
  "load_control_security rd root =
     (case read_ok (rd_value rd root ''ControlSecurity'') of
        Inl e \<Rightarrow> Inl e
      | Inr None \<Rightarrow> Inr None
      | Inr (Some (ty, data)) \<Rightarrow>
          if ty \<noteq> REG_BINARY then Inl (InvalidData ''ControlSecurity must be binary'')
          else Inr (if data \<noteq> [] then Some data else None))"

definition load_duid :: "('k, 'e) reader \<Rightarrow> 'k \<Rightarrow> 'e config_error + bytes option" where
  "load_duid rd root =
     (case read_sz rd root ''Duid'' of
        Inl e \<Rightarrow> Inl e
      | Inr None \<Rightarrow> Inr None
      | Inr (Some s) \<Rightarrow>
          (case parse_hex s of Some d \<Rightarrow> Inr (Some d) | None \<Rightarrow> Inl (InvalidData ''Duid is not a hex identifier'')))"

definition load_tree :: "('k, 'e) reader \<Rightarrow> 'k \<Rightarrow> rstring \<Rightarrow> 'e config_error + raw_key option" where
  "load_tree rd key name =
     (case read_ok (rd_child rd key name) of
        Inl e \<Rightarrow> Inl e
      | Inr None \<Rightarrow> Inr None
      | Inr (Some k) \<Rightarrow> map_sum (\<lambda>e. e) Some (read_tree rd k name 0))"

definition load_rules :: "('k, 'e) reader \<Rightarrow> 'k \<Rightarrow> 'e config_error + raw_key option" where
  "load_rules rd root =
     (case read_ok (rd_child rd root ''Rules'') of
        Inl e \<Rightarrow> Inl e
      | Inr None \<Rightarrow> Inr None
      | Inr (Some rules) \<Rightarrow> load_tree rd rules ''Interface'')"

definition load_root :: "('k, 'e) reader \<Rightarrow> 'k option \<Rightarrow> 'e config_error + config" where
  "load_root rd root =
     (case root of
        None \<Rightarrow> Inr config_default
      | Some root \<Rightarrow>
          (case read_sz rd root ''Hostname'' of
             Inl e \<Rightarrow> Inl e
           | Inr hostname \<Rightarrow>
          (case load_control_security rd root of
             Inl e \<Rightarrow> Inl e
           | Inr control_security \<Rightarrow>
          (case load_duid rd root of
             Inl e \<Rightarrow> Inl e
           | Inr d \<Rightarrow>
          (case load_rules rd root of
             Inl e \<Rightarrow> Inl e
           | Inr rules \<Rightarrow>
          (case load_tree rd root ''Profiles'' of
             Inl e \<Rightarrow> Inl e
           | Inr profiles \<Rightarrow>
               Inr \<lparr>cf_hostname = hostname, cf_control_security = control_security, cf_duid = d,
                    cf_rules = rules, cf_profiles = profiles\<rparr>))))))"

section \<open>Complete or not at all\<close>

lemma collect_result_Inr:
  "collect_result f xs = Inr ys \<longleftrightarrow> list_all2 (\<lambda>x y. f x = Inr y) xs ys"
proof (induction xs arbitrary: ys)
  case (Cons x xs)
  show ?case by (cases ys; cases "f x"; cases "collect_result f xs") (auto simp: Cons.IH [symmetric])
qed auto

text \<open>The values of a key that is read are all of its named values, lowered, in the order of their names.\<close>

lemma read_values_exact:
  assumes "read_values (rd :: ('k, 'e) reader) key = Inr vs"
  obtains records where "rd_values rd key = Inr records" "sorted (map fst vs)"
    and "\<And>n v. (n, v) \<in> set vs \<longleftrightarrow>
           (\<exists>r\<in>set records. from_utf8 (rv_name r) = Some n \<and> n \<noteq> []
              \<and> (cfg_lower_value (rv_ty r) (rv_data r) :: 'e config_error + raw_value) = Inr v)"
proof -
  obtain records vss where r: "rd_values rd key = Inr records"
    and c: "list_all2 (\<lambda>x y. read_entry x = (Inr y :: 'e config_error + _)) records vss"
    and vs: "vs = sort_key fst (concat vss)"
    using assms by (auto simp: read_values_def collect_result_Inr split: sum.splits)
  have "(n, v) \<in> set (concat vss) \<longleftrightarrow>
      (\<exists>r\<in>set records. from_utf8 (rv_name r) = Some n \<and> n \<noteq> []
         \<and> (cfg_lower_value (rv_ty r) (rv_data r) :: 'e config_error + raw_value) = Inr v)" for n v
    using c
  proof (induction rule: list_all2_induct)
    case (Cons x xs y ys)
    have "(n, v) \<in> set y \<longleftrightarrow> from_utf8 (rv_name x) = Some n \<and> n \<noteq> []
        \<and> (cfg_lower_value (rv_ty x) (rv_data x) :: 'e config_error + raw_value) = Inr v"
      using Cons(1) by (auto simp: read_entry_def cfg_text_def split: option.splits sum.splits if_splits)
    with Cons show ?case by auto
  qed simp
  with r vs that show thesis by auto
qed

text \<open>
  The reference: a key is read when its values and the names of its children are, and
  every child it names is there and is read in turn, without a limit.
\<close>

inductive whole_tree :: "('k, 'e) reader \<Rightarrow> 'k \<Rightarrow> rstring \<Rightarrow> raw_key \<Rightarrow> bool" for rd where
  whole: "read_values rd key = Inr vs \<Longrightarrow> read_names rd key = Inr names \<Longrightarrow>
    list_all2 (\<lambda>n t. \<exists>child. rd_child rd key n = Inr (Some child) \<and> whole_tree rd child n t) names children \<Longrightarrow>
    whole_tree rd key name (RawKey name vs children)"
monos list.rel_mono

inductive_cases whole_treeE: "whole_tree rd key name t"

fun tree_height :: "raw_key \<Rightarrow> nat" where
  "tree_height (RawKey name vs children) = foldr (\<lambda>t h. max (Suc (tree_height t)) h) children 0"

lemma foldr_height: "foldr (\<lambda>t h. max (Suc (tree_height t)) h) ts 0 \<le> k \<longleftrightarrow> (\<forall>t\<in>set ts. tree_height t < k)"
  by (induction ts) auto

lemma open_child_Inr: "open_child rd key n = Inr c \<longleftrightarrow> rd_child rd key n = Inr (Some c)"
  by (cases "rd_child rd key n") (auto simp: open_child_def read_ok_def split: option.splits)

lemma read_tree_Inr:
  "read_tree rd key name depth = Inr t \<longleftrightarrow>
     (\<exists>vs names children. t = RawKey name vs children \<and> read_values rd key = Inr vs \<and> read_names rd key = Inr names
        \<and> (names \<noteq> [] \<longrightarrow> depth < MAX_DEPTH)
        \<and> list_all2 (\<lambda>n t. \<exists>child. rd_child rd key n = Inr (Some child) \<and> read_tree rd child n (depth + 1) = Inr t)
            names children)"
proof -
  have one: "(case open_child rd key n of Inl e \<Rightarrow> Inl e | Inr child \<Rightarrow> read_tree rd child n (depth + 1)) = Inr t
      \<longleftrightarrow> (\<exists>child. rd_child rd key n = Inr (Some child) \<and> read_tree rd child n (depth + 1) = Inr t)" for n t
    by (auto simp: open_child_Inr [symmetric] split: sum.splits)
  have col: "collect_result
        (\<lambda>n. case open_child rd key n of Inl e \<Rightarrow> Inl e | Inr child \<Rightarrow> read_tree rd child n (depth + 1)) names = Inr children
      \<longleftrightarrow> list_all2 (\<lambda>n t. \<exists>child. rd_child rd key n = Inr (Some child) \<and> read_tree rd child n (depth + 1) = Inr t)
            names children" for names children
    by (simp only: collect_result_Inr one)
  show ?thesis
    unfolding col [symmetric] by (subst read_tree.simps) (auto simp: not_le split: sum.splits if_splits)
qed

lemma whole_tree_iff:
  "whole_tree rd key name t \<longleftrightarrow>
     (\<exists>vs names children. t = RawKey name vs children \<and> read_values rd key = Inr vs \<and> read_names rd key = Inr names
        \<and> list_all2 (\<lambda>n t. \<exists>child. rd_child rd key n = Inr (Some child) \<and> whole_tree rd child n t) names children)"
  by (subst whole_tree.simps) blast

lemma list_all2_both:
  "list_all2 (\<lambda>x y. P x y \<and> Q y) xs ys \<longleftrightarrow> list_all2 P xs ys \<and> (\<forall>y\<in>set ys. Q y)"
  by (induction xs arbitrary: ys) (auto simp: list_all2_Cons1)

lemma list_all2_eqv:
  assumes "\<And>x y. x \<in> set xs \<Longrightarrow> P x y \<longleftrightarrow> Q x y"
  shows "list_all2 P xs ys \<longleftrightarrow> list_all2 Q xs ys"
  using assms by (metis (no_types, lifting) list.rel_cong)

lemma read_tree_whole:
  "depth \<le> MAX_DEPTH \<Longrightarrow>
    read_tree rd key name depth = Inr t \<longleftrightarrow> whole_tree rd key name t \<and> tree_height t \<le> MAX_DEPTH - depth"
proof (induction rd key name depth arbitrary: t rule: read_tree.induct)
  case (1 rd key name depth)
  have sub: "(names \<noteq> [] \<longrightarrow> depth < MAX_DEPTH)
      \<and> list_all2 (\<lambda>n t. \<exists>child. rd_child rd key n = Inr (Some child) \<and> read_tree rd child n (depth + 1) = Inr t)
          names children
    \<longleftrightarrow> list_all2 (\<lambda>n t. \<exists>child. rd_child rd key n = Inr (Some child) \<and> whole_tree rd child n t) names children
      \<and> tree_height (RawKey name vs children) \<le> MAX_DEPTH - depth"
    if vs: "read_values rd key = Inr vs" and names: "read_names rd key = Inr names" for vs names children
  proof (cases "names = [] \<or> depth < MAX_DEPTH")
    case True
    have "read_tree rd child n (depth + 1) = Inr t
        \<longleftrightarrow> whole_tree rd child n t \<and> tree_height t < MAX_DEPTH - depth"
      if "n \<in> set names" "rd_child rd key n = Inr (Some child)" for n child t
    proof -
      have "depth < MAX_DEPTH" using True that(1) by auto
      then have "read_tree rd child n (depth + 1) = Inr t
          \<longleftrightarrow> whole_tree rd child n t \<and> tree_height t \<le> MAX_DEPTH - (depth + 1)"
        using "1.IH" [OF vs names _ that(1)] that(2) by (simp add: open_child_Inr)
      then show ?thesis using \<open>depth < MAX_DEPTH\<close> by (auto simp: Suc_le_eq)
    qed
    then have "list_all2 (\<lambda>n t. \<exists>child. rd_child rd key n = Inr (Some child) \<and> read_tree rd child n (depth + 1) = Inr t)
          names children
      \<longleftrightarrow> list_all2 (\<lambda>n t. (\<exists>child. rd_child rd key n = Inr (Some child) \<and> whole_tree rd child n t)
             \<and> tree_height t < MAX_DEPTH - depth) names children"
      by (intro list_all2_eqv) blast
    then show ?thesis using True by (auto simp: list_all2_both foldr_height)
  next
    case False
    then show ?thesis by (auto simp: list_all2_Cons1 neq_Nil_conv)
  qed
  show ?case
    unfolding read_tree_Inr [of rd key] whole_tree_iff [of rd key] using sub by blast
qed


section \<open>Hexadecimal identifiers\<close>

lemma hex_digit_value:
  assumes "n < 16"
  shows "is_ascii_hexdigit (hex_digit n)" "to_digit 16 (hex_digit n) = Some n"
proof -
  have "ascii_code (hex_digit n) = (if n < 10 then 48 + n else 87 + n)"
    using assms by (simp add: hex_digit_def ascii_code_def)
  then show "is_ascii_hexdigit (hex_digit n)" "to_digit 16 (hex_digit n) = Some n"
    using assms by (auto simp: is_ascii_hexdigit_def to_digit_def is_ascii_digit_def is_ascii_lowercase_def
        is_ascii_uppercase_def Let_def)
qed

lemma nibbles: "unat (b :: u8) div 16 < 16" "unat b mod 16 < 16"
  by (rule less_mult_imp_div_less) simp_all

lemma hex_pairs_hex2: "hex_pairs (concat (map hex2 bs)) = bs"
proof (induction bs)
  case (Cons b bs)
  have "word_of_nat (the (to_digit 16 (hex_digit (unat b div 16))) * 16
      + the (to_digit 16 (hex_digit (unat b mod 16)))) = b"
    by (simp add: hex_digit_value nibbles)
  with Cons show ?case by (simp add: hex2_def)
qed simp

text \<open>What is written back for \<^verbatim>\<open>Duid\<close> and \<^verbatim>\<open>ClientId\<close> is what is read at the next start.\<close>

lemma hex_roundtrip:
  assumes "bs \<noteq> []"
  shows "parse_hex (format_hex bs) = Some bs"
proof -
  have hex: "list_all is_ascii_hexdigit (hex2 b)" "filter is_ascii_hexdigit (hex2 b) = hex2 b" "length (hex2 b) = 2" for b
    by (simp_all add: hex2_def hex_digit_value nibbles)
  have colon: "\<not> is_ascii_hexdigit CHR '':''" by (simp add: is_ascii_hexdigit_def ascii_code_def
        is_ascii_digit_def is_ascii_lowercase_def is_ascii_uppercase_def)
  have digits: "filter is_ascii_hexdigit (join_with '':'' (map hex2 bs)) = concat (map hex2 bs)" for bs
    by (induction bs rule: induct_list012) (simp_all add: hex colon)
  have chars: "list_all (\<lambda>c. is_ascii_hexdigit c \<or> c = CHR '':'') (join_with '':'' (map hex2 bs))" for bs
    using hex(1) by (induction bs rule: induct_list012) (auto simp: list_all_iff)
  have "length (concat (map hex2 bs)) = 2 * length bs" for bs by (induction bs) (simp_all add: hex)
  moreover have "concat (map hex2 bs) \<noteq> []" using assms by (cases bs) (simp_all add: hex2_def)
  ultimately show ?thesis
    using chars [of bs] by (auto simp: parse_hex_def format_hex_def digits hex_pairs_hex2 list_ex_iff list_all_iff)
qed

end
