(* ===== verification/Netd_State.thy ===== *)
theory Netd_State
  imports Daemon Control_Socket Registry_Config
begin

text \<open>
  The daemon as a whole (\<^verbatim>\<open>Netd\<close> in \<^verbatim>\<open>src/netd/src/main.rs\<close>, and the end of a turn of
  \<^verbatim>\<open>src/netd/src/event_loop.rs\<close>): generations of the interface layer, the converge
  loop, what it reports (status, snapshots for subscribers, the machine's level), the
  requests of the control socket, and reloading the configuration.

  What lies outside is the argument \<open>w\<close>: the rule engine, the registry's answers, the
  sockets, the kernel's routing interface over a state of its own, whether a name or a
  frame is taken, and the clock.  The journal and the records netd writes back to the
  registry are left out.  A result of none is a panic (a reply that does not encode)
  or a call that does not return (the search for a temporary interface identifier).
\<close>

section \<open>The world\<close>

record ('f, 'e, 'k, 'sid) world =
  w_sha1 :: "bytes \<Rightarrow> bytes"
  w_read_identity :: "rstring \<Rightarrow> identity"
  w_network_sync :: "rstring \<Rightarrow> signals \<Rightarrow> network"
  w_build :: "raw_key option \<Rightarrow> raw_key option \<Rightarrow> 'e + 'f policy"
  w_show :: "'e \<Rightarrow> rstring"
  w_judge :: "'f policy \<Rightarrow> facts \<Rightarrow> judged"
  w_dhcp_env :: "rstring option \<Rightarrow> iface \<Rightarrow> dhcp_env"
  w_ipv6_env :: "iface \<Rightarrow> ipv6_env"
  w_rtnl :: "'k \<Rightarrow> op \<Rightarrow> 'k \<times> int option option"
  w_dump :: "'k \<Rightarrow> observed option"
  w_sethostname :: "rstring \<Rightarrow> bool"
  w_control :: control_env
  w_send :: "fd \<Rightarrow> bytes \<Rightarrow> bool"
  w_nonblocking :: "fd \<Rightarrow> bool"
  w_sd_valid :: "bytes \<Rightarrow> bool"
  w_permits :: "bytes option \<Rightarrow> fd \<Rightarrow> u32 \<Rightarrow> 'sid option"
  w_clock :: "nat \<Rightarrow> instant"

record 'f netd =
  nd_config :: config
  nd_policy :: "'f policy"
  nd_refusal :: "rstring option"
  nd_control :: "bytes option"
  nd_observed :: observed
  nd_interfaces :: "(u32, iface) btree"
  nd_naming :: naming
  nd_subscribers :: "fd list"
  nd_last_snapshot :: "snapshot option"
  nd_last_level :: "level option"

text \<open>What leaves the daemon: packets, the name it sets, the notification of a level, frames to subscribers.\<close>

datatype effect = Packet outgoing | SetHostname rstring | Notify rstring | Frame fd bytes

text \<open>\<^verbatim>\<open>ControlObject::new\<close>: the descriptor that is used, none for the compiled default.\<close>

definition control_object :: "(bytes \<Rightarrow> bool) \<Rightarrow> bytes option \<Rightarrow> bytes option" where
  "control_object valid configured =
     (case configured of Some bs \<Rightarrow> if valid bs then Some bs else None | None \<Rightarrow> None)"

section \<open>Reports\<close>

definition address_text :: "address \<Rightarrow> rstring" where
  "address_text a = ip_text (a_address a) @ ''/'' @ nat_text (unat (a_prefix a))"

definition lease_report :: "dhcp4 \<Rightarrow> instant \<Rightarrow> lease_status option" where
  "lease_report c now =
     map_option (\<lambda>l.
       \<lparr>ls_server = ipv4_text (l_server l),
        ls_expires_in = word_of_nat (case dhcp4_expires_in c now of Some s \<Rightarrow> s | None \<Rightarrow> 0),
        ls_state = dhcp4_state_as_str (c_state c), ls_duration = ucast (l_lease_time l),
        ls_renew_at = ucast (l_t1 l), ls_rebind_at = ucast (l_t2 l)\<rparr>) (c_lease c)"

definition gateway_text :: "observed \<Rightarrow> u32 \<Rightarrow> bool \<Rightarrow> rstring option" where
  "gateway_text ob index v4 =
     map_option ip_text
       (Option.bind (List.find (\<lambda>r. route_is_default r \<and> route_is_v4 r = v4) (routes_of ob index)) r_gateway)"

definition interface_report :: "iface \<Rightarrow> observed \<Rightarrow> instant \<Rightarrow> interface_status" where
  "interface_report i ob now =
     (let j = if_judged i; ln = if_link i; dns = if_dns i now
      in \<lparr>is_ifid = if_ifid i, is_name = ln_name ln, is_index = ln_index ln,
          is_mac = (case ln_mac ln of Some m \<Rightarrow> format_mac m | None \<Rightarrow> []),
          is_path = id_path (if_identity i), is_driver = id_driver (if_identity i),
          is_verdict = (if \<not> jd_backstop j \<and> \<not> jd_conflict j then Some (outcome_as_str (jd_outcome j)) else None),
          is_rule = Some (jd_rule j), is_profile = map_option pf_path (if_profile i),
          is_network = map_option nw_id (if_network i),
          is_network_name = Option.bind (if_network i) nw_name,
          is_network_trust = Option.bind (if_network i) nw_trust,
          is_warning = if_warning i, is_up = ln_up ln, is_carrier = ln_carrier ln, is_level = if_level i ob,
          is_addresses = map address_text (addresses_of ob (ln_index ln)),
          is_gateway = gateway_text ob (ln_index ln) True, is_gateway6 = gateway_text ob (ln_index ln) False,
          is_dns = map ip_text (df_servers dns), is_search = df_search dns,
          is_lease = Option.bind (if_dhcp i) (\<lambda>c. lease_report c now)\<rparr>)"

definition netd_status :: "'f netd \<Rightarrow> instant \<Rightarrow> status" where
  "netd_status nd now =
     \<lparr>st_hostname = (case nm_set (nd_naming nd) of Some h \<Rightarrow> h | None \<Rightarrow> []),
      st_level = machine_level (nd_interfaces nd) (nd_observed nd),
      st_refusal = nd_refusal nd,
      st_interfaces = map (\<lambda>i. interface_report i (nd_observed nd) now)
        (filter (\<lambda>i. \<not> ln_loopback (if_link i)) (map snd (nd_interfaces nd)))\<rparr>"

definition scope_of :: "iface \<Rightarrow> observed \<Rightarrow> instant \<Rightarrow> dns_scope" where
  "scope_of i ob now =
     (let facts = if_dns i now; dns = map_option pf_dns (if_profile i); level = if_level i ob
      in \<lparr>ds_ifid = if_ifid i, ds_name = ln_name (if_link i), ds_servers = map ip_text (df_servers facts),
          ds_domains = df_search facts, ds_ntp = map ipv4_text (df_ntp facts),
          ds_addresses = map address_text (addresses_of ob (ln_index (if_link i))),
          ds_default_route = (case Option.bind dns dc_default_route of Some b \<Rightarrow> b | None \<Rightarrow> level = Routed),
          ds_exclusive = (case dns of Some d \<Rightarrow> dc_exclusive d | None \<Rightarrow> False),
          ds_metric = if_metric i, ds_level = level\<rparr>)"

definition netd_snapshot :: "'f netd \<Rightarrow> instant \<Rightarrow> snapshot" where
  "netd_snapshot nd now =
     (let ordered = sort_key (\<lambda>i. (if_metric i, ln_index (if_link i))) (filter managed (map snd (nd_interfaces nd)))
      in \<lparr>sn_hostname = (case nm_set (nd_naming nd) of Some h \<Rightarrow> h | None \<Rightarrow> []),
          sn_scopes = map (\<lambda>i. scope_of i (nd_observed nd) now)
            (filter (\<lambda>i. if_level i (nd_observed nd) \<noteq> Absent) ordered)\<rparr>)"

text \<open>The frame of \<^verbatim>\<open>send_nonblocking\<close>.\<close>

definition push_frame :: "bytes \<Rightarrow> bytes" where
  "push_frame payload = le32 (word_of_nat (length payload)) @ payload"

definition snapshot_bytes :: "('f, 'e, 'k, 'sid) world \<Rightarrow> snapshot \<Rightarrow> bytes option" where
  "snapshot_bytes w sn = reply_encode (ce_mp (w_control w)) (ReplySnapshot sn)"

section \<open>Publishing\<close>

definition publish_level :: "('f, 'e, 'k, 'sid) world \<Rightarrow> 'f netd \<Rightarrow> 'f netd \<times> effect list" where
  "publish_level w nd =
     (let level = st_level (netd_status nd (w_clock w 0))
      in if nd_last_level nd \<noteq> Some level
         then (nd\<lparr>nd_last_level := Some level\<rparr>, [Notify (readiness_notification level)]) else (nd, []))"

definition publish :: "('f, 'e, 'k, 'sid) world \<Rightarrow> 'f netd \<Rightarrow> ('f netd \<times> effect list) option" where
  "publish w nd =
     (let (nd, outs) = publish_level w nd;
          sn = netd_snapshot nd (w_clock w 0)
      in if nd_last_snapshot nd = Some sn then Some (nd, outs)
         else map_option (\<lambda>bs.
           (nd\<lparr>nd_last_snapshot := Some sn,
               nd_subscribers := filter (\<lambda>s. w_send w s (push_frame bs)) (nd_subscribers nd)\<rparr>,
            outs @ map (\<lambda>s. Frame s (push_frame bs)) (nd_subscribers nd))) (snapshot_bytes w sn))"

section \<open>Converging\<close>

definition identify_networks :: "('f, 'e, 'k, 'sid) world \<Rightarrow> instant \<Rightarrow> 'f netd \<Rightarrow> 'f netd" where
  "identify_networks w now nd =
     nd\<lparr>nd_interfaces := bt_map (\<lambda>_ i. identify_network (w_sha1 w) (w_network_sync w) now i) (nd_interfaces nd)\<rparr>"

definition netd_sync_links :: "('f, 'e, 'k, 'sid) world \<Rightarrow> instant \<Rightarrow> 'f netd \<Rightarrow> 'f netd \<times> effect list" where
  "netd_sync_links w now nd =
     (let (is, outs) = sync_links (w_sha1 w) (w_read_identity w) (w_judge w (nd_policy nd)) (nd_interfaces nd)
                         (nd_observed nd) now
      in (nd\<lparr>nd_interfaces := is\<rparr>, map Packet outs))"

definition announced_hostname :: "'f netd \<Rightarrow> rstring option" where
  "announced_hostname nd =
     Option.bind (cf_hostname (nd_config nd)) (\<lambda>name. case hostname_check name of Inr h \<Rightarrow> Some h | Inl _ \<Rightarrow> None)"

definition start_dhcp_where_due :: "('f, 'e, 'k, 'sid) world \<Rightarrow> instant \<Rightarrow> 'f netd \<Rightarrow> 'f netd \<times> effect list" where
  "start_dhcp_where_due w now nd =
     (let started = map (\<lambda>(index, i).
            (index, start_dhcp i (nd_observed nd) now (w_dhcp_env w (announced_hostname nd) i))) (nd_interfaces nd)
      in (nd\<lparr>nd_interfaces := map (\<lambda>(index, s). (index, fst s)) started\<rparr>,
          map Packet (concat (map (\<lambda>(index, s). snd s) started))))"

text \<open>The interfaces in turn; none when a start does not return.\<close>

fun start_ipv6_loop ::
    "('f, 'e, 'k, 'sid) world \<Rightarrow> observed \<Rightarrow> instant \<Rightarrow> (u32, iface) btree \<Rightarrow> ((u32, iface) btree \<times> outgoing list) option" where
  "start_ipv6_loop w ob now [] = Some ([], [])"
| "start_ipv6_loop w ob now ((index, i) # is) =
     Option.bind (start_ipv6 i ob now (w_ipv6_env w i)) (\<lambda>(i, outs).
     Option.bind (start_ipv6_loop w ob now is) (\<lambda>(is, outs').
     Some ((index, i) # is, outs @ outs')))"

definition start_ipv6_where_due ::
    "('f, 'e, 'k, 'sid) world \<Rightarrow> instant \<Rightarrow> 'f netd \<Rightarrow> ('f netd \<times> effect list) option" where
  "start_ipv6_where_due w now nd =
     map_option (\<lambda>(is, outs). (nd\<lparr>nd_interfaces := is\<rparr>, map Packet outs))
       (start_ipv6_loop w (nd_observed nd) now (nd_interfaces nd))"

definition netd_reconcile_all :: "('f, 'e, 'k, 'sid) world \<Rightarrow> instant \<Rightarrow> 'f netd \<Rightarrow> 'k \<Rightarrow> 'f netd \<times> 'k" where
  "netd_reconcile_all w now nd k =
     (let (k, ob) = reconcile_all (w_rtnl w) (w_dump w) (nd_interfaces nd) (nd_observed nd) now k
      in (nd\<lparr>nd_observed := ob\<rparr>, k))"

definition netd_apply_hostname :: "('f, 'e, 'k, 'sid) world \<Rightarrow> 'f netd \<Rightarrow> 'f netd \<times> effect list" where
  "netd_apply_hostname w nd =
     (let (nm, called) = apply_hostname (cf_hostname (nd_config nd)) (nd_interfaces nd) (w_sethostname w) (nd_naming nd)
      in (nd\<lparr>nd_naming := nm\<rparr>, case called of Some name \<Rightarrow> [SetHostname name] | None \<Rightarrow> []))"

text \<open>One round of the loop of \<^verbatim>\<open>converge\<close>: the state, what leaves, and whether the kernel's state changed.\<close>

definition converge_pass ::
    "('f, 'e, 'k, 'sid) world \<Rightarrow> instant \<Rightarrow> instant \<Rightarrow> 'f netd \<Rightarrow> 'k \<Rightarrow> ('f netd \<times> 'k \<times> effect list \<times> bool) option" where
  "converge_pass w now now' nd k =
     (let nd = identify_networks w now nd;
          (nd, o1) = netd_sync_links w now nd;
          (nd, o2) = start_dhcp_where_due w now nd
      in Option.bind (start_ipv6_where_due w now nd) (\<lambda>(nd, o3).
         let before = nd_observed nd;
             (nd, k) = netd_reconcile_all w now' nd k
         in Some (nd, k, o1 @ o2 @ o3, nd_observed nd \<noteq> before)))"

fun converge_loop ::
    "nat \<Rightarrow> ('f, 'e, 'k, 'sid) world \<Rightarrow> instant \<Rightarrow> 'f netd \<Rightarrow> 'k \<Rightarrow> ('f netd \<times> 'k \<times> effect list) option" where
  "converge_loop 0 w now nd k = Some (nd, k, [])"
| "converge_loop (Suc n) w now nd k =
     Option.bind (converge_pass w now (w_clock w (Suc n)) nd k) (\<lambda>(nd, k, outs, changed).
       if \<not> changed then Some (nd, k, outs)
       else Option.bind (converge_loop n w now nd k) (\<lambda>(nd, k, outs'). Some (nd, k, outs @ outs')))"

definition announce :: "('f, 'e, 'k, 'sid) world \<Rightarrow> 'f netd \<Rightarrow> ('f netd \<times> effect list) option" where
  "announce w nd =
     (let (nd, o1) = netd_apply_hostname w nd
      in Option.bind (publish w nd) (\<lambda>(nd, o2). Some (nd, o1 @ o2)))"

definition converge ::
    "('f, 'e, 'k, 'sid) world \<Rightarrow> instant \<Rightarrow> 'f netd \<Rightarrow> 'k \<Rightarrow> ('f netd \<times> 'k \<times> effect list) option" where
  "converge w now nd k =
     Option.bind (converge_loop 4 w now nd k) (\<lambda>(nd, k, o1).
     Option.bind (announce w nd) (\<lambda>(nd, o2). Some (nd, k, o1 @ o2)))"

section \<open>Generations and reloading\<close>

definition tie_text :: "judged \<Rightarrow> rstring \<Rightarrow> rstring" where
  "tie_text j name = ''rules '' @ jd_rule j @ '' tie on interface '' @ name"

definition take_generation :: "('f, 'e, 'k, 'sid) world \<Rightarrow> config \<Rightarrow> 'f netd \<Rightarrow> 'f netd" where
  "take_generation w fresh nd =
     (case w_build w (cf_rules fresh) (cf_profiles fresh) of
        Inr policy \<Rightarrow>
          (case List.find (\<lambda>nj. jd_conflict (snd nj))
              (map (\<lambda>i. (ln_name (if_link i), w_judge w policy (if_facts i)))
                (filter (\<lambda>i. \<not> ln_loopback (if_link i)) (map snd (nd_interfaces nd)))) of
             Some (name, j) \<Rightarrow> nd\<lparr>nd_refusal := Some (tie_text j name)\<rparr>
           | None \<Rightarrow> nd\<lparr>nd_policy := policy, nd_refusal := None\<rparr>)
      | Inl e \<Rightarrow> nd\<lparr>nd_refusal := Some (w_show w e)\<rparr>)"

text \<open>What a change notification of the registry does, given what reading the configuration returns.\<close>

definition reload :: "('f, 'e, 'k, 'sid) world \<Rightarrow> config option \<Rightarrow> 'f netd \<Rightarrow> 'f netd \<times> bool" where
  "reload w fresh nd =
     (case fresh of
        None \<Rightarrow> (nd, False)
      | Some fresh \<Rightarrow>
          (if fresh \<noteq> nd_config nd
           then (let nd = nd\<lparr>nd_control := control_object (w_sd_valid w) (cf_control_security fresh)\<rparr>;
                     nd = (if cf_rules fresh \<noteq> cf_rules (nd_config nd) \<or> cf_profiles fresh \<noteq> cf_profiles (nd_config nd)
                           then take_generation w fresh nd else nd)
                 in nd\<lparr>nd_config := fresh\<rparr>)
           else nd, True))"

section \<open>Requests\<close>

definition renew_request ::
    "instant \<Rightarrow> 'f netd \<Rightarrow> rstring \<Rightarrow> 'f netd \<times> effect list \<times> reply" where
  "renew_request now nd interface =
     (case List.find (\<lambda>e. ln_name (if_link (snd e)) = interface \<or> if_ifid (snd e) = interface) (nd_interfaces nd) of
        None \<Rightarrow> (nd, [], ReplyError (''no interface '' @ interface))
      | Some (index, i) \<Rightarrow>
          (case renew_iface now i of
             None \<Rightarrow> (nd, [], ReplyError (interface @ '' is not using DHCP''))
           | Some (i, changed, outs) \<Rightarrow>
               (nd\<lparr>nd_interfaces := bt_insert index i (nd_interfaces nd)\<rparr>, map Packet outs, ReplyOk)))"

definition subscribe_request ::
    "('f, 'e, 'k, 'sid) world \<Rightarrow> 'f netd \<Rightarrow> fd \<Rightarrow> ('f netd \<times> effect list) option" where
  "subscribe_request w nd stream =
     (let sn = (case nd_last_snapshot nd of Some sn \<Rightarrow> sn | None \<Rightarrow> netd_snapshot nd (w_clock w 0))
      in map_option (\<lambda>bs.
           if w_nonblocking w stream \<and> w_send w stream (push_frame bs)
           then (nd\<lparr>nd_subscribers := nd_subscribers nd @ [stream]\<rparr>, [Frame stream (push_frame bs)])
           else (nd, if w_nonblocking w stream then [Frame stream (push_frame bs)] else [])) (snapshot_bytes w sn))"

text \<open>\<^verbatim>\<open>handle_control\<close>: the state, the kernel's, what leaves, and the reply owed on the stream, if any.\<close>

definition handle_control ::
    "('f, 'e, 'k, 'sid) world \<Rightarrow> instant \<Rightarrow> 'f netd \<Rightarrow> 'k \<Rightarrow> fd \<Rightarrow> request
      \<Rightarrow> ('f netd \<times> 'k \<times> effect list \<times> reply option) option" where
  "handle_control w now nd k stream request =
     (case w_permits w (nd_control nd) stream (required_right request) of
        None \<Rightarrow> Some (nd, k, [], Some (ReplyError ''access denied''))
      | Some caller \<Rightarrow>
          (case request of
             ReqStatus \<Rightarrow> Some (nd, k, [], Some (ReplyStatus (netd_status nd (w_clock w 0))))
           | ReqSubscribe \<Rightarrow> map_option (\<lambda>(nd, outs). (nd, k, outs, None)) (subscribe_request w nd stream)
           | ReqReconcile \<Rightarrow> map_option (\<lambda>(nd, k, outs). (nd, k, outs, Some ReplyOk)) (converge w now nd k)
           | ReqRenew interface \<Rightarrow>
               (let (nd, outs, reply) = renew_request now nd interface in Some (nd, k, outs, Some reply))))"

section \<open>The end of a turn\<close>

definition settle ::
    "('f, 'e, 'k, 'sid) world \<Rightarrow> instant \<Rightarrow> bool \<Rightarrow> bool \<Rightarrow> 'f netd \<Rightarrow> 'k \<Rightarrow> ('f netd \<times> 'k \<times> effect list) option" where
  "settle w now wants_converge wants_reconcile nd k =
     (let wants_converge = (wants_converge \<or> list_ex (\<lambda>e. if_rejudge (snd e)) (nd_interfaces nd))
      in if wants_converge then converge w now nd k
         else if wants_reconcile then
           (let (nd, k) = netd_reconcile_all w (w_clock w 1) nd k
            in map_option (\<lambda>(nd, outs). (nd, k, outs)) (announce w nd))
         else Some (nd, k, []))"

text \<open>A snapshot of what \<^verbatim>\<open>main\<close> starts with, before the first pass.\<close>

definition netd_start ::
    "('f, 'e, 'k, 'sid) world \<Rightarrow> config \<Rightarrow> observed \<Rightarrow> 'f netd" where
  "netd_start w config ob =
     (let (policy, refusal) = (case w_build w (cf_rules config) (cf_profiles config) of
                                 Inr p \<Rightarrow> (p, None)
                               | Inl e \<Rightarrow> (\<lparr>po_forest = None, po_profiles = [], po_lints = []\<rparr>, Some (w_show w e)))
      in \<lparr>nd_config = config, nd_policy = policy, nd_refusal = refusal,
          nd_control = control_object (w_sd_valid w) (cf_control_security config), nd_observed = ob,
          nd_interfaces = [], nd_naming = \<lparr>nm_set = None, nm_refused = None\<rparr>, nd_subscribers = [],
          nd_last_snapshot = None, nd_last_level = None\<rparr>)"

section \<open>A generation is taken or refused whole\<close>

lemma find_None_all: "List.find P xs = None \<longleftrightarrow> (\<forall>x\<in>set xs. \<not> P x)"
  by (auto simp: find_None_iff)

definition ties :: "('f, 'e, 'k, 'sid) world \<Rightarrow> 'f policy \<Rightarrow> 'f netd \<Rightarrow> bool" where
  "ties w p nd = (\<exists>e\<in>set (nd_interfaces nd). \<not> ln_loopback (if_link (snd e)) \<and> jd_conflict (w_judge w p (if_facts (snd e))))"

lemma take_generation_cases:
  obtains (taken) p where "w_build w (cf_rules fresh) (cf_profiles fresh) = Inr p" "\<not> ties w p nd"
      "take_generation w fresh nd = nd\<lparr>nd_policy := p, nd_refusal := None\<rparr>"
    | (tied) p r where "w_build w (cf_rules fresh) (cf_profiles fresh) = Inr p" "ties w p nd"
      "take_generation w fresh nd = nd\<lparr>nd_refusal := Some r\<rparr>"
    | (refused) e where "w_build w (cf_rules fresh) (cf_profiles fresh) = Inl e"
      "take_generation w fresh nd = nd\<lparr>nd_refusal := Some (w_show w e)\<rparr>"
proof (cases "w_build w (cf_rules fresh) (cf_profiles fresh)")
  case (Inl e)
  then show ?thesis by (intro refused) (simp_all add: take_generation_def)
next
  case (Inr p)
  let ?js = "map (\<lambda>i. (ln_name (if_link i), w_judge w p (if_facts i)))
      (filter (\<lambda>i. \<not> ln_loopback (if_link i)) (map snd (nd_interfaces nd)))"
  have t: "List.find (\<lambda>nj. jd_conflict (snd nj)) ?js = None \<longleftrightarrow> \<not> ties w p nd"
    by (force simp: find_None_all ties_def)
  show ?thesis
  proof (cases "List.find (\<lambda>nj. jd_conflict (snd nj)) ?js")
    case None
    with t Inr show ?thesis by (intro taken [of p]) (simp_all add: take_generation_def)
  next
    case (Some nj)
    with t Inr show ?thesis
      by (intro tied [of p "tie_text (snd nj) (fst nj)"]) (simp_all add: take_generation_def split_def)
  qed
qed

lemma take_generation_fields [simp]:
  "nd_config (take_generation w fresh nd) = nd_config nd" "nd_control (take_generation w fresh nd) = nd_control nd"
  "nd_observed (take_generation w fresh nd) = nd_observed nd"
  "nd_interfaces (take_generation w fresh nd) = nd_interfaces nd"
  "nd_naming (take_generation w fresh nd) = nd_naming nd"
  "nd_subscribers (take_generation w fresh nd) = nd_subscribers nd"
  "nd_last_snapshot (take_generation w fresh nd) = nd_last_snapshot nd"
  "nd_last_level (take_generation w fresh nd) = nd_last_level nd"
  by (rule take_generation_cases [of w fresh nd]; simp)+

lemma take_generation_policy:
  "nd_policy (take_generation w fresh nd) = nd_policy nd \<and> nd_refusal (take_generation w fresh nd) \<noteq> None
   \<or> w_build w (cf_rules fresh) (cf_profiles fresh) = Inr (nd_policy (take_generation w fresh nd))
     \<and> \<not> ties w (nd_policy (take_generation w fresh nd)) nd \<and> nd_refusal (take_generation w fresh nd) = None"
  by (rule take_generation_cases [of w fresh nd]) simp_all

text \<open>What a reload of a changed configuration makes of the state.\<close>

definition adopt :: "('f, 'e, 'k, 'sid) world \<Rightarrow> config \<Rightarrow> 'f netd \<Rightarrow> 'f netd" where
  "adopt w c nd =
     (if cf_rules c \<noteq> cf_rules (nd_config nd) \<or> cf_profiles c \<noteq> cf_profiles (nd_config nd)
      then take_generation w c nd else nd)"

lemma adopt_fields [simp]:
  "nd_interfaces (adopt w c nd) = nd_interfaces nd" "nd_last_snapshot (adopt w c nd) = nd_last_snapshot nd"
  "nd_subscribers (adopt w c nd) = nd_subscribers nd" "nd_observed (adopt w c nd) = nd_observed nd"
  "nd_last_level (adopt w c nd) = nd_last_level nd" "nd_naming (adopt w c nd) = nd_naming nd"
  by (simp_all add: adopt_def)

lemma reload_adopts:
  "reload w (Some c) nd =
     (if c \<noteq> nd_config nd
      then (adopt w c (nd\<lparr>nd_control := control_object (w_sd_valid w) (cf_control_security c)\<rparr>))\<lparr>nd_config := c\<rparr>
      else nd, True)"
  by (simp add: reload_def adopt_def Let_def)



section \<open>Requests need their right\<close>

text \<open>
  C26: Nothing is done for a peer without the right.  A request whose peer does not hold
  the right it needs changes nothing, sends nothing and is answered with a refusal;
  reading the status and subscribing change neither the interfaces nor the kernel, a
  subscription only adds the subscriber; and whenever a request changes an interface,
  the kernel or the machine's name, the peer holds the control right.
\<close>

theorem control_authorised:
  assumes "handle_control w now nd k stream request = Some (nd', k', outs, reply)"
  shows "(w_permits w (nd_control nd) stream (required_right request) = None \<longrightarrow>
            nd' = nd \<and> k' = k \<and> outs = [] \<and> reply = Some (ReplyError ''access denied''))
    \<and> (required_right request = NETWORK_QUERY \<longrightarrow>
         k' = k \<and> (\<exists>ss. nd' = nd\<lparr>nd_subscribers := nd_subscribers nd @ ss\<rparr> \<and> set ss \<subseteq> {stream}))
    \<and> (k' \<noteq> k \<or> nd_interfaces nd' \<noteq> nd_interfaces nd \<or> nd_naming nd' \<noteq> nd_naming nd \<longrightarrow>
         w_permits w (nd_control nd) stream NETWORK_CONTROL \<noteq> None)"
proof (cases "w_permits w (nd_control nd) stream (required_right request)")
  case None
  then have "nd' = nd" "k' = k" "outs = []" "reply = Some (ReplyError ''access denied'')"
    using assms by (simp_all add: handle_control_def)
  then show ?thesis by (auto intro!: exI [of _ "[]"])
next
  case (Some caller)
  show ?thesis
  proof (cases request)
    case ReqStatus
    then have "nd' = nd" "k' = k" using assms Some by (simp_all add: handle_control_def)
    with Some show ?thesis by (auto intro!: exI [of _ "[]"])
  next
    case ReqSubscribe
    then have "k' = k" "nd' = nd \<or> nd' = nd\<lparr>nd_subscribers := nd_subscribers nd @ [stream]\<rparr>"
      using assms Some by (auto simp: handle_control_def subscribe_request_def Let_def split: if_splits)
    then have "k' = k" "\<exists>ss. nd' = nd\<lparr>nd_subscribers := nd_subscribers nd @ ss\<rparr> \<and> set ss \<subseteq> {stream}"
      by (auto intro: exI [of _ "[]"])
    with Some show ?thesis by auto
  qed (use Some in \<open>auto simp: NETWORK_CONTROL_def NETWORK_QUERY_def\<close>)
qed

section \<open>What is published is current\<close>

lemma publish_level_fields [simp]:
  "nd_observed (fst (publish_level w nd)) = nd_observed nd" "nd_interfaces (fst (publish_level w nd)) = nd_interfaces nd"
  "nd_naming (fst (publish_level w nd)) = nd_naming nd" "nd_subscribers (fst (publish_level w nd)) = nd_subscribers nd"
  "nd_last_snapshot (fst (publish_level w nd)) = nd_last_snapshot nd"
  by (simp_all add: publish_level_def Let_def)

lemma snapshot_cong:
  "nd_interfaces nd' = nd_interfaces nd \<Longrightarrow> nd_observed nd' = nd_observed nd \<Longrightarrow> nd_naming nd' = nd_naming nd \<Longrightarrow>
    netd_snapshot nd' now = netd_snapshot nd now"
  by (simp add: netd_snapshot_def)

text \<open>The last frame a subscriber was sent, and the last level that was announced.\<close>

fun last_frame :: "effect list \<Rightarrow> fd \<Rightarrow> bytes option" where
  "last_frame [] s = None"
| "last_frame (e # es) s =
     (case last_frame es s of
        Some bs \<Rightarrow> Some bs
      | None \<Rightarrow> (case e of Frame s' bs \<Rightarrow> if s' = s then Some bs else None | _ \<Rightarrow> None))"

lemma last_frame_append [simp]:
  "last_frame (xs @ ys) s = (case last_frame ys s of Some bs \<Rightarrow> Some bs | None \<Rightarrow> last_frame xs s)"
  by (induction xs) (auto split: option.splits)

lemma last_frame_packets [simp]: "last_frame (map Packet ps) s = None"
  by (induction ps) simp_all

lemma last_frame_frames:
  "last_frame (map (\<lambda>s. Frame s bs) ss) s = (if s \<in> set ss then Some bs else None)"
  by (induction ss) auto

lemma last_frame_level [simp]: "last_frame (snd (publish_level w nd)) s = None"
  by (simp add: publish_level_def Let_def)

text \<open>Publishing leaves the picture of the moment as the last one, and every subscriber that is kept has it.\<close>

lemma publish_cases:
  assumes "publish w nd = Some (nd', outs)"
  obtains (same) "nd' = fst (publish_level w nd)" "outs = snd (publish_level w nd)"
      "nd_last_snapshot nd = Some (netd_snapshot nd (w_clock w 0))"
    | (sent) bs where "snapshot_bytes w (netd_snapshot nd (w_clock w 0)) = Some bs"
      "nd' = (fst (publish_level w nd))\<lparr>nd_last_snapshot := Some (netd_snapshot nd (w_clock w 0)),
          nd_subscribers := filter (\<lambda>s. w_send w s (push_frame bs)) (nd_subscribers nd)\<rparr>"
      "outs = snd (publish_level w nd) @ map (\<lambda>s. Frame s (push_frame bs)) (nd_subscribers nd)"
proof -
  have sn: "netd_snapshot (fst (publish_level w nd)) now = netd_snapshot nd now" for now
    by (rule snapshot_cong) simp_all
  show thesis
  proof (cases "nd_last_snapshot nd = Some (netd_snapshot nd (w_clock w 0))")
    case True
    with assms show ?thesis by (intro same) (simp_all add: publish_def split_def Let_def sn)
  next
    case False
    with assms obtain bs where "snapshot_bytes w (netd_snapshot nd (w_clock w 0)) = Some bs"
      by (auto simp: publish_def split_def Let_def sn)
    with False assms show ?thesis by (intro sent [of bs]) (simp_all add: publish_def split_def Let_def sn)
  qed
qed

definition told :: "msgpack \<Rightarrow> 'f netd \<Rightarrow> effect list \<Rightarrow> bool" where
  "told mp nd h =
     (\<forall>sn s. nd_last_snapshot nd = Some sn \<and> s \<in> set (nd_subscribers nd) \<longrightarrow>
        (\<exists>bs. reply_encode mp (ReplySnapshot sn) = Some bs \<and> last_frame h s = Some (push_frame bs)))"

lemma told_publish:
  assumes "publish w nd = Some (nd', outs)" "ce_mp (w_control w) = mp" "told mp nd h"
  shows "told mp nd' (h @ outs) \<and> nd_last_snapshot nd' = Some (netd_snapshot nd' (w_clock w 0))
    \<and> nd_last_level nd' = Some (machine_level (nd_interfaces nd') (nd_observed nd'))
    \<and> nd_interfaces nd' = nd_interfaces nd \<and> nd_observed nd' = nd_observed nd"
proof -
  have level: "nd_last_level (fst (publish_level w nd)) = Some (machine_level (nd_interfaces nd) (nd_observed nd))"
    by (auto simp: publish_level_def netd_status_def Let_def)
  from assms(1) show ?thesis
  proof (cases rule: publish_cases)
    case same
    then show ?thesis
      using assms(3) level snapshot_cong [of nd' nd] by (auto simp: told_def)
  next
    case (sent bs)
    then have "netd_snapshot nd' now = netd_snapshot nd now" for now by (intro snapshot_cong) simp_all
    with sent level assms(2) show ?thesis
      by (auto simp: told_def snapshot_bytes_def last_frame_frames)
  qed
qed

lemma told_cong:
  "nd_last_snapshot nd' = nd_last_snapshot nd \<Longrightarrow> nd_subscribers nd' = nd_subscribers nd \<Longrightarrow>
    (\<And>s. last_frame outs s = None) \<Longrightarrow> told mp nd h \<Longrightarrow> told mp nd' (h @ outs)"
  by (simp add: told_def)

lemma told_announce:
  assumes "announce w nd = Some (nd', outs)" "ce_mp (w_control w) = mp" "told mp nd h"
  shows "told mp nd' (h @ outs) \<and> nd_last_snapshot nd' = Some (netd_snapshot nd' (w_clock w 0))
    \<and> nd_last_level nd' = Some (machine_level (nd_interfaces nd') (nd_observed nd'))
    \<and> nd_interfaces nd' = nd_interfaces nd \<and> nd_observed nd' = nd_observed nd"
proof -
  obtain nd1 o1 o2 where h: "netd_apply_hostname w nd = (nd1, o1)" and p: "publish w nd1 = Some (nd', o2)"
    and o: "outs = o1 @ o2"
    using assms(1) by (cases "netd_apply_hostname w nd") (auto simp: announce_def bind_eq_Some_conv)
  have "nd_last_snapshot nd1 = nd_last_snapshot nd" "nd_subscribers nd1 = nd_subscribers nd"
      "nd_interfaces nd1 = nd_interfaces nd" "nd_observed nd1 = nd_observed nd" "last_frame o1 s = None" for s
    using h by (auto simp: netd_apply_hostname_def Let_def split_def split: option.splits)
  then show ?thesis
    using told_publish [OF p assms(2), of "h @ o1"] told_cong [of nd1 nd o1 mp h] assms(3) o by simp
qed


text \<open>The passes of \<^verbatim>\<open>converge\<close> publish nothing themselves.\<close>

definition quiet :: "'f netd \<Rightarrow> 'f netd \<Rightarrow> effect list \<Rightarrow> bool" where
  "quiet nd nd' outs =
     (nd_last_snapshot nd' = nd_last_snapshot nd \<and> nd_subscribers nd' = nd_subscribers nd \<and> (\<forall>s. last_frame outs s = None))"

lemma quiet_trans: "quiet nd nd1 o1 \<Longrightarrow> quiet nd1 nd2 o2 \<Longrightarrow> quiet nd nd2 (o1 @ o2)"
  by (simp add: quiet_def)

lemma told_quiet: "quiet nd nd' outs \<Longrightarrow> told mp nd h \<Longrightarrow> told mp nd' (h @ outs)"
  by (rule told_cong) (auto simp: quiet_def)

lemma quiet_steps:
  "quiet nd (identify_networks w now nd) []"
  "quiet nd (fst (netd_sync_links w now nd)) (snd (netd_sync_links w now nd))"
  "quiet nd (fst (start_dhcp_where_due w now nd)) (snd (start_dhcp_where_due w now nd))"
  "start_ipv6_where_due w now nd = Some (nd', outs) \<Longrightarrow> quiet nd nd' outs"
  "quiet nd (fst (netd_reconcile_all w now nd k)) []"
  by (auto simp: quiet_def identify_networks_def netd_sync_links_def start_dhcp_where_due_def
      start_ipv6_where_due_def netd_reconcile_all_def split_def Let_def)

lemma quiet_pass:
  assumes "converge_pass w now now' nd k = Some (nd', k', outs, changed)"
  shows "quiet nd nd' outs"
proof -
  define nd1 where "nd1 = identify_networks w now nd"
  define s where "s = netd_sync_links w now nd1"
  define d where "d = start_dhcp_where_due w now (fst s)"
  obtain nd3 o3 where v: "start_ipv6_where_due w now (fst d) = Some (nd3, o3)"
    using assms by (auto simp: converge_pass_def Let_def split_def nd1_def s_def d_def bind_eq_Some_conv)
  then have r: "nd' = fst (netd_reconcile_all w now' nd3 k)" "outs = snd s @ snd d @ o3"
    using assms by (auto simp: converge_pass_def Let_def split_def nd1_def s_def d_def)
  have "quiet nd (fst d) (snd s @ snd d)"
    using quiet_trans [OF quiet_trans [OF quiet_steps(1) quiet_steps(2)] quiet_steps(3), of nd w now w now w now]
    by (simp add: nd1_def s_def d_def)
  from quiet_trans [OF quiet_trans [OF this quiet_steps(4) [OF v]] quiet_steps(5) [of nd3 w now' k]]
  show ?thesis by (simp add: r)
qed

lemma quiet_loop: "converge_loop n w now nd k = Some (nd', k', outs) \<Longrightarrow> quiet nd nd' outs"
proof (induction n arbitrary: nd k outs)
  case 0
  then show ?case by (simp add: quiet_def)
next
  case (Suc n)
  from Suc.prems obtain nd1 k1 o1 ch where p: "converge_pass w now (w_clock w (Suc n)) nd k = Some (nd1, k1, o1, ch)"
    by (auto simp: bind_eq_Some_conv)
  show ?case
  proof (cases ch)
    case False
    then show ?thesis using Suc.prems p quiet_pass [OF p] by simp
  next
    case True
    then obtain o2 where "converge_loop n w now nd1 k1 = Some (nd', k', o2)" "outs = o1 @ o2"
      using Suc.prems p by (auto simp: bind_eq_Some_conv)
    then show ?thesis using quiet_trans [OF quiet_pass [OF p] Suc.IH] by simp
  qed
qed

definition current :: "('f, 'e, 'k, 'sid) world \<Rightarrow> 'f netd \<Rightarrow> bool" where
  "current w nd = (nd_last_snapshot nd = Some (netd_snapshot nd (w_clock w 0))
     \<and> nd_last_level nd = Some (machine_level (nd_interfaces nd) (nd_observed nd)))"

lemma told_converge:
  assumes "converge w now nd k = Some (nd', k', outs)" "ce_mp (w_control w) = mp" "told mp nd h"
  shows "told mp nd' (h @ outs) \<and> current w nd'"
proof -
  obtain nd1 o1 o2 where l: "converge_loop 4 w now nd k = Some (nd1, k', o1)" and a: "announce w nd1 = Some (nd', o2)"
    and o: "outs = o1 @ o2"
    using assms(1) by (auto simp: converge_def bind_eq_Some_conv)
  have "told mp nd1 (h @ o1)" using told_quiet [OF quiet_loop [OF l] assms(3)] .
  from told_announce [OF a assms(2) this] show ?thesis by (simp add: o current_def)
qed

lemma told_settle:
  assumes "settle w now c r nd k = Some (nd', k', outs)" "ce_mp (w_control w) = mp" "told mp nd h"
  shows "told mp nd' (h @ outs) \<and> (c \<or> r \<longrightarrow> current w nd')"
proof -
  let ?c = "c \<or> list_ex (\<lambda>e. if_rejudge (snd e)) (nd_interfaces nd)"
  consider (converge) ?c "converge w now nd k = Some (nd', k', outs)"
    | (reconcile) "r" "announce w (fst (netd_reconcile_all w (w_clock w 1) nd k)) = Some (nd', outs)"
    | (idle) "\<not> ?c" "\<not> r" "nd' = nd" "outs = []"
    using assms(1) by (auto simp: settle_def Let_def split_def split: if_splits)
  then show ?thesis
  proof cases
    case converge
    then show ?thesis using told_converge [OF converge(2) assms(2,3)] by simp
  next
    case reconcile
    have "told mp (fst (netd_reconcile_all w (w_clock w 1) nd k)) (h @ [])"
      by (rule told_quiet [OF quiet_steps(5) assms(3)])
    then show ?thesis
      using told_announce [OF reconcile(2) assms(2), of h] by (simp add: current_def)
  next
    case idle
    then show ?thesis using assms(3) by simp
  qed
qed

lemma told_handle:
  assumes "handle_control w now nd k stream request = Some (nd', k', outs, reply)" "ce_mp (w_control w) = mp" "told mp nd h"
  shows "told mp nd' (h @ outs)"
proof (cases "w_permits w (nd_control nd) stream (required_right request)")
  case None
  then show ?thesis using assms by (simp add: handle_control_def)
next
  case (Some caller)
  show ?thesis
  proof (cases request)
    case ReqStatus
    then show ?thesis using assms Some by (simp add: handle_control_def)
  next
    case (ReqRenew i)
    have "quiet nd (fst (renew_request now nd i)) (fst (snd (renew_request now nd i)))"
      by (auto simp: renew_request_def quiet_def split: option.splits prod.splits)
    then show ?thesis
      using assms Some ReqRenew told_quiet by (fastforce simp: handle_control_def Let_def split_def)
  next
    case ReqReconcile
    then show ?thesis using assms Some told_converge [of w now nd k nd' k' outs mp h] by (auto simp: handle_control_def)
  next
    case ReqSubscribe
    let ?sn = "case nd_last_snapshot nd of Some sn \<Rightarrow> sn | None \<Rightarrow> netd_snapshot nd (w_clock w 0)"
    obtain bs where b: "snapshot_bytes w ?sn = Some bs"
      and "nd' = nd\<lparr>nd_subscribers := nd_subscribers nd @ [stream]\<rparr> \<and> outs = [Frame stream (push_frame bs)]
         \<or> nd' = nd \<and> outs \<in> {[], [Frame stream (push_frame bs)]}"
      using assms(1) Some ReqSubscribe
      by (auto simp: handle_control_def subscribe_request_def Let_def split: if_splits)
    then show ?thesis
      using assms(2,3) b unfolding told_def by (auto simp: snapshot_bytes_def split: option.splits if_splits)
  qed
qed

text \<open>
  The life of the daemon: it starts, handles requests, settles at the end of its
  turns, reloads, reads the kernel's state again, and lets its clients receive and
  tick, which changes interfaces and sends packets.  The outside may answer
  differently at every step; the MessagePack library stays the same.
\<close>

inductive netd_run :: "(('f, 'e, 'k, 'sid) world \<Rightarrow> bool) \<Rightarrow> 'f netd \<Rightarrow> 'k \<Rightarrow> effect list \<Rightarrow> bool" for W where
  started: "W w \<Longrightarrow> netd_run W (netd_start w config ob) k []"
| handled: "netd_run W nd k h \<Longrightarrow> W w \<Longrightarrow>
    handle_control w now nd k stream request = Some (nd', k', outs, reply) \<Longrightarrow> netd_run W nd' k' (h @ outs)"
| settled: "netd_run W nd k h \<Longrightarrow> W w \<Longrightarrow>
    settle w now c r nd k = Some (nd', k', outs) \<Longrightarrow> netd_run W nd' k' (h @ outs)"
| reloaded: "netd_run W nd k h \<Longrightarrow> W w \<Longrightarrow> netd_run W (fst (reload w fresh nd)) k h"
| looked: "netd_run W nd k h \<Longrightarrow> netd_run W (nd\<lparr>nd_observed := ob\<rparr>) k' h"
| stepped: "netd_run W nd k h \<Longrightarrow> netd_run W (nd\<lparr>nd_interfaces := is\<rparr>) k (h @ map Packet ps)"

lemma quiet_reload: "quiet nd (fst (reload w fresh nd)) []"
proof (cases fresh)
  case None
  then show ?thesis by (simp add: quiet_def reload_def)
next
  case (Some c)
  then show ?thesis by (simp add: quiet_def reload_adopts)
qed

lemma run_told:
  assumes "netd_run W nd k h" and W: "\<And>w. W w \<Longrightarrow> ce_mp (w_control w) = mp"
  shows "told mp nd h"
  using assms(1)
proof (induction rule: netd_run.induct)
  case (started w config ob k)
  then show ?case by (simp add: told_def netd_start_def split_def Let_def)
next
  case (handled nd k h w now stream request nd' k' outs reply)
  show ?case using told_handle [OF handled.hyps(3) W [OF handled.hyps(2)] handled.IH] .
next
  case (settled nd k h w now c r nd' k' outs)
  show ?case using told_settle [OF settled.hyps(3) W [OF settled.hyps(2)] settled.IH] by simp
next
  case (reloaded nd k h w fresh)
  show ?case using told_quiet [OF quiet_reload reloaded.IH, of w fresh] by simp
next
  case (looked nd k h ob k')
  then show ?case by (simp add: told_def)
next
  case (stepped nd k h "is" ps)
  then show ?case by (auto intro!: told_quiet simp: quiet_def)
qed

text \<open>
  C24: Subscribers are kept current.  In every history of the daemon, once a turn that
  converged or reconciled has ended, the last snapshot is the picture of the interfaces,
  addresses and name as they are, the level announced to the service manager is the
  machine's level, and every subscriber that is still kept was last sent exactly that
  snapshot, whether it was sent now, earlier, or when it subscribed.
\<close>

theorem subscribers_current:
  assumes "netd_run W nd k h" "W w" "settle w now c r nd k = Some (nd', k', outs)" "c \<or> r"
    and "\<And>w. W w \<Longrightarrow> ce_mp (w_control w) = mp"
  shows "nd_last_snapshot nd' = Some (netd_snapshot nd' (w_clock w 0))
    \<and> nd_last_level nd' = Some (machine_level (nd_interfaces nd') (nd_observed nd'))
    \<and> (\<forall>s\<in>set (nd_subscribers nd'). \<exists>bs. reply_encode mp (ReplySnapshot (netd_snapshot nd' (w_clock w 0))) = Some bs
          \<and> last_frame (h @ outs) s = Some (push_frame bs))"
proof -
  have "told mp nd' (h @ outs)" "current w nd'"
    using told_settle [OF assms(3) assms(5) [OF assms(2)] run_told [OF assms(1,5)]] assms(4) by blast+
  then show ?thesis unfolding told_def current_def by blast
qed


section \<open>Witnesses\<close>

definition ex_world :: "(nat, rstring, nat, nat) world" where
  "ex_world =
     \<lparr>w_sha1 = \<lambda>bs. bs, w_read_identity = \<lambda>name. \<lparr>id_path = [], id_driver = []\<rparr>,
      w_network_sync = \<lambda>id sg. \<lparr>nw_id = id, nw_name = None, nw_trust = None, nw_requested_address = None\<rparr>,
      w_build = \<lambda>rules profiles. case rules of None \<Rightarrow> Inr \<lparr>po_forest = None, po_profiles = [], po_lints = []\<rparr>
                                  | Some r \<Rightarrow> Inl ''bad rule'',
      w_show = \<lambda>e. e, w_judge = \<lambda>p f. judged_default,
      w_dhcp_env = \<lambda>h i. ex_env, w_ipv6_env = \<lambda>i. \<lparr>ve_icmp6_socket = False, ve_secret = None, ve_dhcp6_socket = False, ve_duid = [], ve_seed = 0\<rparr>,
      w_rtnl = \<lambda>k op. (k, None), w_dump = \<lambda>k. Some \<lparr>o_links = [], o_addresses = [], o_routes = []\<rparr>,
      w_sethostname = \<lambda>h. True, w_control = ex_control_env, w_send = \<lambda>s bs. True, w_nonblocking = \<lambda>s. True,
      w_sd_valid = \<lambda>bs. bs \<noteq> [], w_permits = \<lambda>sd s r. if r = NETWORK_QUERY then Some 0 else None, w_clock = \<lambda>n. 0\<rparr>"

definition ex_config :: config where
  "ex_config = config_default\<lparr>cf_hostname := Some ''peios''\<rparr>"

definition ex_netd :: "nat netd" where
  "ex_netd = netd_start ex_world ex_config \<lparr>o_links = [], o_addresses = [], o_routes = []\<rparr>"

definition ex_bad :: config where
  "ex_bad = ex_config\<lparr>cf_rules := Some (RawKey ''rules'' [] [])\<rparr>"



definition ex_subscribed :: "nat netd" where
  "ex_subscribed = ex_netd\<lparr>nd_subscribers := [7]\<rparr>"

lemma ex_encode:
  assumes "text_ok h" "length h \<le> 63"
  shows "\<exists>bs. reply_encode mp_ref (ReplySnapshot \<lparr>sn_hostname = h, sn_scopes = []\<rparr>) = Some bs"
  using reply_encodes [OF mp_ref_ok, of "ReplySnapshot \<lparr>sn_hostname = h, sn_scopes = []\<rparr>"] assms
  by (simp add: vec_fits_def)

lemma ex_name: "text_ok ''peios''" "hostname_check ''peios'' = Inr ''peios''"
proof -
  show "text_ok ''peios''" by (simp add: text_ok_ascii)
  have l: "list_all hostname_char ''peios''"
    by (simp add: hostname_char_def is_ascii_alphanumeric_def is_ascii_digit_def is_ascii_uppercase_def
        is_ascii_lowercase_def ascii_code_def)
  show "hostname_check ''peios'' = Inr ''peios''"
    unfolding hostname_check_Inr pattern_iff trim_label [OF l] using l
    by (simp add: eq_ignore_ascii_case_def to_ascii_lowercase_def)
qed

lemmas ex_defs = ex_world_def ex_control_env_def ex_subscribed_def ex_netd_def netd_start_def ex_config_def config_default_def

lemma ex_converged: "converge_loop 4 ex_world 0 ex_subscribed 0 = Some (ex_subscribed, 0, [])"
  by (simp add: numeral_eq_Suc converge_pass_def Let_def identify_networks_def netd_sync_links_def sync_links_def bt_map_def
      bt_retain_def start_dhcp_where_due_def start_ipv6_where_due_def netd_reconcile_all_def reconcile_all_def ex_defs)

lemma ex_settled:
  "\<exists>nd' outs. settle ex_world 0 True False ex_subscribed 0 = Some (nd', 0, outs)
     \<and> nd_subscribers nd' = [7] \<and> nm_set (nd_naming nd') = Some ''peios''"
proof -
  obtain bs where bs: "reply_encode mp_ref (ReplySnapshot \<lparr>sn_hostname = ''peios'', sn_scopes = []\<rparr>) = Some bs"
    using ex_encode [of "''peios''"] ex_name(1) by auto
  define nd1 where "nd1 = ex_subscribed\<lparr>nd_naming := \<lparr>nm_set = Some ''peios'', nm_refused = None\<rparr>\<rparr>"
  have h: "netd_apply_hostname ex_world ex_subscribed = (nd1, [SetHostname ''peios''])"
    by (simp add: nd1_def netd_apply_hostname_def apply_hostname_def ex_name(2) ex_defs)
  have p: "\<exists>nd' o2. publish ex_world nd1 = Some (nd', o2) \<and> nd_subscribers nd' = [7] \<and> nm_set (nd_naming nd') = Some ''peios''"
    using bs by (simp add: publish_def publish_level_def netd_snapshot_def snapshot_bytes_def Let_def nd1_def ex_defs)
  show ?thesis
    using p by (auto simp: settle_def converge_def ex_converged announce_def h)
qed

lemma ex_run: "\<exists>h. netd_run (\<lambda>w. w = ex_world) ex_subscribed 0 h"
proof -
  obtain bs where bs: "reply_encode mp_ref (ReplySnapshot \<lparr>sn_hostname = [], sn_scopes = []\<rparr>) = Some bs"
    using ex_encode [of "[]"] by auto
  have "handle_control ex_world 0 ex_netd 0 7 ReqSubscribe = Some (ex_subscribed, 0, [Frame 7 (push_frame bs)], None)"
    using bs by (simp add: handle_control_def subscribe_request_def netd_snapshot_def snapshot_bytes_def Let_def ex_defs)
  moreover have "netd_run (\<lambda>w. w = ex_world) ex_netd 0 []"
    unfolding ex_netd_def by (rule netd_run.started) simp
  ultimately show ?thesis using netd_run.handled by fastforce
qed

theorem control_authorised_witness:
  "w_permits ex_world (nd_control ex_netd) 7 NETWORK_CONTROL = None
   \<and> handle_control ex_world 0 ex_netd 0 7 ReqReconcile = Some (ex_netd, 0, [], Some (ReplyError ''access denied''))"
proof -
  have p: "w_permits ex_world (nd_control ex_netd) 7 (required_right ReqReconcile) = None"
    by (simp add: ex_defs NETWORK_CONTROL_def NETWORK_QUERY_def)
  then obtain nd' k' outs reply where
      r: "handle_control ex_world 0 ex_netd 0 7 ReqReconcile = Some (nd', k', outs, reply)"
    by (simp add: handle_control_def)
  show ?thesis using control_authorised [OF r] p r by simp
qed

theorem subscribers_current_witness:
  "\<exists>nd' outs h bs. settle ex_world 0 True False ex_subscribed 0 = Some (nd', 0, outs)
     \<and> nd_subscribers nd' = [7] \<and> nm_set (nd_naming nd') = Some ''peios''
     \<and> nd_last_snapshot nd' = Some (netd_snapshot nd' 0) \<and> last_frame (h @ outs) 7 = Some (push_frame bs)"
proof -
  obtain h where h: "netd_run (\<lambda>w. w = ex_world) ex_subscribed 0 h" using ex_run by blast
  obtain nd' outs where s: "settle ex_world 0 True False ex_subscribed 0 = Some (nd', 0, outs)" "nd_subscribers nd' = [7]"
      "nm_set (nd_naming nd') = Some ''peios''"
    using ex_settled by blast
  have c: "w_clock ex_world 0 = 0" by (simp add: ex_world_def)
  from subscribers_current [OF h refl s(1), of "ce_mp (w_control ex_world)"] s c show ?thesis by auto
qed


section \<open>The ceiling\<close>

text \<open>
  A snapshot within the ceiling reaches the subscriber's \<^verbatim>\<open>recv\<close> whole.  Unlike a reply, a
  pushed snapshot is not held to the ceiling, and the subscriber refuses one above it.
\<close>

lemma push_frame_within:
  assumes "length bs \<le> MAX_MESSAGE_BYTES"
  shows "wire_recv (push_frame bs @ rest) = Inr (bs, rest)"
  using assms wire_recv_send [of bs "push_frame bs" rest]
  by (simp add: wire_send_def push_frame_def)

lemma push_frame_too_large:
  assumes "MAX_MESSAGE_BYTES < length bs" "length bs < 2 ^ 32"
  shows "wire_recv (push_frame bs) = Inl (TooLarge (length bs))"
  using assms by (simp add: wire_recv_def push_frame_def read_exact_def unat_count)

end
