(* ===== verification/Dhcp4_Socket.thy ===== *)
theory Dhcp4_Socket
  imports Dhcp4_Client
begin

text \<open>
  The packet socket under the DHCPv4 client and what is kept on disk for it
  (\<^verbatim>\<open>src/netd/src/dhcp.rs\<close>): the IPv4 and UDP headers netd builds by hand and their
  checksum, the defensive parse of what the socket yields, the classic BPF
  program it attaches, the read loop, and the DUID and client identifier.

  The packet filter is the kernel's: it is the argument \<open>exec\<close>, and
  \<open>cbpf_contract\<close> states the documented meaning of the six instructions the
  program uses.  What \<^verbatim>\<open>recv\<close> returns is an argument too, one result per call.
\<close>

section \<open>The Internet checksum\<close>

text \<open>\<^verbatim>\<open>bytes.chunks(2)\<close>, a last odd byte padded with zero.\<close>

fun be_words :: "bytes \<Rightarrow> u16 list" where
  "be_words [] = []"
| "be_words [a] = [u16_of [a, 0]]"
| "be_words (a # b # bs) = u16_of [a, b] # be_words bs"

definition word_sum :: "bytes \<Rightarrow> u32" where
  "word_sum bs = foldl (\<lambda>sum w. sum + ucast w) 0 (be_words bs)"

lemma carry_arith:
  fixes n :: nat
  shows "(n mod 65536 + n div 65536) mod 65535 = n mod 65535"
    and "n mod 65536 + n div 65536 = 0 \<longleftrightarrow> n = 0"
    and "n div 65536 \<noteq> 0 \<Longrightarrow> n mod 65536 + n div 65536 < n"
    and "n mod 65536 + n div 65536 \<le> n"
proof -
  have n: "n = 65535 * (n div 65536) + (n mod 65536 + n div 65536)"
    using div_mult_mod_eq [of n 65536] by simp
  show "(n mod 65536 + n div 65536) mod 65535 = n mod 65535"
    by (metis mod_mult_self4 n)
  show "n mod 65536 + n div 65536 = 0 \<longleftrightarrow> n = 0"
    using n by linarith
  show "n div 65536 \<noteq> 0 \<Longrightarrow> n mod 65536 + n div 65536 < n"
    using n by linarith
  show "n mod 65536 + n div 65536 \<le> n"
    using n by linarith
qed

lemma fold_carry_decreases:
  assumes "drop_bit 16 (s :: u32) \<noteq> 0"
  shows "unat ((s AND 0xffff) + drop_bit 16 s) = unat s mod 65536 + unat s div 65536"
    and "unat s mod 65536 + unat s div 65536 < unat s"
proof -
  have "s AND 0xffff = take_bit 16 s"
    by (simp only: take_bit_eq_mask) (simp add: mask_eq_exp_minus_1)
  then have a: "unat (s AND 0xffff) = unat s mod 65536"
    by (simp only: unsigned_take_bit_eq) (simp add: take_bit_eq_mod)
  have d: "unat (drop_bit 16 s) = unat s div 65536"
    by (simp add: drop_bit_eq_div unat_div_distrib)
  have "unat s < 2 ^ 32" using unsigned_less [of s, where ?'a = nat] by simp
  then have "unat s mod 65536 + unat s div 65536 < 2 ^ 32"
    using carry_arith(4) [of "unat s"] by linarith
  then show "unat ((s AND 0xffff) + drop_bit 16 s) = unat s mod 65536 + unat s div 65536"
    using a d by (simp add: unat_word_ariths)
  have "unat s div 65536 \<noteq> 0"
    using assms d by (metis unat_eq_zero)
  then show "unat s mod 65536 + unat s div 65536 < unat s"
    by (rule carry_arith(3))
qed

text \<open>\<^verbatim>\<open>while sum >> 16 != 0\<close>\<close>

function fold_carry :: "u32 \<Rightarrow> u32" where
  "fold_carry s = (if drop_bit 16 s \<noteq> 0 then fold_carry ((s AND 0xffff) + drop_bit 16 s) else s)"
  by pat_completeness auto
termination
  by (relation "measure unat") (auto simp: fold_carry_decreases)

declare fold_carry.simps [simp del]

definition checksum :: "bytes \<Rightarrow> u16" where
  "checksum bs = NOT (ucast (fold_carry (word_sum bs)))"

section \<open>IPv4 and UDP framing\<close>

definition ip_header :: "ipv4 \<Rightarrow> ipv4 \<Rightarrow> nat \<Rightarrow> bytes" where
  "ip_header src dst tot =
     [0x45, 0x10] @ be16 (word_of_nat tot) @ [0, 0] @ [0x40, 0] @ [64] @ [17] @ [0, 0]
     @ octets4 src @ octets4 dst"

definition ip_udp :: "ipv4 \<Rightarrow> ipv4 \<Rightarrow> u16 \<Rightarrow> u16 \<Rightarrow> bytes \<Rightarrow> bytes" where
  "ip_udp src dst sport dport payload =
     (let udp_len = 8 + length payload;
          tot = 20 + udp_len;
          out = ip_header src dst tot;
          sum = be16 (checksum (take 20 out));
          out = out[10 := sum ! 0];
          out = out[11 := sum ! 1]
      in out @ be16 sport @ be16 dport @ be16 (word_of_nat udp_len) @ [0, 0] @ payload)"

definition udp_payload :: "bytes \<Rightarrow> bytes option" where
  "udp_payload packet =
     (if length packet < 20 \<or> drop_bit 4 (packet ! 0) \<noteq> 4 then None
      else
        (let ihl = unat (packet ! 0 AND 0x0f) * 4
         in if packet ! 9 \<noteq> 17 \<or> length packet < ihl + 8 then None
            else
              (let dport = u16_of [packet ! (ihl + 2), packet ! (ihl + 3)]
               in if dport \<noteq> CLIENT_PORT then None
                  else
                    (let udp_len = unat (u16_of [packet ! (ihl + 4), packet ! (ihl + 5)]);
                         stop = min (ihl + udp_len) (length packet)
                     in slice_get packet (ihl + 8) stop))))"

section \<open>The socket\<close>

text \<open>The instructions of a classic BPF program.\<close>

record sock_filter =
  sf_code :: u16
  sf_jt :: nat
  sf_jf :: nat
  sf_k :: u32

definition bpf_op :: "u16 \<Rightarrow> nat \<Rightarrow> nat \<Rightarrow> u32 \<Rightarrow> sock_filter" where
  "bpf_op code jt jf k = \<lparr>sf_code = code, sf_jt = jt, sf_jf = jf, sf_k = k\<rparr>"

definition dhcp_filter :: "sock_filter list" where
  "dhcp_filter =
     [bpf_op 0x30 0 0 9,
      bpf_op 0x15 0 6 17,
      bpf_op 0x28 0 0 6,
      bpf_op 0x45 4 0 0x3fff,
      bpf_op 0xb1 0 0 0,
      bpf_op 0x48 0 0 2,
      bpf_op 0x15 0 1 68,
      bpf_op 0x06 0 0 0xffff,
      bpf_op 0x06 0 0 0]"

text \<open>What a call of \<^verbatim>\<open>recv\<close> returns: a datagram, an interruption, or another error.\<close>

datatype recv_result = Datagram bytes | RecvInterrupted | RecvFailed

text \<open>
  \<^verbatim>\<open>PacketSocket::receive\<close>, over the results of the successive calls; the buffer
  holds 4096 bytes and a longer datagram is cut there.  The list ends where the
  socket would block.
\<close>

fun ps_receive :: "recv_result list \<Rightarrow> message list" where
  "ps_receive [] = []"
| "ps_receive (RecvInterrupted # rs) = ps_receive rs"
| "ps_receive (RecvFailed # rs) = []"
| "ps_receive (Datagram bs # rs) =
     (let buf = take 4096 bs
      in if buf = [] then []
         else (case Option.bind (udp_payload buf) message_decode of
                 Some m \<Rightarrow> m # ps_receive rs
               | None \<Rightarrow> ps_receive rs))"

text \<open>What goes out: an IP datagram to the Ethernet broadcast address, or a UDP payload from the lease address.\<close>

datatype ps_frame =
    ToLinkBroadcast bytes
  | FromLease ipv4 u16 ipv4 u16 bytes

definition ps_send :: "message \<Rightarrow> destination \<Rightarrow> ps_frame" where
  "ps_send m dst =
     (let payload = message_encode m
      in case dst of
           Broadcast \<Rightarrow> ToLinkBroadcast (ip_udp 0 0xffffffff CLIENT_PORT SERVER_PORT payload)
         | Unicast server from_address \<Rightarrow> FromLease from_address CLIENT_PORT server SERVER_PORT payload)"

section \<open>Persistence\<close>

text \<open>\<^verbatim>\<open>duid\<close>: the content of the file, if it can be read, and the MAC; the identifier and what is written.\<close>

definition duid :: "bytes option \<Rightarrow> bytes \<Rightarrow> bytes \<times> bytes option" where
  "duid file first_mac =
     (case file of
        Some bs \<Rightarrow> if 4 \<le> length bs then (bs, None) else ([0, 3, 0, 1] @ first_mac, Some ([0, 3, 0, 1] @ first_mac))
      | None \<Rightarrow> ([0, 3, 0, 1] @ first_mac, Some ([0, 3, 0, 1] @ first_mac)))"

definition iaid :: "rstring \<Rightarrow> bytes" where
  "iaid ifid =
     foldl (\<lambda>ia ib. ia[fst ib mod 4 := ia ! (fst ib mod 4) XOR snd ib]) [0, 0, 0, 0]
       (enumerate 0 (as_bytes ifid))"

definition client_id :: "bytes \<Rightarrow> rstring \<Rightarrow> bytes" where
  "client_id d ifid = 0xff # iaid ifid @ d"

section \<open>The checksum verifies\<close>

text \<open>Folding the carries keeps the sum modulo 65535, and zero only for zero.\<close>

lemma fold_carry_unat:
  "unat (fold_carry s) < 65536 \<and> unat (fold_carry s) mod 65535 = unat s mod 65535
    \<and> (unat (fold_carry s) = 0 \<longleftrightarrow> unat s = 0)"
proof (induction s rule: fold_carry.induct)
  case (1 s)
  show ?case
  proof (cases "drop_bit 16 s = 0")
    case True
    then have "unat s div 65536 = 0"
      by (simp add: drop_bit_eq_div unat_div_distrib flip: unat_eq_zero)
    then show ?thesis using True by (subst fold_carry.simps) (auto simp: fold_carry.simps)
  next
    case False
    let ?t = "(s AND 0xffff) + drop_bit 16 s"
    have "fold_carry s = fold_carry ?t" using False by (subst fold_carry.simps) simp
    moreover have "unat ?t mod 65535 = unat s mod 65535" "unat ?t = 0 \<longleftrightarrow> unat s = 0"
      unfolding fold_carry_decreases(1) [OF False] by (rule carry_arith)+
    ultimately show ?thesis using 1 [OF False] by simp
  qed
qed

definition nat_sum :: "bytes \<Rightarrow> nat" where
  "nat_sum bs = sum_list (map unat (be_words bs))"

lemma word_sum_unat:
  assumes "nat_sum bs < 2 ^ 32"
  shows "unat (word_sum bs) = nat_sum bs"
proof -
  have "unat (foldl (\<lambda>sum w. sum + ucast w) a ws) = unat a + sum_list (map unat ws)"
    if "unat a + sum_list (map unat ws) < 2 ^ 32" for a :: u32 and ws :: "u16 list"
    using that
  proof (induction ws arbitrary: a)
    case (Cons w ws)
    have "unat (a + ucast w) = unat a + unat w"
      using Cons.prems by (simp add: unat_word_ariths unsigned_ucast_eq take_bit_nat_eq_self)
    then show ?case using Cons by simp
  qed simp
  from this [of 0 "be_words bs"] assms show ?thesis by (simp add: word_sum_def nat_sum_def)
qed

text \<open>A checksum of zero is a sum that is a positive multiple of 65535.\<close>

lemma checksum_zero:
  assumes "nat_sum bs < 2 ^ 32" "0 < nat_sum bs" "nat_sum bs mod 65535 = 0"
  shows "checksum bs = 0"
proof -
  let ?f = "fold_carry (word_sum bs)"
  have "unat ?f < 65536" "unat ?f mod 65535 = 0" "unat ?f \<noteq> 0"
    using fold_carry_unat [of "word_sum bs"] assms by (simp_all add: word_sum_unat)
  then have "unat ?f = 65535" by (cases "unat ?f < 65535") auto
  then have "(word_of_nat (unat ?f) :: u32) = 65535" by (simp only: of_nat_numeral)
  then have "?f = 65535" by simp
  then show ?thesis by (simp add: checksum_def)
qed

lemma unat_not_u16: "unat (NOT (x :: u16)) = 65535 - unat x"
proof -
  have "NOT x = - 1 - x" by (simp add: not_eq_complement)
  moreover have "unat (- 1 - x) = unat (- 1 :: u16) - unat x"
    by (rule unat_sub) simp
  ultimately show ?thesis by (simp add: unsigned_minus_1_eq_mask mask_eq_exp_minus_1)
qed

lemma unat_checksum:
  assumes "nat_sum bs < 2 ^ 32"
  shows "(unat (checksum bs) + nat_sum bs) mod 65535 = 0"
proof -
  let ?f = "fold_carry (word_sum bs)"
  have f: "unat ?f < 65536" "unat ?f mod 65535 = nat_sum bs mod 65535"
    using fold_carry_unat [of "word_sum bs"] assms by (simp_all add: word_sum_unat)
  have "unat (checksum bs) = 65535 - unat ?f"
    using f(1) by (simp add: checksum_def unat_not_u16 unsigned_ucast_eq take_bit_nat_eq_self)
  moreover have "(65535 - unat ?f + nat_sum bs) mod 65535 = (65535 - unat ?f + unat ?f) mod 65535"
    by (metis f(2) mod_add_right_eq)
  ultimately show ?thesis using f(1) by simp
qed

lemma list4: "length bs = 4 \<Longrightarrow> \<exists>a b c d. bs = [a, b, c, d]"
  by (auto simp: length_Suc_conv numeral_eq_Suc)

lemma list2: "length bs = 2 \<Longrightarrow> \<exists>a b. bs = [a, b]"
  by (auto simp: length_Suc_conv numeral_eq_Suc)

lemma unat_u16_less: "unat (w :: u16) < 65536"
  using unsigned_less [of w, where ?'a = nat] by simp

lemma be16_pair: "\<exists>a b. be16 w = [a, b] \<and> u16_of [a, b] = w"
  by (metis list2 length_be(1) u16_of_be16)

text \<open>The header written out, and the datagram it starts.\<close>

lemma ip_udp_shape:
  obtains t0 t1 s0 s1 where
    "ip_udp src dst sport dport payload =
       ([0x45, 0x10, t0, t1, 0, 0, 0x40, 0, 64, 17, s0, s1] @ octets4 src @ octets4 dst)
       @ be16 sport @ be16 dport @ be16 (word_of_nat (8 + length payload)) @ [0, 0] @ payload"
    "checksum ([0x45, 0x10, t0, t1, 0, 0, 0x40, 0, 64, 17, 0, 0] @ octets4 src @ octets4 dst) = u16_of [s0, s1]"
proof -
  obtain t0 t1 where t: "be16 (word_of_nat (20 + (8 + length payload))) = [t0, t1]"
    using be16_pair by blast
  let ?h = "[0x45, 0x10, t0, t1, 0, 0, 0x40, 0, 64, 17, 0, 0] @ octets4 src @ octets4 dst"
  obtain s0 s1 where s: "be16 (checksum ?h) = [s0, s1]" "u16_of [s0, s1] = checksum ?h"
    using be16_pair by blast
  have "take 20 ?h = ?h" by simp
  then show thesis
    using that [of t0 t1 s0 s1] t s by (simp add: ip_udp_def ip_header_def Let_def)
qed

lemma header_checksum:
  assumes "length a = 4" "length b = 4"
    and "checksum ([0x45, 0x10, t0, t1, 0, 0, 0x40, 0, 64, 17, 0, 0] @ a @ b) = u16_of [s0, s1]"
  shows "checksum ([0x45, 0x10, t0, t1, 0, 0, 0x40, 0, 64, 17, s0, s1] @ a @ b) = 0"
proof -
  let ?h = "\<lambda>x y. [0x45, 0x10, t0, t1, 0, 0, 0x40, 0, 64, 17, x, y] @ a @ b"
  obtain a0 a1 a2 a3 b0 b1 b2 b3 where ab: "a = [a0, a1, a2, a3]" "b = [b0, b1, b2, b3]"
    using list4 assms(1,2) by meson
  have sum: "nat_sum (?h x y) = 0x4510 + unat (u16_of [t0, t1]) + 0x4000 + 0x4011 + unat (u16_of [x, y])
      + unat (u16_of [a0, a1]) + unat (u16_of [a2, a3]) + unat (u16_of [b0, b1]) + unat (u16_of [b2, b3])" for x y
    by (simp add: nat_sum_def ab) (simp add: codec_simps)
  have "u16_of [0, 0] = 0" by (simp add: codec_simps)
  then have two: "nat_sum (?h s0 s1) = nat_sum (?h 0 0) + unat (checksum (?h 0 0))"
    using sum [of s0 s1] sum [of 0 0] assms(3) by simp
  have less: "nat_sum (?h x y) < 2 ^ 32" for x y
    using unat_u16_less [of "u16_of [t0, t1]"] unat_u16_less [of "u16_of [x, y]"]
      unat_u16_less [of "u16_of [a0, a1]"] unat_u16_less [of "u16_of [a2, a3]"]
      unat_u16_less [of "u16_of [b0, b1]"] unat_u16_less [of "u16_of [b2, b3]"]
    unfolding sum by simp
  have "0 < nat_sum (?h s0 s1)" unfolding sum by simp
  moreover have "nat_sum (?h s0 s1) mod 65535 = 0"
    using unat_checksum [OF less, of 0 0] two by (simp only: add.commute)
  ultimately show ?thesis by (rule checksum_zero [OF less])
qed

lemma ip_udp_checksum: "checksum (take 20 (ip_udp src dst sport dport payload)) = 0"
proof (rule ip_udp_shape)
  fix t0 t1 s0 s1
  assume "ip_udp src dst sport dport payload =
       ([0x45, 0x10, t0, t1, 0, 0, 0x40, 0, 64, 17, s0, s1] @ octets4 src @ octets4 dst)
       @ be16 sport @ be16 dport @ be16 (word_of_nat (8 + length payload)) @ [0, 0] @ payload"
    and "checksum ([0x45, 0x10, t0, t1, 0, 0, 0x40, 0, 64, 17, 0, 0] @ octets4 src @ octets4 dst) = u16_of [s0, s1]"
  then show ?thesis using header_checksum by simp
qed

section \<open>What comes back\<close>

lemma ip_udp_fields:
  fixes src dst sport dport payload
  defines "p \<equiv> ip_udp src dst sport dport payload"
  shows "length p = 28 + length payload" "p ! 0 = 0x45" "p ! 6 = 0x40" "p ! 7 = 0" "p ! 9 = 17"
    "u16_of [p ! 22, p ! 23] = dport" "u16_of [p ! 24, p ! 25] = word_of_nat (8 + length payload)"
    "drop 28 p = payload"
proof -
  obtain a0 a1 a2 a3 where a: "octets4 src = [a0, a1, a2, a3]" using list4 length_octets(1) by blast
  obtain b0 b1 b2 b3 where b: "octets4 dst = [b0, b1, b2, b3]" using list4 length_octets(1) by blast
  obtain c0 c1 where c: "be16 sport = [c0, c1]" using be16_pair by blast
  obtain d0 d1 where d: "be16 dport = [d0, d1]" "u16_of [d0, d1] = dport" using be16_pair by blast
  obtain e0 e1 where e: "be16 (word_of_nat (8 + length payload)) = [e0, e1]"
      "u16_of [e0, e1] = word_of_nat (8 + length payload)" using be16_pair by blast
  obtain t0 t1 s0 s1 where "p = [0x45, 0x10, t0, t1, 0, 0, 0x40, 0, 64, 17, s0, s1, a0, a1, a2, a3,
      b0, b1, b2, b3, c0, c1, d0, d1, e0, e1, 0, 0] @ payload"
    using a b c d(1) e(1) by (rule_tac ip_udp_shape [of src dst sport dport payload]) (simp add: p_def)
  then show "length p = 28 + length payload" "p ! 0 = 0x45" "p ! 6 = 0x40" "p ! 7 = 0" "p ! 9 = 17"
    "u16_of [p ! 22, p ! 23] = dport" "u16_of [p ! 24, p ! 25] = word_of_nat (8 + length payload)"
    "drop 28 p = payload"
    using d e by simp_all
qed

lemma udp_payload_plain:
  assumes "28 \<le> length p" "p ! 0 = 0x45" "p ! 9 = 17"
  shows "udp_payload p =
    (if u16_of [p ! 22, p ! 23] = CLIENT_PORT
     then slice_get p 28 (min (20 + unat (u16_of [p ! 24, p ! 25])) (length p)) else None)"
proof -
  have "unat ((0x45 :: u8) AND 0x0f) * 4 = 20" "drop_bit 4 (0x45 :: u8) = 4" by simp_all
  then show ?thesis using assms by (simp add: udp_payload_def Let_def)
qed

text \<open>A datagram that a read cut short yields what was read of its payload.\<close>

lemma udp_payload_ip_udp:
  assumes "8 + length payload < 65536" "28 \<le> n"
  shows "udp_payload (take n (ip_udp src dst sport dport payload)) =
    (if dport = CLIENT_PORT then Some (take (n - 28) payload) else None)"
proof -
  define q where "q = take n (ip_udp src dst sport dport payload)"
  note f = ip_udp_fields [of src dst sport dport payload]
  have len: "unat (word_of_nat (8 + length payload) :: u16) = 8 + length payload"
    using assms(1) unat_of_nat [of "8 + length payload", where ?'a = 16] by (simp del: of_nat_add)
  have q: "length q = min n (28 + length payload)" "q ! 0 = 0x45" "q ! 9 = 17"
    "u16_of [q ! 22, q ! 23] = dport" "u16_of [q ! 24, q ! 25] = word_of_nat (8 + length payload)"
    "drop 28 q = take (n - 28) payload"
    using f assms(2) by (simp_all add: q_def drop_take)
  have "udp_payload q =
      (if dport = CLIENT_PORT then slice_get q 28 (min (28 + length payload) (length q)) else None)"
    using q assms(2) len by (subst udp_payload_plain) (simp_all del: of_nat_add)
  also have "slice_get q 28 (min (28 + length payload) (length q)) = Some (take (n - 28) payload)"
    using q(1,6) assms(2) by (auto simp: slice_get_def min_def)
  finally show ?thesis by (simp add: q_def)
qed


section \<open>The packet filter\<close>

text \<open>
  The documented meaning of the instructions of the program, of which \<open>exec\<close> runs
  one program from a program counter with the accumulator and the index register:
  a load beyond the packet ends the program with 0, and the value returned is the
  number of bytes of the packet to keep.
\<close>

definition cbpf_contract :: "(sock_filter list \<Rightarrow> nat \<Rightarrow> u32 \<Rightarrow> u32 \<Rightarrow> bytes \<Rightarrow> nat) \<Rightarrow> bool" where
  "cbpf_contract exec =
     (\<forall>prog pc a x p. pc < length prog \<longrightarrow>
        (let i = prog ! pc; k = unat (sf_k i) in
           (sf_code i = 0x30 \<longrightarrow> exec prog pc a x p =
              (if k < length p then exec prog (pc + 1) (ucast (p ! k)) x p else 0))
         \<and> (sf_code i = 0x28 \<longrightarrow> exec prog pc a x p =
              (if k + 1 < length p then exec prog (pc + 1) (ucast (u16_of [p ! k, p ! (k + 1)])) x p else 0))
         \<and> (sf_code i = 0xb1 \<longrightarrow> exec prog pc a x p =
              (if k < length p then exec prog (pc + 1) a (ucast (p ! k AND 0x0f) * 4) p else 0))
         \<and> (sf_code i = 0x48 \<longrightarrow> exec prog pc a x p =
              (if unat x + k + 1 < length p
               then exec prog (pc + 1) (ucast (u16_of [p ! (unat x + k), p ! (unat x + k + 1)])) x p else 0))
         \<and> (sf_code i = 0x15 \<longrightarrow> exec prog pc a x p =
              exec prog (pc + 1 + (if a = sf_k i then sf_jt i else sf_jf i)) a x p)
         \<and> (sf_code i = 0x45 \<longrightarrow> exec prog pc a x p =
              exec prog (pc + 1 + (if a AND sf_k i \<noteq> 0 then sf_jt i else sf_jf i)) a x p)
         \<and> (sf_code i = 0x06 \<longrightarrow> exec prog pc a x p = k)))"

lemma dhcp_filter_nth:
  "length dhcp_filter = 9"
  "dhcp_filter ! 0 = bpf_op 0x30 0 0 9" "dhcp_filter ! Suc 0 = bpf_op 0x15 0 6 17"
  "dhcp_filter ! 2 = bpf_op 0x28 0 0 6" "dhcp_filter ! 3 = bpf_op 0x45 4 0 0x3fff"
  "dhcp_filter ! 4 = bpf_op 0xb1 0 0 0" "dhcp_filter ! 5 = bpf_op 0x48 0 0 2"
  "dhcp_filter ! 6 = bpf_op 0x15 0 1 68" "dhcp_filter ! 7 = bpf_op 0x06 0 0 0xffff"
  "dhcp_filter ! 8 = bpf_op 0x06 0 0 0"
  by (simp_all add: dhcp_filter_def)

lemma cbpf_at:
  assumes "cbpf_contract exec" "pc < length prog" "prog ! pc = bpf_op code jt jf k"
  shows "code = 0x30 \<Longrightarrow> exec prog pc a x p =
      (if unat k < length p then exec prog (pc + 1) (ucast (p ! unat k)) x p else 0)"
    and "code = 0x28 \<Longrightarrow> exec prog pc a x p =
      (if unat k + 1 < length p then exec prog (pc + 1) (ucast (u16_of [p ! unat k, p ! (unat k + 1)])) x p else 0)"
    and "code = 0xb1 \<Longrightarrow> exec prog pc a x p =
      (if unat k < length p then exec prog (pc + 1) a (ucast (p ! unat k AND 0x0f) * 4) p else 0)"
    and "code = 0x48 \<Longrightarrow> exec prog pc a x p =
      (if unat x + unat k + 1 < length p
       then exec prog (pc + 1) (ucast (u16_of [p ! (unat x + unat k), p ! (unat x + unat k + 1)])) x p else 0)"
    and "code = 0x15 \<Longrightarrow> exec prog pc a x p = exec prog (pc + 1 + (if a = k then jt else jf)) a x p"
    and "code = 0x45 \<Longrightarrow> exec prog pc a x p = exec prog (pc + 1 + (if a AND k \<noteq> 0 then jt else jf)) a x p"
    and "code = 0x06 \<Longrightarrow> exec prog pc a x p = unat k"
  using assms(1) [unfolded cbpf_contract_def Let_def, rule_format, OF assms(2), of a x p]
  unfolding assms(3) by (simp_all add: bpf_op_def)

text \<open>Running the program, one instruction after the other.\<close>

lemma dhcp_filter_runs:
  assumes "cbpf_contract exec"
  shows "exec dhcp_filter 0 a x p = (if 9 < length p then exec dhcp_filter (Suc 0) (ucast (p ! 9)) x p else 0)"
    and "exec dhcp_filter (Suc 0) a x p = exec dhcp_filter (if a = 17 then 2 else 8) a x p"
    and "exec dhcp_filter 2 a x p = (if 7 < length p then exec dhcp_filter 3 (ucast (u16_of [p ! 6, p ! 7])) x p else 0)"
    and "exec dhcp_filter 3 a x p = exec dhcp_filter (if a AND 0x3fff \<noteq> 0 then 8 else 4) a x p"
    and "exec dhcp_filter 4 a x p = (if 0 < length p then exec dhcp_filter 5 a (ucast (p ! 0 AND 0x0f) * 4) p else 0)"
    and "exec dhcp_filter 5 a x p = (if unat x + 3 < length p
           then exec dhcp_filter 6 (ucast (u16_of [p ! (unat x + 2), p ! (unat x + 3)])) x p else 0)"
    and "exec dhcp_filter 6 a x p = exec dhcp_filter (if a = 68 then 7 else 8) a x p"
    and "exec dhcp_filter 7 a x p = 65535" "exec dhcp_filter 8 a x p = 0"
proof -
  note at = cbpf_at [OF assms, of _ dhcp_filter]
  show "exec dhcp_filter 0 a x p = (if 9 < length p then exec dhcp_filter (Suc 0) (ucast (p ! 9)) x p else 0)"
    using at(1) [of 0 "0x30" 0 0 9] by (simp add: dhcp_filter_nth)
  show "exec dhcp_filter (Suc 0) a x p = exec dhcp_filter (if a = 17 then 2 else 8) a x p"
    using at(5) [of 1 "0x15" 0 6 17] by (simp add: dhcp_filter_nth numeral_2_eq_2)
  show "exec dhcp_filter 2 a x p = (if 7 < length p then exec dhcp_filter 3 (ucast (u16_of [p ! 6, p ! 7])) x p else 0)"
    using at(2) [of 2 "0x28" 0 0 6] by (simp add: dhcp_filter_nth)
  show "exec dhcp_filter 3 a x p = exec dhcp_filter (if a AND 0x3fff \<noteq> 0 then 8 else 4) a x p"
    using at(6) [of 3 "0x45" 4 0 "0x3fff"] by (simp add: dhcp_filter_nth)
  show "exec dhcp_filter 4 a x p = (if 0 < length p then exec dhcp_filter 5 a (ucast (p ! 0 AND 0x0f) * 4) p else 0)"
    using at(3) [of 4 "0xb1" 0 0 0] by (simp add: dhcp_filter_nth)
  show "exec dhcp_filter 5 a x p = (if unat x + 3 < length p
           then exec dhcp_filter 6 (ucast (u16_of [p ! (unat x + 2), p ! (unat x + 3)])) x p else 0)"
    using at(4) [of 5 "0x48" 0 0 2] by (simp add: dhcp_filter_nth numeral_3_eq_3)
  show "exec dhcp_filter 6 a x p = exec dhcp_filter (if a = 68 then 7 else 8) a x p"
    using at(5) [of 6 "0x15" 0 1 68] by (simp add: dhcp_filter_nth)
  show "exec dhcp_filter 7 a x p = 65535"
    using at(7) [of 7 "0x06" 0 0 "0xffff"] by (simp add: dhcp_filter_nth)
  show "exec dhcp_filter 8 a x p = 0"
    using at(7) [of 8 "0x06" 0 0 0] by (simp add: dhcp_filter_nth)
qed

lemma unat_ucast_u32:
  "unat (ucast (v :: u8) :: u32) = unat v" "unat (ucast (w :: u16) :: u32) = unat w"
proof -
  have "unat v < 2 ^ 32" by (rule less_trans [OF unat_u8_less]) simp
  moreover have "unat w < 2 ^ 32" by (rule less_trans [OF unat_u16_less]) simp
  ultimately show "unat (ucast v :: u32) = unat v" "unat (ucast w :: u32) = unat w"
    by (simp_all add: unsigned_ucast_eq take_bit_nat_eq_self)
qed

lemma ucast_u8_inj: "(ucast (v :: u8) :: u32) = ucast w \<longleftrightarrow> v = w"
  by (metis unat_ucast_u32(1) unsigned_word_eqI)

lemma ucast_u16_inj: "(ucast (v :: u16) :: u32) = ucast w \<longleftrightarrow> v = w"
  by (metis unat_ucast_u32(2) unsigned_word_eqI)

lemma unat_ihl: "unat (ucast (b :: u8) * 4 :: u32) = unat b * 4"
proof -
  have "unat b * 4 < 256 * 4" by (rule mult_strict_right_mono [OF unat_u8_less]) simp
  then have "unat b * 4 < 4294967296" by (rule less_trans) simp
  from mod_less [OF this] show ?thesis by (simp add: unat_word_ariths unat_ucast_u32)
qed

text \<open>
  The program keeps exactly the packets whose protocol is UDP, which are not a
  fragment, and whose UDP header reaches to a destination port that is 68.
\<close>

lemma filter_exact:
  assumes "cbpf_contract exec" "20 \<le> length p"
  shows "exec dhcp_filter 0 0 0 p \<noteq> 0 \<longleftrightarrow>
    (let ihl = unat (p ! 0 AND 0x0f) * 4
     in p ! 9 = 17 \<and> u16_of [p ! 6, p ! 7] AND 0x3fff = 0
        \<and> ihl + 4 \<le> length p \<and> u16_of [p ! (ihl + 2), p ! (ihl + 3)] = CLIENT_PORT)"
proof -
  have p9: "(ucast (p ! 9) :: u32) = 17 \<longleftrightarrow> p ! 9 = 17"
    using ucast_u8_inj [of "p ! 9" 17] by simp
  have port: "(ucast (w :: u16) :: u32) = 68 \<longleftrightarrow> w = 68" for w
    using ucast_u16_inj [of w 68] by simp
  have frag: "(ucast (w :: u16) :: u32) AND 0x3fff = 0 \<longleftrightarrow> w AND 0x3fff = 0" for w
    using ucast_u16_inj [of "w AND 0x3fff" 0] by (simp add: unsigned_and_eq)
  show ?thesis
    using assms(2)
    by (auto simp: dhcp_filter_runs [OF assms(1)] Let_def p9 port frag unat_ihl not_le)
qed

text \<open>What the parser takes and is no fragment, the filter keeps: no answer is lost to the filter.\<close>

lemma filter_keeps_parsed:
  assumes "cbpf_contract exec" "udp_payload p = Some payload" "u16_of [p ! 6, p ! 7] AND 0x3fff = 0"
  shows "exec dhcp_filter 0 0 0 p \<noteq> 0"
proof -
  have "20 \<le> length p" using assms(2) by (simp add: udp_payload_def not_le split: if_splits)
  from iffD2 [OF filter_exact [OF assms(1) this]] show ?thesis
    using assms(2,3) by (auto simp: udp_payload_def Let_def split: if_splits)
qed

section \<open>Properties of the socket and of the identifiers\<close>

text \<open>The identifier does not change once it is written, whatever interface comes first later.\<close>

lemma duid_stable:
  assumes "duid file mac = (d, written)"
  shows "length d \<ge> 4 \<and> duid (case written of Some bs \<Rightarrow> Some bs | None \<Rightarrow> file) mac' = (d, None)"
  using assms by (auto simp: duid_def split: option.splits if_splits)

lemma length_iaid [simp]: "length (iaid ifid) = 4"
proof -
  have "length (foldl (\<lambda>ia ib. ia[fst ib mod 4 := ia ! (fst ib mod 4) XOR snd ib]) a xs) = length a"
    for a :: bytes and xs
    by (induction xs arbitrary: a) auto
  then show ?thesis by (simp add: iaid_def)
qed

lemma client_id_shape: "client_id d ifid ! 0 = 0xff \<and> length (client_id d ifid) = 5 + length d
    \<and> drop 5 (client_id d ifid) = d"
  by (simp add: client_id_def)

text \<open>A short interface identifier is its own IAID: two of them never share a client identifier.\<close>

lemma iaid_short: "length ifid = 4 \<Longrightarrow> iaid ifid = as_bytes ifid"
  using list4 [of ifid] by (auto simp: iaid_def as_bytes_def)

lemma ps_receive_payload:
  assumes "8 + length payload < 65536" "length payload \<le> 4068"
  shows "ps_receive (Datagram (ip_udp src dst sport dport payload) # rs) =
    (if dport = CLIENT_PORT then (case message_decode payload of None \<Rightarrow> [] | Some m \<Rightarrow> [m]) else [])
    @ ps_receive rs"
proof -
  let ?p = "ip_udp src dst sport dport payload"
  have "take 4096 ?p \<noteq> []" using ip_udp_fields(1) [of src dst sport dport payload] by auto
  moreover have "udp_payload (take 4096 ?p) = (if dport = CLIENT_PORT then Some payload else None)"
    using udp_payload_ip_udp [of payload 4096] assms by simp
  ultimately show ?thesis by (auto simp: Let_def split: option.splits)
qed

lemma ip_udp_filtered:
  assumes "cbpf_contract exec"
  shows "exec dhcp_filter 0 0 0 (ip_udp src dst sport dport payload) \<noteq> 0 \<longleftrightarrow> dport = CLIENT_PORT"
proof -
  define p where "p = ip_udp src dst sport dport payload"
  note f = ip_udp_fields [of src dst sport dport payload, folded p_def]
  have "u16_of [0x40, 0] AND 0x3fff = 0" "unat ((0x45 :: u8) AND 0x0f) * 4 = 20"
    by (simp_all add: codec_simps)
  then show ?thesis
    using filter_exact [OF assms, of p] f unfolding p_def [symmetric] by (simp add: Let_def)
qed

text \<open>
  C31: The packet socket delivers what was sent to it.  For a well-formed message that
  fits the read buffer, the datagram netd builds around it has a header whose Internet
  checksum verifies; addressed to port 68 it passes the attached filter and the read
  loop yields exactly that message before what follows; addressed to any other port
  the filter drops it, and the parser behind the filter would drop it too.
\<close>

theorem packet_socket_delivers:
  assumes "cbpf_contract exec" "wf_message m" "length (message_encode m) \<le> 4068"
  shows "let datagram = ip_udp src dst sport port (message_encode m) in
      checksum (take 20 datagram) = 0
    \<and> (exec dhcp_filter 0 0 0 datagram \<noteq> 0 \<longleftrightarrow> port = CLIENT_PORT)
    \<and> ps_receive (Datagram datagram # rs) = (if port = CLIENT_PORT then [m] else []) @ ps_receive rs"
proof -
  have "message_decode (message_encode m) = Some m" using assms(2) by (rule message_encode_decode)
  then show ?thesis
    using ip_udp_checksum ip_udp_filtered [OF assms(1)] assms(3)
    by (simp add: Let_def ps_receive_payload del: ps_receive.simps)
qed

text \<open>An interpreter of the six instructions, which meets the contract: programs only jump forward.\<close>

function bpf_ref :: "sock_filter list \<Rightarrow> nat \<Rightarrow> u32 \<Rightarrow> u32 \<Rightarrow> bytes \<Rightarrow> nat" where
  "bpf_ref prog pc a x p =
     (if length prog \<le> pc then 0 else
      let i = prog ! pc; k = unat (sf_k i) in
      if sf_code i = 0x30 then (if k < length p then bpf_ref prog (pc + 1) (ucast (p ! k)) x p else 0)
      else if sf_code i = 0x28 then
        (if k + 1 < length p then bpf_ref prog (pc + 1) (ucast (u16_of [p ! k, p ! (k + 1)])) x p else 0)
      else if sf_code i = 0xb1 then
        (if k < length p then bpf_ref prog (pc + 1) a (ucast (p ! k AND 0x0f) * 4) p else 0)
      else if sf_code i = 0x48 then
        (if unat x + k + 1 < length p
         then bpf_ref prog (pc + 1) (ucast (u16_of [p ! (unat x + k), p ! (unat x + k + 1)])) x p else 0)
      else if sf_code i = 0x15 then bpf_ref prog (pc + 1 + (if a = sf_k i then sf_jt i else sf_jf i)) a x p
      else if sf_code i = 0x45 then bpf_ref prog (pc + 1 + (if a AND sf_k i \<noteq> 0 then sf_jt i else sf_jf i)) a x p
      else if sf_code i = 0x06 then k
      else 0)"
  by pat_completeness auto
termination
  by (relation "measure (\<lambda>(prog, pc, a, x, p). length prog - pc)") auto

declare bpf_ref.simps [simp del]

lemma bpf_ref_contract: "cbpf_contract bpf_ref"
  unfolding cbpf_contract_def Let_def
  by (intro allI impI conjI) (subst bpf_ref.simps, simp add: Let_def)+

theorem packet_socket_delivers_witness:
  "ps_receive [Datagram (ip_udp 0x0A000202 0xffffffff 67 68 (message_encode (message_request 7 [1, 2, 3, 4, 5, 6])))]
     = [message_request 7 [1, 2, 3, 4, 5, 6]]"
proof -
  have "wf_message (message_request 7 [1, 2, 3, 4, 5, 6])"
    by (simp add: wf_message_def message_request_def)
  moreover have "length (message_encode (message_request 7 [1, 2, 3, 4, 5, 6])) \<le> 4068"
    by (simp add: message_encode_def message_request_def)
  ultimately show ?thesis
    using packet_socket_delivers [OF bpf_ref_contract, of "message_request 7 [1, 2, 3, 4, 5, 6]"
        "0x0A000202" "0xffffffff" 67 68 "[]"]
    by (simp add: Let_def)
qed

end
