(* ===== verification/Netlink.thy ===== *)
theory Netlink
  imports Reconcile
begin

text \<open>
  The kernel's routing socket (\<^verbatim>\<open>src/netd/src/netlink.rs\<close>): the requests netd makes of it, how
  their replies are taken apart, and what netd reads from the messages of a dump.

  The crates that lay messages out in bytes are outside: the reader is the argument
  \<open>des\<close>, and a message is what the source looks at of it.  What the kernel sends back is
  a list of receptions; when it runs out without an end, the call does not return and
  the result is none.
\<close>

section \<open>Messages\<close>

datatype nl_family = AfInet | AfInet6 | AfUnspec | AfOther u8

datatype link_layer = LayerEther | LayerNetrom | LayerOther u16

datatype link_flag = FlagUp | FlagLoopback | FlagLowerUp

datatype link_attr = LaIfName rstring | LaAddress bytes | LaMtu u32 | LaOther

record link_message =
  lm_family :: nl_family
  lm_index :: u32
  lm_layer :: link_layer
  lm_flags :: "link_flag list"
  lm_change :: "link_flag list"
  lm_attributes :: "link_attr list"

datatype addr_flag = AddrDeprecated | AddrNoprefixroute | AddrTentative

datatype addr_attr =
    AaLocal ipaddr
  | AaAddress ipaddr
  | AaBroadcast ipv4
  | AaFlags "addr_flag list"
  | AaCacheInfo (ifa_preferred: u32) (ifa_valid: u32)
  | AaOther

datatype addr_scope = ScopeUniverse | ScopeLink | ScopeOther u8

record address_msg =
  am_family :: nl_family
  am_prefix_len :: u8
  am_flags :: "addr_flag list"
  am_scope :: addr_scope
  am_index :: u32
  am_attributes :: "addr_attr list"

datatype route_type = Unicast | OtherRouteType u8

datatype route_attr =
    RaDestination ipaddr
  | RaGateway ipaddr
  | RaOif u32
  | RaPriority u32
  | RaOther

abbreviation (input) RT_TABLE_MAIN :: u8 where "RT_TABLE_MAIN \<equiv> 254"

record route_msg =
  rm_family :: nl_family
  rm_destination_prefix :: u8
  rm_source_prefix :: u8
  rm_tos :: u8
  rm_table :: u8
  rm_protocol :: u8
  rm_scope :: addr_scope
  rm_kind :: route_type
  rm_attributes :: "route_attr list"

datatype rtnl_message =
    GetLink
  | NewLink link_message
  | SetLink link_message
  | GetAddress nl_family
  | NewAddress address_msg
  | DelAddressMsg address_msg
  | GetRoute nl_family
  | NewRoute route_msg
  | DelRouteMsg route_msg
  | OtherRtnl

section \<open>Reading what the kernel has\<close>

fun link_attr_step :: "rstring \<times> bytes option \<times> u32 \<Rightarrow> link_attr \<Rightarrow> rstring \<times> bytes option \<times> u32" where
  "link_attr_step (name, mac, mtu) (LaIfName n) = (n, mac, mtu)"
| "link_attr_step (name, mac, mtu) (LaAddress a) = (name, if length a = 6 then Some a else mac, mtu)"
| "link_attr_step (name, mac, mtu) (LaMtu m) = (name, mac, m)"
| "link_attr_step s LaOther = s"

text \<open>\<open>layer_code\<close> is the number of a link layer type; \<open>is_wireless\<close> asks sysfs.\<close>

definition link_from_message :: "(link_layer \<Rightarrow> u16) \<Rightarrow> (rstring \<Rightarrow> bool) \<Rightarrow> link_message \<Rightarrow> link" where
  "link_from_message layer_code is_wireless l =
     (let (name, mac, mtu) = foldl link_attr_step ([], None, 0) (lm_attributes l);
          flags = lm_flags l;
          loopback = FlagLoopback \<in> set flags;
          kind = (if loopback then Loopback
                  else if lm_layer l = LayerEther then (if is_wireless name then Wireless else Ether) else Other)
      in \<lparr>ln_index = lm_index l, ln_name = name, ln_mac = mac, ln_up = FlagUp \<in> set flags,
          ln_carrier = FlagLowerUp \<in> set flags, ln_loopback = loopback, ln_mtu = mtu,
          ln_link_type = layer_code (lm_layer l), ln_kind = kind\<rparr>)"

fun addr_attr_step ::
    "ipaddr option \<times> ipaddr option \<times> addr_flag list \<Rightarrow> addr_attr \<Rightarrow> ipaddr option \<times> ipaddr option \<times> addr_flag list" where
  "addr_attr_step (local_ip, addr, flags) (AaLocal ip) = (Some ip, addr, flags)"
| "addr_attr_step (local_ip, addr, flags) (AaAddress ip) = (local_ip, Some ip, flags)"
| "addr_attr_step (local_ip, addr, flags) (AaFlags f) = (local_ip, addr, f)"
| "addr_attr_step s a = s"

definition address_from_message :: "address_msg \<Rightarrow> address option" where
  "address_from_message a =
     (let (local_ip, addr, flags) = foldl addr_attr_step (None, None, []) (am_attributes a)
      in Option.bind (case local_ip of Some ip \<Rightarrow> Some ip | None \<Rightarrow> addr) (\<lambda>ip.
         let ip = (case ip of V6 _ \<Rightarrow> (case addr of Some x \<Rightarrow> x | None \<Rightarrow> ip) | V4 _ \<Rightarrow> ip)
         in Some \<lparr>a_index = am_index a, a_address = ip, a_prefix = am_prefix_len a,
                  a_deprecated = (AddrDeprecated \<in> set flags), a_no_prefix_route = (AddrNoprefixroute \<in> set flags),
                  a_tentative = (AddrTentative \<in> set flags \<or> AddrTentative \<in> set (am_flags a))\<rparr>))"

record route_vars =
  rv_destination :: ipaddr
  rv_gateway :: "ipaddr option"
  rv_oif :: "u32 option"
  rv_metric :: u32

fun route_attr_step :: "route_vars \<Rightarrow> route_attr \<Rightarrow> route_vars" where
  "route_attr_step v (RaDestination d) = v\<lparr>rv_destination := d\<rparr>"
| "route_attr_step v (RaGateway g) = v\<lparr>rv_gateway := Some g\<rparr>"
| "route_attr_step v (RaOif i) = v\<lparr>rv_oif := Some i\<rparr>"
| "route_attr_step v (RaPriority p) = v\<lparr>rv_metric := p\<rparr>"
| "route_attr_step v RaOther = v"

definition unspecified_of :: "nl_family \<Rightarrow> ipaddr option" where
  "unspecified_of f = (case f of AfInet \<Rightarrow> Some (V4 0) | AfInet6 \<Rightarrow> Some (V6 0) | _ \<Rightarrow> None)"

definition route_from_message :: "route_msg \<Rightarrow> route option" where
  "route_from_message r =
     (if rm_table r \<noteq> RT_TABLE_MAIN \<or> rm_kind r \<noteq> Unicast then None
      else Option.bind (unspecified_of (rm_family r)) (\<lambda>destination.
        let v = foldl route_attr_step \<lparr>rv_destination = destination, rv_gateway = None, rv_oif = None, rv_metric = 0\<rparr>
                  (rm_attributes r)
        in map_option (\<lambda>oif.
             \<lparr>r_index = oif, r_destination = rv_destination v, r_prefix = rm_destination_prefix r,
              r_gateway = rv_gateway v, r_metric = rv_metric v, r_protocol = rm_protocol r\<rparr>) (rv_oif v)))"


section \<open>Asking the kernel\<close>

definition v4_is_link_local :: "ipv4 \<Rightarrow> bool" where
  "v4_is_link_local ip = (ip AND 0xffff0000 = 0xa9fe0000)"

text \<open>None: the shift count of the mask underflows (a prefix above 32), a panic where overflow is checked.\<close>

definition broadcast_of :: "ipv4 \<Rightarrow> u8 \<Rightarrow> ipv4 option" where
  "broadcast_of ip prefix =
     (if prefix = 0 then Some (ip OR NOT 0)
      else if 32 < prefix then None
      else Some (ip OR NOT (push_bit (32 - unat prefix) (- 1))))"

definition address_message :: "address \<Rightarrow> ipv4 option \<Rightarrow> address_msg option" where
  "address_message a bcast =
     (case a_address a of
        V4 ip \<Rightarrow>
          Option.bind (case bcast of Some b \<Rightarrow> Some b | None \<Rightarrow> broadcast_of ip (a_prefix a)) (\<lambda>bc.
          Some \<lparr>am_family = AfInet, am_prefix_len = a_prefix a, am_flags = [],
                am_scope = (if v4_is_link_local ip then ScopeLink else ScopeUniverse), am_index = a_index a,
                am_attributes = [AaLocal (V4 ip), AaAddress (V4 ip)] @ (if a_prefix a < 31 then [AaBroadcast bc] else [])\<rparr>)
      | V6 ip \<Rightarrow>
          Some \<lparr>am_family = AfInet6, am_prefix_len = a_prefix a, am_flags = [],
                am_scope = (if is_v6_link_local ip then ScopeLink else ScopeUniverse), am_index = a_index a,
                am_attributes = [AaAddress (V6 ip)] @ (if a_no_prefix_route a then [AaFlags [AddrNoprefixroute]] else [])
                  @ [AaCacheInfo (if a_deprecated a then 0 else - 1) (- 1)]\<rparr>)"

definition family_of :: "ipaddr \<Rightarrow> nl_family" where
  "family_of ip = (case ip of V4 _ \<Rightarrow> AfInet | V6 _ \<Rightarrow> AfInet6)"

definition route_message :: "route \<Rightarrow> route_msg" where
  "route_message r =
     \<lparr>rm_family = family_of (r_destination r), rm_destination_prefix = r_prefix r, rm_source_prefix = 0, rm_tos = 0,
      rm_table = RT_TABLE_MAIN, rm_protocol = r_protocol r,
      rm_scope = (if r_gateway r \<noteq> None then ScopeUniverse else ScopeLink), rm_kind = Unicast,
      rm_attributes = (if 0 < r_prefix r then [RaDestination (r_destination r)] else [])
        @ (case r_gateway r of Some g \<Rightarrow> [RaGateway g] | None \<Rightarrow> [])
        @ [RaOif (r_index r)] @ (if 0 < r_metric r then [RaPriority (r_metric r)] else [])\<rparr>"

abbreviation (input) NLM_F_REQUEST :: u16 where "NLM_F_REQUEST \<equiv> 0x1"
abbreviation (input) NLM_F_ACK :: u16 where "NLM_F_ACK \<equiv> 0x4"
abbreviation (input) NLM_F_DUMP_INTR :: u16 where "NLM_F_DUMP_INTR \<equiv> 0x10"
abbreviation (input) NLM_F_REPLACE :: u16 where "NLM_F_REPLACE \<equiv> 0x100"
abbreviation (input) NLM_F_EXCL :: u16 where "NLM_F_EXCL \<equiv> 0x200"
abbreviation (input) NLM_F_DUMP :: u16 where "NLM_F_DUMP \<equiv> 0x300"
abbreviation (input) NLM_F_CREATE :: u16 where "NLM_F_CREATE \<equiv> 0x400"
abbreviation (input) NLM_F_APPEND :: u16 where "NLM_F_APPEND \<equiv> 0x800"

definition link_message_default :: link_message where
  "link_message_default =
     \<lparr>lm_family = AfUnspec, lm_index = 0, lm_layer = LayerNetrom, lm_flags = [], lm_change = [], lm_attributes = []\<rparr>"

definition set_link_up :: "u32 \<Rightarrow> bool \<Rightarrow> rtnl_message" where
  "set_link_up index up =
     SetLink \<lparr>lm_family = AfUnspec, lm_index = index, lm_layer = LayerNetrom, lm_flags = (if up then [FlagUp] else []),
              lm_change = [FlagUp], lm_attributes = []\<rparr>"

definition set_mtu :: "u32 \<Rightarrow> u32 \<Rightarrow> rtnl_message" where
  "set_mtu index mtu = SetLink (link_message_default\<lparr>lm_index := index, lm_attributes := [LaMtu mtu]\<rparr>)"

text \<open>What \<^verbatim>\<open>apply\<close> asks of the routing socket for a step of a plan: the message and the flags of the request.\<close>

definition op_request :: "op \<Rightarrow> (rtnl_message \<times> u16) option" where
  "op_request p =
     (case p of
        LinkUp index \<Rightarrow> Some (set_link_up index True, 0)
      | LinkDown index \<Rightarrow> Some (set_link_up index False, 0)
      | Mtu index mtu \<Rightarrow> Some (set_mtu index mtu, 0)
      | AddAddress a b \<Rightarrow> map_option (\<lambda>m. (NewAddress m, NLM_F_CREATE OR NLM_F_REPLACE)) (address_message a b)
      | DelAddress a \<Rightarrow> map_option (\<lambda>m. (DelAddressMsg m, 0)) (address_message a None)
      | AddRoute r \<Rightarrow>
          Some (NewRoute (route_message r),
                if route_is_v4 r then NLM_F_CREATE OR NLM_F_APPEND else NLM_F_CREATE OR NLM_F_EXCL)
      | DelRoute r \<Rightarrow> Some (DelRouteMsg (route_message r), 0))"

section \<open>Replies\<close>

datatype nl_error = NlInvalid rstring | NlMalformed rstring | NlDumpInterrupted | NlErrno int | NlIo rstring

datatype nl_payload = NlDone u32 | NlAck u32 | NlInner rtnl_message | NlOverrun | NlOtherPayload

record nl_message =
  nm_length :: u32
  nm_flags :: u16
  nm_sequence :: u32
  nm_payload :: nl_payload

type_synonym nl_reader = "bytes \<Rightarrow> rstring + nl_message"

text \<open>A code is an \<^verbatim>\<open>i32\<close>: its value is \<^term>\<open>sint c\<close>.\<close>

definition check_reply_code :: "u32 \<Rightarrow> nl_error + unit" where
  "check_reply_code code =
     (if code = 0 then Inr ()
      else if sint code = - (2 ^ 31) \<or> \<not> 0 < - sint code then Inl (NlInvalid ''invalid netlink error code'')
      else Inl (NlErrno (- sint code)))"

definition reply_end :: "u32 \<Rightarrow> nl_error + rtnl_message list \<times> bool" where
  "reply_end code = (case check_reply_code code of Inl e \<Rightarrow> Inl e | Inr _ \<Rightarrow> Inr ([], True))"

fun reply_pass :: "rtnl_message \<Rightarrow> nl_error + rtnl_message list \<times> bool \<Rightarrow> nl_error + rtnl_message list \<times> bool" where
  "reply_pass x (Inl e) = Inl e"
| "reply_pass x (Inr (xs, complete)) = Inr (x # xs, complete)"

text \<open>
  \<^verbatim>\<open>decode_reply\<close> from an offset: the messages passed to the closure, and whether the request
  is complete.  After an error no caller uses what was passed before it.
\<close>

function decode_reply_loop :: "nl_reader \<Rightarrow> bytes \<Rightarrow> u32 \<Rightarrow> nat \<Rightarrow> nl_error + rtnl_message list \<times> bool" where
  "decode_reply_loop des bs seq offset =
     (if length bs \<le> offset then Inr ([], False)
      else (case des (drop offset bs) of
              Inl e \<Rightarrow> Inl (NlMalformed e)
            | Inr m \<Rightarrow>
                (let len = unat (nm_length m)
                 in if len < 16 \<or> length bs - offset < len then Inl (NlInvalid ''invalid netlink message length'')
                    else
                      (let rest = decode_reply_loop des bs seq (offset + 4 * ((len + 3) div 4))
                       in if nm_sequence m \<noteq> seq then rest
                          else if nm_flags m AND NLM_F_DUMP_INTR \<noteq> 0 then Inl NlDumpInterrupted
                          else (case nm_payload m of
                                  NlDone code \<Rightarrow> reply_end code
                                | NlAck code \<Rightarrow> reply_end code
                                | NlInner x \<Rightarrow> reply_pass x rest
                                | NlOverrun \<Rightarrow> Inl (NlInvalid ''netlink receive overrun'')
                                | NlOtherPayload \<Rightarrow> rest)))))"
  by pat_completeness auto

termination
  by (relation "measure (\<lambda>(des, bs, seq, offset). length bs - offset)") auto

declare decode_reply_loop.simps [simp del]

definition decode_reply :: "nl_reader \<Rightarrow> bytes \<Rightarrow> u32 \<Rightarrow> nl_error + rtnl_message list \<times> bool" where
  "decode_reply des bs seq =
     (if bs = [] then Inl (NlInvalid ''empty netlink reply'') else decode_reply_loop des bs seq 0)"

text \<open>What one \<^verbatim>\<open>recv\<close> returns: with \<^verbatim>\<open>MSG_TRUNC\<close> the length is that of the whole datagram.\<close>

datatype nl_recv = NlData bytes | NlInterrupted | NlFails rstring

abbreviation (input) NL_BUFFER :: nat where "NL_BUFFER \<equiv> 65536"

fun nl_receive :: "nl_reader \<Rightarrow> u32 \<Rightarrow> nl_recv list \<Rightarrow> (nl_error + rtnl_message list) option" where
  "nl_receive des seq [] = None"
| "nl_receive des seq (NlInterrupted # rs) = nl_receive des seq rs"
| "nl_receive des seq (NlFails e # rs) = Some (Inl (NlIo e))"
| "nl_receive des seq (NlData bs # rs) =
     (if NL_BUFFER < length bs then Some (Inl (NlInvalid ''truncated netlink datagram''))
      else (case decode_reply des bs seq of
              Inl e \<Rightarrow> Some (Inl e)
            | Inr (xs, True) \<Rightarrow> Some (Inr xs)
            | Inr (xs, False) \<Rightarrow> map_option (map_sum id (\<lambda>ys. xs @ ys)) (nl_receive des seq rs)))"

fun drain_events :: "nl_recv list \<Rightarrow> bool" where
  "drain_events [] = False"
| "drain_events (NlData bs # rs) = (bs \<noteq> [])"
| "drain_events (NlInterrupted # rs) = drain_events rs"
| "drain_events (NlFails e # rs) = True"


section \<open>Exchanges\<close>

definition next_sequence :: "u32 \<Rightarrow> u32" where
  "next_sequence s = max (s + 1) 1"

text \<open>
  \<open>ne_answer\<close> is what a request is met with, by its sequence number: a failure to send it, or
  what the socket receives afterwards.
\<close>

record nl_env =
  ne_answer :: "u32 \<Rightarrow> rtnl_message \<Rightarrow> u16 \<Rightarrow> rstring + nl_recv list"
  ne_reader :: nl_reader
  ne_layer_code :: "link_layer \<Rightarrow> u16"
  ne_wireless :: "rstring \<Rightarrow> bool"

definition nl_exchange :: "nl_env \<Rightarrow> u32 \<Rightarrow> rtnl_message \<Rightarrow> u16 \<Rightarrow> (u32 \<times> (nl_error + rtnl_message list)) option" where
  "nl_exchange env s msg flags =
     (let seq = next_sequence s
      in case ne_answer env seq msg flags of
           Inl e \<Rightarrow> Some (seq, Inl (NlIo e))
         | Inr rs \<Rightarrow> map_option (Pair seq) (nl_receive (ne_reader env) seq rs))"

definition nl_request :: "nl_env \<Rightarrow> u32 \<Rightarrow> rtnl_message \<Rightarrow> u16 \<Rightarrow> (u32 \<times> (nl_error + unit)) option" where
  "nl_request env s msg flags =
     map_option (\<lambda>(seq, r). (seq, map_sum id (\<lambda>_. ()) r)) (nl_exchange env s msg (NLM_F_REQUEST OR NLM_F_ACK OR flags))"

fun take_link :: "nl_env \<Rightarrow> observed \<Rightarrow> rtnl_message \<Rightarrow> observed" where
  "take_link env out (NewLink l) =
     (let link = link_from_message (ne_layer_code env) (ne_wireless env) l
      in out\<lparr>o_links := bt_insert (ln_index link) link (o_links out)\<rparr>)"
| "take_link env out m = out"

fun take_address :: "observed \<Rightarrow> rtnl_message \<Rightarrow> observed" where
  "take_address out (NewAddress a) =
     (case address_from_message a of Some x \<Rightarrow> out\<lparr>o_addresses := o_addresses out @ [x]\<rparr> | None \<Rightarrow> out)"
| "take_address out m = out"

fun take_route :: "observed \<Rightarrow> rtnl_message \<Rightarrow> observed" where
  "take_route out (NewRoute r) =
     (case route_from_message r of Some x \<Rightarrow> out\<lparr>o_routes := o_routes out @ [x]\<rparr> | None \<Rightarrow> out)"
| "take_route out m = out"

text \<open>One of the dumps, after the ones before it; an error ends them all.\<close>

definition dump_step ::
    "nl_env \<Rightarrow> rtnl_message \<Rightarrow> (observed \<Rightarrow> rtnl_message \<Rightarrow> observed) \<Rightarrow> u32 \<times> (nl_error + observed)
      \<Rightarrow> (u32 \<times> (nl_error + observed)) option" where
  "dump_step env get take' st =
     (case st of
        (s, Inl e) \<Rightarrow> Some (s, Inl e)
      | (s, Inr out) \<Rightarrow>
          map_option (\<lambda>(seq, r). (seq, map_sum id (foldl take' out) r))
            (nl_exchange env s get (NLM_F_REQUEST OR NLM_F_DUMP)))"

definition dump_links :: "nl_env \<Rightarrow> u32 \<times> (nl_error + observed) \<Rightarrow> (u32 \<times> (nl_error + observed)) option" where
  "dump_links env = dump_step env GetLink (take_link env)"

definition dump_addresses :: "nl_env \<Rightarrow> nl_family \<Rightarrow> u32 \<times> (nl_error + observed) \<Rightarrow> (u32 \<times> (nl_error + observed)) option" where
  "dump_addresses env family = dump_step env (GetAddress family) take_address"

definition dump_routes :: "nl_env \<Rightarrow> nl_family \<Rightarrow> u32 \<times> (nl_error + observed) \<Rightarrow> (u32 \<times> (nl_error + observed)) option" where
  "dump_routes env family = dump_step env (GetRoute family) take_route"

definition nl_dump :: "nl_env \<Rightarrow> u32 \<Rightarrow> (u32 \<times> (nl_error + observed)) option" where
  "nl_dump env s =
     Option.bind (dump_links env (s, Inr \<lparr>o_links = [], o_addresses = [], o_routes = []\<rparr>)) (\<lambda>st.
     Option.bind (dump_addresses env AfInet st) (\<lambda>st.
     Option.bind (dump_routes env AfInet st) (\<lambda>st.
     Option.bind (dump_addresses env AfInet6 st) (\<lambda>st.
     dump_routes env AfInet6 st))))"

section \<open>Replies are taken completely or not at all\<close>

text \<open>
  How a datagram holds messages: each at a multiple of four bytes, with the length its
  header gives; the last may lack its padding.
\<close>

inductive laid_out :: "nl_reader \<Rightarrow> bytes \<Rightarrow> nl_message list \<Rightarrow> bool" for des where
  none: "laid_out des [] []"
| one: "des (f @ bs) = Inr m \<Longrightarrow> laid_out des bs ms \<Longrightarrow> 16 \<le> unat (nm_length m) \<Longrightarrow> unat (nm_length m) \<le> length f \<Longrightarrow>
    length f \<le> 4 * ((unat (nm_length m) + 3) div 4) \<Longrightarrow>
    length f = 4 * ((unat (nm_length m) + 3) div 4) \<or> bs = [] \<Longrightarrow> laid_out des (f @ bs) (m # ms)"

text \<open>What the loop makes of a sequence of messages.\<close>

fun reply_spec :: "u32 \<Rightarrow> nl_message list \<Rightarrow> nl_error + rtnl_message list \<times> bool" where
  "reply_spec seq [] = Inr ([], False)"
| "reply_spec seq (m # ms) =
     (if nm_sequence m \<noteq> seq then reply_spec seq ms
      else if nm_flags m AND NLM_F_DUMP_INTR \<noteq> 0 then Inl NlDumpInterrupted
      else (case nm_payload m of
              NlDone code \<Rightarrow> reply_end code
            | NlAck code \<Rightarrow> reply_end code
            | NlInner x \<Rightarrow> reply_pass x (reply_spec seq ms)
            | NlOverrun \<Rightarrow> Inl (NlInvalid ''netlink receive overrun'')
            | NlOtherPayload \<Rightarrow> reply_spec seq ms))"

lemma decode_laid_out:
  "laid_out des bs ms \<Longrightarrow> decode_reply_loop des (pre @ bs) seq (length pre) = reply_spec seq ms"
proof (induction arbitrary: pre rule: laid_out.induct)
  case none
  then show ?case by (simp add: decode_reply_loop.simps)
next
  case (one f bs m ms)
  let ?n = "unat (nm_length m)"
  have rest: "decode_reply_loop des (pre @ f @ bs) seq (length pre + 4 * ((?n + 3) div 4)) = reply_spec seq ms"
  proof (cases "bs = []")
    case True
    then have "ms = []" using one.hyps(2) by (auto elim: laid_out.cases)
    then show ?thesis using True one.hyps(5) by (simp add: decode_reply_loop.simps)
  next
    case False
    then show ?thesis using one.IH [of "pre @ f"] one.hyps(6) by simp
  qed
  have "0 < length f" using one.hyps(3,4) by linarith
  then show ?case
    unfolding decode_reply_loop.simps [of des "pre @ f @ bs" seq "length pre"] using one.hyps rest
    by (simp add: Let_def)
qed


text \<open>Datagrams as they arrive, between interrupted calls, and all their messages in order.\<close>

inductive arrives :: "nl_reader \<Rightarrow> nl_recv list \<Rightarrow> nl_message list \<Rightarrow> bool" for des where
  silent: "arrives des [] []"
| interrupted: "arrives des rs ms \<Longrightarrow> arrives des (NlInterrupted # rs) ms"
| datagram: "laid_out des bs ms \<Longrightarrow> bs \<noteq> [] \<Longrightarrow> length bs \<le> NL_BUFFER \<Longrightarrow> arrives des rs ms' \<Longrightarrow>
    arrives des (NlData bs # rs) (ms @ ms')"

definition reply_result :: "nl_error + rtnl_message list \<times> bool \<Rightarrow> (nl_error + rtnl_message list) option" where
  "reply_result r = (case r of Inl e \<Rightarrow> Some (Inl e) | Inr (xs, complete) \<Rightarrow> if complete then Some (Inr xs) else None)"

text \<open>One reply after another.\<close>

fun reply_then ::
    "nl_error + rtnl_message list \<times> bool \<Rightarrow> nl_error + rtnl_message list \<times> bool \<Rightarrow> nl_error + rtnl_message list \<times> bool" where
  "reply_then (Inl e) r = Inl e"
| "reply_then (Inr (xs, True)) r = Inr (xs, True)"
| "reply_then (Inr (xs, False)) (Inl e) = Inl e"
| "reply_then (Inr (xs, False)) (Inr (ys, complete)) = Inr (xs @ ys, complete)"

lemma reply_then_simps [simp]:
  "reply_then (reply_end code) r = reply_end code" "reply_then (Inr ([], False)) r = r"
  "reply_then (reply_pass x q) r = reply_pass x (reply_then q r)"
proof -
  show "reply_then (reply_end code) r = reply_end code" by (simp add: reply_end_def split: sum.splits)
  show "reply_then (Inr ([], False)) r = r" by (cases r) auto
  show "reply_then (reply_pass x q) r = reply_pass x (reply_then q r)"
    by (cases "(q, r)" rule: reply_then.cases) auto
qed

lemma reply_spec_append: "reply_spec seq (ms @ ms') = reply_then (reply_spec seq ms) (reply_spec seq ms')"
  by (induction ms) (simp_all split: nl_payload.splits)

lemma receive_arrives: "arrives des rs ms \<Longrightarrow> nl_receive des seq rs = reply_result (reply_spec seq ms)"
proof (induction rule: arrives.induct)
  case (datagram bs ms rs ms')
  have "decode_reply des bs seq = reply_spec seq ms"
    using decode_laid_out [OF datagram(1), of "[]" seq] datagram(2) by (simp add: decode_reply_def)
  then show ?case
    using datagram
    by (cases "(reply_spec seq ms, reply_spec seq ms')" rule: reply_then.cases)
       (auto simp: reply_spec_append reply_result_def not_less)
qed (simp_all add: reply_result_def)

text \<open>The end of a request, and what may come before it.\<close>

definition ends :: "u32 \<Rightarrow> nl_message \<Rightarrow> bool" where
  "ends seq m = (nm_sequence m = seq \<and> nm_flags m AND NLM_F_DUMP_INTR = 0 \<and> nm_payload m \<in> {NlDone 0, NlAck 0})"

definition passes :: "u32 \<Rightarrow> nl_message \<Rightarrow> bool" where
  "passes seq m = (nm_sequence m \<noteq> seq \<or> nm_flags m AND NLM_F_DUMP_INTR = 0
     \<and> (nm_payload m = NlOtherPayload \<or> (\<exists>x. nm_payload m = NlInner x)))"

fun inner_of :: "u32 \<Rightarrow> nl_message list \<Rightarrow> rtnl_message list" where
  "inner_of seq [] = []"
| "inner_of seq (m # ms) =
     (case nm_payload m of NlInner x \<Rightarrow> if nm_sequence m = seq then [x] else [] | _ \<Rightarrow> []) @ inner_of seq ms"

lemma reply_end_ok: "reply_end code = Inr r \<longleftrightarrow> code = 0 \<and> r = ([], True)"
  by (auto simp: reply_end_def check_reply_code_def)

lemma reply_pass_ok: "reply_pass x r = Inr (xs, c) \<longleftrightarrow> (\<exists>ys. r = Inr (ys, c) \<and> xs = x # ys)"
  by (cases "(x, r)" rule: reply_pass.cases) auto

lemma reply_spec_complete:
  "reply_spec seq ms = Inr (xs, True) \<longleftrightarrow>
     (\<exists>pre m post. ms = pre @ m # post \<and> list_all (passes seq) pre \<and> ends seq m \<and> xs = inner_of seq pre)"
proof (induction ms arbitrary: xs)
  case (Cons m ms)
  let ?split = "\<lambda>ms xs. \<exists>pre m' post. ms = pre @ m' # post \<and> list_all (passes seq) pre \<and> ends seq m' \<and> xs = inner_of seq pre"
  have split: "?split (m # ms) xs \<longleftrightarrow> ends seq m \<and> xs = [] \<or> passes seq m \<and> (\<exists>ys. xs = inner_of seq [m] @ ys \<and> ?split ms ys)"
  proof
    assume "?split (m # ms) xs"
    then obtain pre m' post where "m # ms = pre @ m' # post" "list_all (passes seq) pre" "ends seq m'" "xs = inner_of seq pre"
      by blast
    then show "ends seq m \<and> xs = [] \<or> passes seq m \<and> (\<exists>ys. xs = inner_of seq [m] @ ys \<and> ?split ms ys)"
      by (cases pre) auto
  next
    assume "ends seq m \<and> xs = [] \<or> passes seq m \<and> (\<exists>ys. xs = inner_of seq [m] @ ys \<and> ?split ms ys)"
    then show "?split (m # ms) xs"
    proof
      assume "ends seq m \<and> xs = []"
      then show ?thesis by (intro exI [of _ "[]"] exI [of _ m] exI [of _ ms]) simp
    next
      assume "passes seq m \<and> (\<exists>ys. xs = inner_of seq [m] @ ys \<and> ?split ms ys)"
      then obtain pre m' post where "passes seq m" "xs = inner_of seq [m] @ inner_of seq pre" "ms = pre @ m' # post"
        "list_all (passes seq) pre" "ends seq m'" by blast
      then show ?thesis by (intro exI [of _ "m # pre"] exI [of _ m'] exI [of _ post]) simp
    qed
  qed
  show ?case
    unfolding split Cons.IH [symmetric]
    by (auto simp: ends_def passes_def reply_end_ok reply_pass_ok split: nl_payload.splits)
qed simp

lemma reply_spec_pending: "list_all (passes seq) ms \<Longrightarrow> reply_spec seq ms = Inr (inner_of seq ms, False)"
  by (induction ms) (auto simp: passes_def split: nl_payload.splits)

text \<open>
  C36: A netlink reply is taken completely or not at all.  However the kernel spreads the
  messages over datagrams, and whatever stale messages of other requests are among
  them, a request returns the messages of its reply, in order and all of them, exactly
  when the reply comes to its end: a successful DONE or acknowledgement of its own
  sequence number, before which no message of it was marked interrupted, reported an
  overrun or an error.  It does not return before the end has arrived.
\<close>

theorem netlink_reply_complete:
  assumes "arrives des rs ms"
  shows "(nl_receive des seq rs = Some (Inr xs) \<longleftrightarrow>
      (\<exists>pre m post. ms = pre @ m # post \<and> list_all (passes seq) pre \<and> ends seq m \<and> xs = inner_of seq pre))
    \<and> (list_all (passes seq) ms \<longrightarrow> nl_receive des seq rs = None)"
proof -
  have r: "nl_receive des seq rs = reply_result (reply_spec seq ms)" using receive_arrives [OF assms] .
  have "reply_result q = Some (Inr xs) \<longleftrightarrow> q = Inr (xs, True)" for q by (auto simp: reply_result_def split: sum.splits)
  then have "nl_receive des seq rs = Some (Inr xs) \<longleftrightarrow>
      (\<exists>pre m post. ms = pre @ m # post \<and> list_all (passes seq) pre \<and> ends seq m \<and> xs = inner_of seq pre)"
    by (simp add: r reply_spec_complete)
  moreover have "list_all (passes seq) ms \<longrightarrow> nl_receive des seq rs = None"
    using reply_spec_pending [of seq ms] by (simp add: r reply_result_def)
  ultimately show ?thesis by blast
qed


section \<open>What netd asks for is what it reads\<close>

definition plain_address :: "address \<Rightarrow> bool" where
  "plain_address a =
     (\<not> a_deprecated a \<and> \<not> a_tentative a
      \<and> (case a_address a of V4 _ \<Rightarrow> \<not> a_no_prefix_route a \<and> a_prefix a \<le> 32 | V6 _ \<Rightarrow> True))"

definition plain_route :: "route \<Rightarrow> bool" where
  "plain_route r = (r_prefix r = 0 \<longrightarrow> r_destination r \<in> {V4 0, V6 0})"

lemma broadcast_total: "prefix \<le> 32 \<Longrightarrow> \<exists>bc. broadcast_of ip prefix = Some bc"
  by (auto simp: broadcast_of_def)

text \<open>The broadcast address: the network's bits, and ones below them.\<close>

lemma broadcast_bits:
  assumes "prefix \<le> 32" "broadcast_of ip prefix = Some bc" "n < 32"
  shows "bit bc n \<longleftrightarrow> n < 32 - unat prefix \<or> bit ip n"
proof (cases "prefix = 0")
  case True
  then show ?thesis using assms(2,3) by (auto simp: broadcast_of_def bit_simps)
next
  case False
  then have "bc = ip OR NOT (push_bit (32 - unat prefix) (- 1))" using assms(1,2) leD [OF assms(1)] by (simp add: broadcast_of_def del: not_less)
  then show ?thesis using assms(3) by (auto simp: bit_simps)
qed

lemma address_asked:
  assumes "plain_address a"
  shows "\<exists>m. address_message a b = Some m \<and> address_from_message m = Some a"
proof (cases "a_address a")
  case (V4 ip)
  then have p: "a_prefix a \<le> 32" "\<not> a_deprecated a" "\<not> a_no_prefix_route a" "\<not> a_tentative a"
    using assms by (simp_all add: plain_address_def)
  obtain bc where "(case b of Some b \<Rightarrow> Some b | None \<Rightarrow> broadcast_of ip (a_prefix a)) = Some bc"
    using broadcast_total [OF p(1)] by (cases b) auto
  then obtain m where m: "address_message a b = Some m" "am_index m = a_index a" "am_prefix_len m = a_prefix a" "am_flags m = []"
      "am_attributes m = [AaLocal (V4 ip), AaAddress (V4 ip)] @ (if a_prefix a < 31 then [AaBroadcast bc] else [])"
    by (simp add: address_message_def V4)
  have "a = \<lparr>a_index = a_index a, a_address = V4 ip, a_prefix = a_prefix a, a_deprecated = False, a_no_prefix_route = False,
      a_tentative = False\<rparr>" using V4 p by (cases a) simp
  with m show ?thesis by (simp add: address_from_message_def)
next
  case (V6 ip)
  then show ?thesis
    using assms by (cases a) (simp add: address_message_def address_from_message_def plain_address_def)
qed

lemma route_asked:
  assumes "plain_route r"
  shows "route_from_message (route_message r) = Some r"
proof -
  have "unspecified_of (family_of (r_destination r)) = Some (V4 0) \<or> unspecified_of (family_of (r_destination r)) = Some (V6 0)"
    by (simp add: unspecified_of_def family_of_def split: ipaddr.splits)
  moreover have "\<not> 0 < r_prefix r \<Longrightarrow> unspecified_of (family_of (r_destination r)) = Some (r_destination r)"
    using assms by (auto simp: plain_route_def unspecified_of_def family_of_def word_neq_0_conv [symmetric])
  moreover have "\<not> 0 < r_metric r \<Longrightarrow> r_metric r = 0" by (simp add: word_neq_0_conv [symmetric])
  ultimately show ?thesis
    by (cases r) (auto simp: route_from_message_def route_message_def Let_def split: option.splits)
qed




text \<open>The five dumps are all there, or the state is not read.\<close>

lemma map_sum_id_Inr: "map_sum id f r = Inr y \<longleftrightarrow> (\<exists>x. r = Inr x \<and> y = f x)"
  by (cases r) auto

lemma dump_step_Inr:
  "dump_step env get take' st = Some (s', Inr out') \<longleftrightarrow>
     (\<exists>s out ms. st = (s, Inr out) \<and> nl_exchange env s get (NLM_F_REQUEST OR NLM_F_DUMP) = Some (s', Inr ms)
        \<and> out' = foldl take' out ms)"
  by (auto simp: dump_step_def map_sum_id_Inr split: prod.splits sum.splits)

lemma next_sequence_fresh: "next_sequence s \<noteq> 0" "next_sequence s \<noteq> s"
proof -
  show "next_sequence s \<noteq> 0" by (auto simp: next_sequence_def max_def)
  show "next_sequence s \<noteq> s"
  proof (cases "s + 1 = 0")
    case True
    then have "s = - 1" by (simp add: eq_neg_iff_add_eq_0)
    then show ?thesis by (simp add: next_sequence_def)
  next
    case False
    then have "1 \<le> s + 1" by (metis linorder_not_less word_less_1)
    then show ?thesis by (simp add: next_sequence_def max_def)
  qed
qed

section \<open>Witness\<close>

definition ex_reader :: nl_reader where
  "ex_reader bs =
     (if length bs = 40 then Inr \<lparr>nm_length = 19, nm_flags = 0, nm_sequence = 7, nm_payload = NlInner GetLink\<rparr>
      else if length bs = 20 then Inr \<lparr>nm_length = 20, nm_flags = 0, nm_sequence = 7, nm_payload = NlDone 0\<rparr>
      else Inl ''short'')"

theorem netlink_reply_complete_witness:
  "nl_receive ex_reader 7 [NlInterrupted, NlData (replicate 40 0)] = Some (Inr [GetLink])"
proof -
  let ?m = "\<lparr>nm_length = 19, nm_flags = 0, nm_sequence = 7, nm_payload = NlInner GetLink\<rparr> :: nl_message"
  let ?d = "\<lparr>nm_length = 20, nm_flags = 0, nm_sequence = 7, nm_payload = NlDone 0\<rparr> :: nl_message"
  have "laid_out ex_reader (replicate 20 0 @ []) [?d]"
    by (rule laid_out.one [OF _ laid_out.none]) (simp_all add: ex_reader_def)
  then have "laid_out ex_reader (replicate 20 0 @ replicate 20 0) [?m, ?d]"
    by (intro laid_out.one [of ex_reader "replicate 20 0" "replicate 20 0" ?m]) (simp_all add: ex_reader_def)
  moreover have "replicate 20 (0 :: u8) @ replicate 20 0 = replicate 40 0" by (simp add: replicate_add [symmetric])
  ultimately have "arrives ex_reader [NlInterrupted, NlData (replicate 40 0)] ([?m, ?d] @ [])"
    by (intro arrives.interrupted arrives.datagram arrives.silent) simp_all
  then have "arrives ex_reader [NlInterrupted, NlData (replicate 40 0)] ([?m] @ ?d # [])" by simp
  moreover have "list_all (passes 7) [?m]" "ends 7 ?d" "[GetLink] = inner_of 7 [?m]"
    by (simp_all add: passes_def ends_def)
  ultimately show ?thesis using netlink_reply_complete [of ex_reader _ "[?m] @ ?d # []" 7 "[GetLink]"] by blast
qed

end
