(* ===== verification/Ipv6_Socket.thy ===== *)
theory Ipv6_Socket
  imports Control_Wire
begin

text \<open>
  The IPv6 sockets (\<^verbatim>\<open>src/netd/src/ipv6.rs\<close> and \<^verbatim>\<open>src/netd/src/ipv6_datagram.rs\<close>): how a datagram and
  its metadata are checked before the protocol code sees them, what the two sockets
  read and send, the filter of the router-discovery socket, and the machine's secret.
  What \<^verbatim>\<open>recvmsg\<close> returns is an argument; opening and binding sockets is not modelled.
\<close>

section \<open>Datagrams and their metadata\<close>

abbreviation (input) AF_INET6 :: nat where "AF_INET6 \<equiv> 10"
abbreviation (input) SOCKADDR_IN6 :: nat where "SOCKADDR_IN6 \<equiv> 28"
abbreviation (input) IPPROTO_IPV6 :: nat where "IPPROTO_IPV6 \<equiv> 41"
abbreviation (input) IPV6_HOPLIMIT :: nat where "IPV6_HOPLIMIT \<equiv> 52"
abbreviation (input) MSG_CTRUNC :: u32 where "MSG_CTRUNC \<equiv> 0x8"
abbreviation (input) MSG_TRUNC :: u32 where "MSG_TRUNC \<equiv> 0x20"

text \<open>A control record with its payload, and a message as \<^verbatim>\<open>recvmsg\<close> leaves it.\<close>

record cmsg =
  cm_level :: nat
  cm_type :: nat
  cm_data :: bytes

record msghdr =
  mh_flags :: u32
  mh_namelen :: nat
  mh_family :: nat
  mh_source :: ipv6
  mh_control :: "cmsg list"
  mh_body :: bytes

datatype dg_error = DgInterrupted | DgInvalid rstring | DgOther

datatype recvmsg_result = Received msghdr | RecvError dg_error

record datagram =
  dg_source :: ipv6
  dg_hops :: "u8 option"
  dg_body :: bytes

definition validate_envelope :: "msghdr \<Rightarrow> dg_error + unit" where
  "validate_envelope m =
     (if mh_flags m AND (MSG_TRUNC OR MSG_CTRUNC) \<noteq> 0 then Inl (DgInvalid ''truncated IPv6 datagram or metadata'')
      else if mh_namelen m \<noteq> SOCKADDR_IN6 \<or> mh_family m \<noteq> AF_INET6 then Inl (DgInvalid ''invalid IPv6 source address'')
      else Inr ())"

text \<open>The records in turn; the value is a C \<^verbatim>\<open>int\<close>, converted to a byte if it fits.\<close>

fun hop_limit_loop :: "u8 option \<Rightarrow> cmsg list \<Rightarrow> dg_error + u8 option" where
  "hop_limit_loop hops [] = Inr hops"
| "hop_limit_loop hops (c # cs) =
     (if cm_level c = IPPROTO_IPV6 \<and> cm_type c = IPV6_HOPLIMIT then
        (if length (cm_data c) \<noteq> 4 then Inl (DgInvalid ''invalid IPv6 hop-limit size'')
         else (let value = sint (u32_of_le (cm_data c))
               in if 0 \<le> value \<and> value \<le> 255 then hop_limit_loop (Some (word_of_int value)) cs
                  else Inl (DgInvalid ''invalid IPv6 hop limit'')))
      else hop_limit_loop hops cs)"

definition hop_limit :: "msghdr \<Rightarrow> dg_error + u8 option" where
  "hop_limit m = hop_limit_loop None (mh_control m)"

definition datagram_receive :: "bool \<Rightarrow> recvmsg_result \<Rightarrow> dg_error + datagram" where
  "datagram_receive require_hops r =
     (case r of
        RecvError e \<Rightarrow> Inl e
      | Received m \<Rightarrow>
          then_with (validate_envelope m) (\<lambda>_.
          then_with (hop_limit m) (\<lambda>hops.
            if require_hops \<and> hops = None then Inl (DgInvalid ''missing IPv6 hop limit'')
            else Inr \<lparr>dg_source = mh_source m, dg_hops = hops, dg_body = mh_body m\<rparr>)))"

section \<open>The sockets\<close>

text \<open>Whether the read loop goes on after an error.\<close>

fun skips :: "dg_error \<Rightarrow> bool" where
  "skips DgInterrupted = True"
| "skips (DgInvalid m) = True"
| "skips DgOther = False"

fun icmp6_receive :: "recvmsg_result list \<Rightarrow> (ipv6 \<times> nat \<times> bytes) list" where
  "icmp6_receive [] = []"
| "icmp6_receive (r # rs) =
     (case datagram_receive True r of
        Inr d \<Rightarrow> (dg_source d, unat (case dg_hops d of Some h \<Rightarrow> h | None \<Rightarrow> 0), dg_body d) # icmp6_receive rs
      | Inl e \<Rightarrow> if skips e then icmp6_receive rs else [])"

fun dhcp6_socket_receive :: "recvmsg_result list \<Rightarrow> bytes list" where
  "dhcp6_socket_receive [] = []"
| "dhcp6_socket_receive (r # rs) =
     (case datagram_receive False r of
        Inr d \<Rightarrow> dg_body d # dhcp6_socket_receive rs
      | Inl e \<Rightarrow> if skips e then dhcp6_socket_receive rs else [])"

text \<open>The eight words of the filter: a set bit blocks the type.\<close>

definition icmp6_filter :: "u32 list" where
  "icmp6_filter =
     (let filter = replicate 8 (0xffffffff :: u32); i = unat (drop_bit 5 (134 :: u32))
      in filter[i := filter ! i AND NOT (push_bit (unat (134 AND 31 :: u32)) 1)])"

text \<open>Where a datagram goes: address, port and scope.\<close>

record sendto6 =
  st_to :: ipv6
  st_port :: u16
  st_scope :: u32
  st_payload :: bytes

definition ALL_ROUTERS :: ipv6 where "ALL_ROUTERS = 0xff020000000000000000000000000002"
definition ALL_DHCP_AGENTS :: ipv6 where "ALL_DHCP_AGENTS = 0xff020000000000000000000000010002"
definition DHCP6_SERVER_PORT :: u16 where "DHCP6_SERVER_PORT = 547"

definition icmp6_solicit :: "u32 \<Rightarrow> bytes \<Rightarrow> sendto6" where
  "icmp6_solicit ifindex body = \<lparr>st_to = ALL_ROUTERS, st_port = 0, st_scope = ifindex, st_payload = body\<rparr>"

definition dhcp6_send :: "u32 \<Rightarrow> bytes \<Rightarrow> sendto6" where
  "dhcp6_send ifindex payload =
     \<lparr>st_to = ALL_DHCP_AGENTS, st_port = DHCP6_SERVER_PORT, st_scope = ifindex, st_payload = payload\<rparr>"

section \<open>The secret\<close>

definition read_entropy :: "bytes \<Rightarrow> wire_error + bytes" where
  "read_entropy source = then_with (read_exact 32 source) (\<lambda>(s, rest). Inr s)"

definition fresh_secret :: "bytes option \<Rightarrow> wire_error + bytes \<times> bytes option" where
  "fresh_secret source =
     (case source of
        None \<Rightarrow> Inl (Io (OtherIo ''/dev/urandom''))
      | Some bs \<Rightarrow> then_with (read_entropy bs) (\<lambda>s. Inr (s, Some s)))"

text \<open>
  \<^verbatim>\<open>secret\<close>, from what the file holds and what the random source gives (none: it cannot be
  opened); the second result is what is written to the file.
\<close>

definition secret :: "bytes option \<Rightarrow> bytes option \<Rightarrow> wire_error + bytes \<times> bytes option" where
  "secret file source =
     (case file of
        Some bs \<Rightarrow> if length bs = 32 then Inr (bs, None) else fresh_secret source
      | None \<Rightarrow> fresh_secret source)"

section \<open>What reaches the protocol code\<close>

text \<open>A message that is complete, from an IPv6 address, and whose hop limits all read.\<close>

definition intact :: "msghdr \<Rightarrow> bool" where
  "intact m =
     (mh_flags m AND (MSG_TRUNC OR MSG_CTRUNC) = 0 \<and> mh_namelen m = SOCKADDR_IN6 \<and> mh_family m = AF_INET6
      \<and> list_all (\<lambda>c. cm_level c = IPPROTO_IPV6 \<and> cm_type c = IPV6_HOPLIMIT \<longrightarrow>
           length (cm_data c) = 4 \<and> 0 \<le> sint (u32_of_le (cm_data c)) \<and> sint (u32_of_le (cm_data c)) \<le> 255) (mh_control m))"

text \<open>The last hop limit the kernel attached.\<close>

definition hops_of :: "msghdr \<Rightarrow> u8 option" where
  "hops_of m =
     foldl (\<lambda>h c. if cm_level c = IPPROTO_IPV6 \<and> cm_type c = IPV6_HOPLIMIT
                  then Some (word_of_int (sint (u32_of_le (cm_data c)))) else h) None (mh_control m)"

lemma hop_limit_loop_exact:
  "hop_limit_loop h cs = Inr hops \<longleftrightarrow>
     list_all (\<lambda>c. cm_level c = IPPROTO_IPV6 \<and> cm_type c = IPV6_HOPLIMIT \<longrightarrow>
        length (cm_data c) = 4 \<and> 0 \<le> sint (u32_of_le (cm_data c)) \<and> sint (u32_of_le (cm_data c)) \<le> 255) cs
     \<and> hops = foldl (\<lambda>h c. if cm_level c = IPPROTO_IPV6 \<and> cm_type c = IPV6_HOPLIMIT
                  then Some (word_of_int (sint (u32_of_le (cm_data c)))) else h) h cs"
  by (induction h cs rule: hop_limit_loop.induct) (auto simp: Let_def)

lemma hop_limit_error: "hop_limit_loop h cs = Inl e \<Longrightarrow> skips e"
  by (induction h cs rule: hop_limit_loop.induct) (auto simp: Let_def split: if_splits)

lemma datagram_received:
  "datagram_receive need (Received m) = Inr d \<longleftrightarrow>
     intact m \<and> (need \<longrightarrow> hops_of m \<noteq> None)
     \<and> d = \<lparr>dg_source = mh_source m, dg_hops = hops_of m, dg_body = mh_body m\<rparr>"
proof (cases "hop_limit m")
  case (Inl e)
  then have "\<not> intact m"
    using hop_limit_loop_exact [of None "mh_control m" "hops_of m"] by (auto simp: hop_limit_def intact_def hops_of_def)
  then show ?thesis
    using Inl by (simp add: datagram_receive_def validate_envelope_def then_with_def)
next
  case (Inr hops)
  then show ?thesis
    using hop_limit_loop_exact [of None "mh_control m" hops]
    by (auto simp: datagram_receive_def validate_envelope_def then_with_def hop_limit_def intact_def hops_of_def)
qed

lemma datagram_refused: "datagram_receive need (Received m) = Inl e \<Longrightarrow> skips e"
  using hop_limit_error
  by (auto simp: datagram_receive_def validate_envelope_def then_with_def hop_limit_def split: if_splits sum.splits)

text \<open>The messages a read loop gets to: up to the first error that ends it.\<close>

fun got :: "recvmsg_result list \<Rightarrow> msghdr list" where
  "got [] = []"
| "got (Received m # rs) = m # got rs"
| "got (RecvError e # rs) = (if skips e then got rs else [])"

lemma datagram_cases:
  "(case datagram_receive need (Received m) of Inr d \<Rightarrow> f d | Inl e \<Rightarrow> if skips e then x else y) =
     (if intact m \<and> (need \<longrightarrow> hops_of m \<noteq> None)
      then f \<lparr>dg_source = mh_source m, dg_hops = hops_of m, dg_body = mh_body m\<rparr> else x)"
proof (cases "intact m \<and> (need \<longrightarrow> hops_of m \<noteq> None)")
  case True
  then have "datagram_receive need (Received m) = Inr \<lparr>dg_source = mh_source m, dg_hops = hops_of m, dg_body = mh_body m\<rparr>"
    by (simp add: datagram_received)
  then show ?thesis using True by simp
next
  case False
  then have "datagram_receive need (Received m) \<noteq> Inr d" for d using datagram_received by blast
  then obtain e where "datagram_receive need (Received m) = Inl e"
    by (cases "datagram_receive need (Received m)") blast+
  with datagram_refused [OF this] show ?thesis unfolding if_not_P [OF False] by simp
qed

lemma icmp6_exact:
  "icmp6_receive rs =
     map (\<lambda>m. (mh_source m, unat (the (hops_of m)), mh_body m)) (filter (\<lambda>m. intact m \<and> hops_of m \<noteq> None) (got rs))"
proof (induction rs rule: got.induct)
  case (2 m rs)
  then show ?case unfolding icmp6_receive.simps datagram_cases by auto
qed (simp_all add: datagram_receive_def)

lemma dhcp6_socket_exact: "dhcp6_socket_receive rs = map mh_body (filter intact (got rs))"
proof (induction rs rule: got.induct)
  case (2 m rs)
  then show ?case unfolding dhcp6_socket_receive.simps datagram_cases by auto
qed (simp_all add: datagram_receive_def)

lemma icmp6_filter_words: "icmp6_filter = [- 1, - 1, - 1, - 1, NOT (push_bit 6 1), - 1, - 1, - 1]"
  by code_simp

lemma icmp6_filter_exact:
  assumes "t < 256"
  shows "bit (icmp6_filter ! (t div 32)) (t mod 32) \<longleftrightarrow> t \<noteq> 134"
proof -
  have b: "bit (64 :: int) n \<longleftrightarrow> n = 6" for n
    using bit_exp_iff [where 'a = int, of 6 n] by simp
  have "t div 32 < 8" using assms by auto
  then have "t div 32 \<in> {0, 1, 2, 3, 4, 5, 6, 7}" by auto
  then have "bit (icmp6_filter ! (t div 32)) (t mod 32) \<longleftrightarrow> \<not> (t div 32 = 4 \<and> t mod 32 = 6)"
    by (auto simp: icmp6_filter_words bit_simps b)
  also have "t div 32 = 4 \<and> t mod 32 = 6 \<longleftrightarrow> t = 134" by presburger
  finally show ?thesis by simp
qed

lemma secret_kept:
  assumes "secret file source = Inr (s, written)"
  shows "length s = 32 \<and> secret (Some s) source' = Inr (s, None) \<and> (written = None \<and> file = Some s \<or> written = Some s)"
  using assms
  by (auto simp: secret_def fresh_secret_def read_entropy_def read_exact_def then_with_def
      split: option.splits if_splits sum.splits)

text \<open>
  C38: The IPv6 sockets deliver exactly what is intact.  Whatever the kernel returns, the
  router-discovery socket yields, in order, the source, hop limit and body of every
  message that came complete, from an IPv6 address, and with a hop limit that reads;
  the DHCPv6 socket the bodies of the complete ones; an interrupted call or a message
  that is refused is skipped without losing the ones behind it; and the filter of the
  router-discovery socket lets router advertisements pass and blocks every other type.
\<close>

theorem ipv6_receive_exact:
  "icmp6_receive rs =
     map (\<lambda>m. (mh_source m, unat (the (hops_of m)), mh_body m)) (filter (\<lambda>m. intact m \<and> hops_of m \<noteq> None) (got rs))
   \<and> dhcp6_socket_receive rs = map mh_body (filter intact (got rs))
   \<and> filter (\<lambda>t. \<not> bit (icmp6_filter ! (t div 32)) (t mod 32)) [0..<256] = [134]"
proof -
  have "filter (\<lambda>t. \<not> bit (icmp6_filter ! (t div 32)) (t mod 32)) [0..<256] = filter (\<lambda>t. t = 134) [0..<256]"
    by (rule filter_cong) (simp_all add: icmp6_filter_exact)
  also have "\<dots> = [134]" by code_simp
  finally show ?thesis using icmp6_exact dhcp6_socket_exact by blast
qed

end
