(* ===== verification/Event_Loop.thy ===== *)
theory Event_Loop
  imports Netd_State Dhcp4_Socket Netlink Ipv6_Socket
begin

text \<open>
  The event loop (\<^verbatim>\<open>run\<close>, \<^verbatim>\<open>PollSet\<close>, \<^verbatim>\<open>reload\<close> and the receivers of
  \<^verbatim>\<open>src/netd/src/event_loop.rs\<close>): the poll set, and one turn from the return of
  \<^verbatim>\<open>poll\<close> to the end of the loop's body, over the daemon's state, the clients of the
  control socket and the registry watch.

  What a turn finds is the record \<open>turn_in\<close>: which descriptors are ready, what the
  sockets, the registry and the listener return, and the successive readings of the
  clock.  A poll that is interrupted changes nothing, and one that fails ends the
  daemon; neither is a turn.
\<close>

section \<open>The poll set\<close>

type_synonym pollfd = "int \<times> poll_event"

text \<open>The descriptors the loop polls besides those of the clients; the sockets of the interfaces by index.\<close>

record poll_env =
  pe_rtnl :: int
  pe_listener :: int
  pe_absorber :: "int option"
  pe_dhcp :: "u32 \<Rightarrow> int"
  pe_ndp :: "u32 \<Rightarrow> int"
  pe_dhcp6 :: "u32 \<Rightarrow> int"

record poll_set =
  pl_fds :: "pollfd list"
  pl_control :: "(fd \<times> nat) list"
  pl_watch :: "nat option"
  pl_absorber :: "nat option"
  pl_dhcp :: "(u32 \<times> nat) list"
  pl_ndp :: "(u32 \<times> nat) list"
  pl_dhcp6 :: "(u32 \<times> nat) list"

definition pl_push :: "pollfd list \<Rightarrow> int \<Rightarrow> pollfd list \<times> nat" where
  "pl_push fds fd = (let fds = fds @ [(fd, POLLIN)] in (fds, length fds - 1))"

fun push_control :: "pollfd list \<Rightarrow> (fd \<times> poll_event) list \<Rightarrow> pollfd list \<times> (fd \<times> nat) list" where
  "push_control fds [] = (fds, [])"
| "push_control fds ((fd, events) # cs) =
     (let (fds, slot) = pl_push fds (int fd);
          fds = fds[slot := (fst (fds ! slot), events)];
          (fds, slots) = push_control fds cs
      in (fds, (fd, slot) # slots))"

fun push_maybe :: "pollfd list \<Rightarrow> int option \<Rightarrow> pollfd list \<times> nat option" where
  "push_maybe fds None = (fds, None)"
| "push_maybe fds (Some fd) = (let (fds, slot) = pl_push fds fd in (fds, Some slot))"

fun push_sockets :: "pollfd list \<Rightarrow> (u32 \<times> int) list \<Rightarrow> pollfd list \<times> (u32 \<times> nat) list" where
  "push_sockets fds [] = (fds, [])"
| "push_sockets fds ((index, fd) # ss) =
     (let (fds, slot) = pl_push fds fd; (fds, slots) = push_sockets fds ss in (fds, (index, slot) # slots))"

definition open_sockets :: "(iface \<Rightarrow> bool) \<Rightarrow> (u32 \<Rightarrow> int) \<Rightarrow> (u32, iface) btree \<Rightarrow> (u32 \<times> int) list" where
  "open_sockets has fd_of is = map (\<lambda>(index, i). (index, fd_of index)) (filter (\<lambda>(index, i). has i) is)"

definition poll_set_new :: "poll_env \<Rightarrow> (u32, iface) btree \<Rightarrow> clients \<Rightarrow> int option \<Rightarrow> poll_set" where
  "poll_set_new pe is cs watch =
     (let fds = [];
          (fds, rtnl_slot) = pl_push fds (pe_rtnl pe);
          (fds, listener_slot) = pl_push fds (if can_accept cs then pe_listener pe else - 1);
          (fds, control_slots) = push_control fds (clients_fds cs);
          (fds, watch_slot) = push_maybe fds watch;
          (fds, absorber_slot) = push_maybe fds (pe_absorber pe);
          (fds, dhcp_slots) = push_sockets fds (open_sockets (\<lambda>i. if_dhcp i \<noteq> None) (pe_dhcp pe) is);
          (fds, ndp_slots) = push_sockets fds (open_sockets (\<lambda>i. if_ndp i \<noteq> None) (pe_ndp pe) is);
          (fds, dhcp6_slots) = push_sockets fds (open_sockets (\<lambda>i. if_dhcp6 i \<noteq> None) (pe_dhcp6 pe) is)
      in \<lparr>pl_fds = fds, pl_control = control_slots, pl_watch = watch_slot, pl_absorber = absorber_slot,
          pl_dhcp = dhcp_slots, pl_ndp = ndp_slots, pl_dhcp6 = dhcp6_slots\<rparr>)"

section \<open>Receiving\<close>

fun receive4_all :: "instant \<Rightarrow> iface \<Rightarrow> message list \<Rightarrow> iface \<times> bool \<times> outgoing list" where
  "receive4_all now i [] = (i, False, [])"
| "receive4_all now i (m # ms) =
     (let (i, r, outs) = receive4 now i m; (i, r', outs') = receive4_all now i ms in (i, r \<or> r', outs @ outs'))"

fun receive_nd_all ::
    "(bytes \<Rightarrow> bytes) \<Rightarrow> instant \<Rightarrow> iface \<Rightarrow> (ipv6 \<times> nat \<times> bytes) list \<Rightarrow> (iface \<times> bool \<times> outgoing list) option" where
  "receive_nd_all sha1 now i [] = Some (i, False, [])"
| "receive_nd_all sha1 now i (m # ms) =
     Option.bind (receive_nd sha1 now i m) (\<lambda>(i, c, outs).
     map_option (\<lambda>(i, c', outs'). (i, c \<or> c', outs @ outs')) (receive_nd_all sha1 now i ms))"

fun receive6_all :: "instant \<Rightarrow> iface \<Rightarrow> bytes list \<Rightarrow> iface \<times> bool \<times> outgoing list" where
  "receive6_all now i [] = (i, False, [])"
| "receive6_all now i (m # ms) =
     (let (i, r, outs) = receive6 now i m; (i, r', outs') = receive6_all now i ms in (i, r \<or> r', outs @ outs'))"

text \<open>\<open>ready\<close> tells of a slot whether \<^verbatim>\<open>revents\<close> is set; a socket that is gone has no messages.\<close>

fun receive_dhcp ::
    "(nat \<Rightarrow> bool) \<Rightarrow> (u32 \<Rightarrow> message list) \<Rightarrow> instant \<Rightarrow> (u32 \<times> nat) list \<Rightarrow> (u32, iface) btree
      \<Rightarrow> (u32, iface) btree \<times> bool \<times> outgoing list" where
  "receive_dhcp ready msgs now [] is = (is, False, [])"
| "receive_dhcp ready msgs now ((index, slot) # ss) is =
     (if \<not> ready slot then receive_dhcp ready msgs now ss is
      else (case bt_get is index of
              None \<Rightarrow> receive_dhcp ready msgs now ss is
            | Some i \<Rightarrow>
                (let (i, r, outs) = receive4_all now i (if if_dhcp i = None then [] else msgs index);
                     (is, r', outs') = receive_dhcp ready msgs now ss (bt_insert index i is)
                 in (is, r \<or> r', outs @ outs'))))"

fun receive_ndp ::
    "(bytes \<Rightarrow> bytes) \<Rightarrow> (nat \<Rightarrow> bool) \<Rightarrow> (u32 \<Rightarrow> (ipv6 \<times> nat \<times> bytes) list) \<Rightarrow> instant \<Rightarrow> (u32 \<times> nat) list
      \<Rightarrow> (u32, iface) btree \<Rightarrow> ((u32, iface) btree \<times> bool \<times> outgoing list) option" where
  "receive_ndp sha1 ready msgs now [] is = Some (is, False, [])"
| "receive_ndp sha1 ready msgs now ((index, slot) # ss) is =
     (if \<not> ready slot then receive_ndp sha1 ready msgs now ss is
      else (case bt_get is index of
              None \<Rightarrow> receive_ndp sha1 ready msgs now ss is
            | Some i \<Rightarrow>
                Option.bind (receive_nd_all sha1 now i (if if_ndp i = None then [] else msgs index)) (\<lambda>(i, c, outs).
                map_option (\<lambda>(is, c', outs'). (is, c \<or> c', outs @ outs'))
                  (receive_ndp sha1 ready msgs now ss (bt_insert index i is)))))"

fun receive_dhcp6 ::
    "(nat \<Rightarrow> bool) \<Rightarrow> (u32 \<Rightarrow> bytes list) \<Rightarrow> instant \<Rightarrow> (u32 \<times> nat) list \<Rightarrow> (u32, iface) btree
      \<Rightarrow> (u32, iface) btree \<times> bool \<times> outgoing list" where
  "receive_dhcp6 ready msgs now [] is = (is, False, [])"
| "receive_dhcp6 ready msgs now ((index, slot) # ss) is =
     (if \<not> ready slot then receive_dhcp6 ready msgs now ss is
      else (case bt_get is index of
              None \<Rightarrow> receive_dhcp6 ready msgs now ss is
            | Some i \<Rightarrow>
                (let (i, r, outs) = receive6_all now i (if if_dhcp6 i = None then [] else msgs index);
                     (is, r', outs') = receive_dhcp6 ready msgs now ss (bt_insert index i is)
                 in (is, r \<or> r', outs @ outs'))))"

section \<open>One turn\<close>

datatype watch_read = WatchEvents bool | WatchFails "int option"

record ('f, 'e, 'k, 'sid) turn_in =
  ti_world :: "('f, 'e, 'k, 'sid) world"
  ti_now :: instant
  ti_ready :: "nat \<Rightarrow> bool"
  ti_drained :: "nl_recv list"
  ti_watch :: watch_read
  ti_config :: "config option"
  ti_dhcp :: "u32 \<Rightarrow> recv_result list"
  ti_ndp :: "u32 \<Rightarrow> recvmsg_result list"
  ti_dhcp6 :: "u32 \<Rightarrow> recvmsg_result list"
  ti_read :: "fd \<Rightarrow> nat \<Rightarrow> io_error_kind + bytes"
  ti_write :: "fd \<Rightarrow> bytes \<Rightarrow> io_error_kind + nat"
  ti_accept :: "fd list \<Rightarrow> accepted list"
  ti_clock :: "nat \<Rightarrow> instant"

record ('f, 'k) loop =
  lp_netd :: "'f netd"
  lp_kernel :: 'k
  lp_clients :: clients
  lp_watch :: "int option"

text \<open>The kernel's state is read again when its events say that it changed.\<close>

definition drain_links :: "('f, 'e, 'k, 'sid) turn_in \<Rightarrow> 'k \<Rightarrow> 'f netd \<Rightarrow> 'f netd \<times> bool" where
  "drain_links ti k nd =
     (if ti_ready ti 0 \<and> drain_events (ti_drained ti)
      then (case w_dump (ti_world ti) k of Some ob \<Rightarrow> (nd\<lparr>nd_observed := ob\<rparr>, True) | None \<Rightarrow> (nd, False))
      else (nd, False))"

text \<open>\<^verbatim>\<open>reload\<close> with the watch it reads, and re-arms when reading it fails.\<close>

definition reload_watch ::
    "('f, 'e, 'k, 'sid) turn_in \<Rightarrow> nat option \<Rightarrow> int option \<Rightarrow> 'f netd \<Rightarrow> 'f netd \<times> int option \<times> bool" where
  "reload_watch ti slot watch nd =
     (case slot of
        Some slot \<Rightarrow>
          if ti_ready ti slot \<and> watch \<noteq> None then
            (case ti_watch ti of
               WatchEvents True \<Rightarrow> (let (nd, again) = reload (ti_world ti) (ti_config ti) nd in (nd, watch, again))
             | WatchEvents False \<Rightarrow> (nd, watch, False)
             | WatchFails armed \<Rightarrow> (nd, armed, False))
          else (nd, watch, False)
      | None \<Rightarrow> (nd, watch, False))"

text \<open>
  The requests of the ready clients in turn.  The readings of the clock are numbered:
  \<open>n\<close> is the next one.  The reply, if one is owed, is queued on the stream it came from.
\<close>

fun serve_control ::
    "('f, 'e, 'k, 'sid) turn_in \<Rightarrow> nat \<Rightarrow> (fd \<times> nat) list \<Rightarrow> 'f netd \<Rightarrow> 'k \<Rightarrow> clients
      \<Rightarrow> ('f netd \<times> 'k \<times> clients \<times> effect list) option" where
  "serve_control ti n [] nd k cs = Some (nd, k, cs, [])"
| "serve_control ti n ((fd, slot) # ss) nd k cs =
     (if \<not> ti_ready ti slot then serve_control ti (n + 3) ss nd k cs
      else
        Option.bind (clients_service (w_control (ti_world ti)) (ti_read ti fd) (ti_write ti fd) fd (ti_clock ti n) cs)
          (\<lambda>(cs, taken).
        case taken of
          None \<Rightarrow> serve_control ti (n + 3) ss nd k cs
        | Some (stream, request) \<Rightarrow>
            Option.bind (handle_control (ti_world ti) (ti_clock ti (n + 1)) nd k stream request) (\<lambda>(nd, k, outs, reply).
            Option.bind
              (case reply of
                 None \<Rightarrow> Some cs
               | Some reply \<Rightarrow> clients_reply (w_control (ti_world ti)) stream reply (ti_clock ti (n + 2)) cs) (\<lambda>cs.
            map_option (\<lambda>(nd, k, cs, outs'). (nd, k, cs, outs @ outs')) (serve_control ti (n + 3) ss nd k cs)))))"

text \<open>The descriptors of the streams the daemon holds.\<close>

definition streams :: "'f netd \<Rightarrow> clients \<Rightarrow> fd list" where
  "streams nd cs = map fst cs @ nd_subscribers nd"

definition accept_ready :: "('f, 'e, 'k, 'sid) turn_in \<Rightarrow> nat \<Rightarrow> 'f netd \<Rightarrow> clients \<Rightarrow> clients" where
  "accept_ready ti n nd cs =
     (if ti_ready ti 1 then clients_accept (ti_accept ti (streams nd cs)) (ti_clock ti n) cs else cs)"

text \<open>The first half: the kernel's events, the registry, the sockets and the timers, and what they call for.\<close>

definition gather ::
    "('f, 'e, 'k, 'sid) turn_in \<Rightarrow> poll_set \<Rightarrow> ('f, 'k) loop
      \<Rightarrow> ('f netd \<times> int option \<times> bool \<times> bool \<times> outgoing list) option" where
  "gather ti ps lp =
     (let now = ti_now ti;
          (nd, c0) = drain_links ti (lp_kernel lp) (lp_netd lp);
          (nd, watch, c1) = reload_watch ti (pl_watch ps) (lp_watch lp) nd;
          (is, r1, o1) = receive_dhcp (ti_ready ti) (\<lambda>index. ps_receive (ti_dhcp ti index)) now (pl_dhcp ps)
                           (nd_interfaces nd)
      in Option.bind (receive_ndp (w_sha1 (ti_world ti)) (ti_ready ti) (\<lambda>index. icmp6_receive (ti_ndp ti index)) now (pl_ndp ps) is) (\<lambda>(is, c2, o2).
         let (is, r2, o3) = receive_dhcp6 (ti_ready ti) (\<lambda>index. dhcp6_socket_receive (ti_dhcp6 ti index)) now (pl_dhcp6 ps) is
         in map_option (\<lambda>(is, c3, r3, o4).
              (nd\<lparr>nd_interfaces := is\<rparr>, watch, c0 \<or> c1 \<or> c2 \<or> c3, r1 \<or> r2 \<or> r3, o1 @ o2 @ o3 @ o4)) (tick_all now is)))"

definition turn :: "poll_env \<Rightarrow> ('f, 'e, 'k, 'sid) turn_in \<Rightarrow> ('f, 'k) loop \<Rightarrow> (('f, 'k) loop \<times> effect list) option" where
  "turn pe ti lp =
     (let ps = poll_set_new pe (nd_interfaces (lp_netd lp)) (lp_clients lp) (lp_watch lp)
      in Option.bind (gather ti ps lp) (\<lambda>(nd, watch, c, r, o1).
         let cs = clients_expire (ti_clock ti 0) (lp_clients lp)
         in Option.bind (serve_control ti 1 (pl_control ps) nd (lp_kernel lp) cs) (\<lambda>(nd, k, cs, o2).
            let cs = accept_ready ti (1 + 3 * length (pl_control ps)) nd cs
            in map_option (\<lambda>(nd, k, o3).
                 (\<lparr>lp_netd = nd, lp_kernel = k, lp_clients = cs, lp_watch = watch\<rparr>, map Packet o1 @ o2 @ o3))
                 (settle (ti_world ti) (ti_now ti) c r nd k))))"

section \<open>The poll set holds every descriptor once\<close>

lemma push_control_eq:
  "push_control fds cs =
     (fds @ map (\<lambda>(fd, e). (int fd, e)) cs, zip (map fst cs) [length fds..<length fds + length cs])"
proof (induction cs arbitrary: fds)
  case (Cons c cs)
  obtain fd e where c: "c = (fd, e)" by force
  show ?case
    unfolding c by (simp add: pl_push_def Let_def Cons.IH split_def upt_conv_Cons del: upt_Suc)
qed simp

lemma push_sockets_eq:
  "push_sockets fds ss =
     (fds @ map (\<lambda>(index, fd). (fd, POLLIN)) ss, zip (map fst ss) [length fds..<length fds + length ss])"
proof (induction ss arbitrary: fds)
  case (Cons s ss)
  obtain index fd where s: "s = (index, fd)" by force
  show ?case
    unfolding s by (simp add: pl_push_def Let_def Cons.IH split_def upt_conv_Cons del: upt_Suc)
qed simp

fun opt_list :: "'a option \<Rightarrow> 'a list" where
  "opt_list None = []"
| "opt_list (Some x) = [x]"

lemma push_maybe_eq:
  "push_maybe fds x = (fds @ map (\<lambda>fd. (fd, POLLIN)) (opt_list x), map_option (\<lambda>_. length fds) x)"
  by (cases x) (simp_all add: pl_push_def)

text \<open>The entries behind the slots of one push.\<close>

lemma slots_entries:
  assumes "n = length pre" "l = length es"
  shows "map (\<lambda>(x, s). (x, (pre @ map g es @ post) ! s)) (zip (map f es) [n..<n + l]) = map (\<lambda>e. (f e, g e)) es"
  by (rule nth_equalityI) (simp_all add: assms nth_append)

definition sockets4 :: "poll_env \<Rightarrow> (u32, iface) btree \<Rightarrow> (u32 \<times> int) list" where
  "sockets4 pe is = open_sockets (\<lambda>i. if_dhcp i \<noteq> None) (pe_dhcp pe) is"

definition sockets_nd :: "poll_env \<Rightarrow> (u32, iface) btree \<Rightarrow> (u32 \<times> int) list" where
  "sockets_nd pe is = open_sockets (\<lambda>i. if_ndp i \<noteq> None) (pe_ndp pe) is"

definition sockets6 :: "poll_env \<Rightarrow> (u32, iface) btree \<Rightarrow> (u32 \<times> int) list" where
  "sockets6 pe is = open_sockets (\<lambda>i. if_dhcp6 i \<noteq> None) (pe_dhcp6 pe) is"

definition fixed_fds :: "poll_env \<Rightarrow> clients \<Rightarrow> int option \<Rightarrow> pollfd list" where
  "fixed_fds pe cs watch =
     [(pe_rtnl pe, POLLIN), (if can_accept cs then pe_listener pe else - 1, POLLIN)]
     @ map (\<lambda>(fd, e). (int fd, e)) (clients_fds cs)
     @ map (\<lambda>fd. (fd, POLLIN)) (opt_list watch) @ map (\<lambda>fd. (fd, POLLIN)) (opt_list (pe_absorber pe))"

lemma length_clients_fds [simp]: "length (clients_fds cs) = length cs"
  by (simp add: clients_fds_def)

lemmas push_eqs = pl_push_def push_control_eq push_maybe_eq push_sockets_eq

lemma poll_set_shape:
  fixes pe "is" cs watch
  defines "ps \<equiv> poll_set_new pe is cs watch"
    and "n4 \<equiv> length (fixed_fds pe cs watch)" and "nn \<equiv> length (fixed_fds pe cs watch) + length (sockets4 pe is)"
    and "n6 \<equiv> length (fixed_fds pe cs watch) + length (sockets4 pe is) + length (sockets_nd pe is)"
  shows poll_set_fds: "pl_fds ps = fixed_fds pe cs watch @ map (\<lambda>e. (snd e, POLLIN)) (sockets4 pe is)
        @ map (\<lambda>e. (snd e, POLLIN)) (sockets_nd pe is) @ map (\<lambda>e. (snd e, POLLIN)) (sockets6 pe is)"
    and poll_set_control: "pl_control ps = zip (map fst (clients_fds cs)) [2..<2 + length (clients_fds cs)]"
    and poll_set_watch: "pl_watch ps = map_option (\<lambda>_. 2 + length cs) watch"
    and poll_set_absorber: "pl_absorber ps = map_option (\<lambda>_. 2 + length cs + length (opt_list watch)) (pe_absorber pe)"
    and poll_set_dhcp: "pl_dhcp ps = zip (map fst (sockets4 pe is)) [n4..<n4 + length (sockets4 pe is)]"
    and poll_set_ndp: "pl_ndp ps = zip (map fst (sockets_nd pe is)) [nn..<nn + length (sockets_nd pe is)]"
    and poll_set_dhcp6: "pl_dhcp6 ps = zip (map fst (sockets6 pe is)) [n6..<n6 + length (sockets6 pe is)]"
  unfolding ps_def n4_def nn_def n6_def poll_set_new_def push_eqs fixed_fds_def sockets4_def sockets_nd_def sockets6_def Let_def
  by (simp_all add: split_def add.assoc numeral_2_eq_2 del: upt_Suc)

text \<open>The slots handed out, in order, are all the positions.\<close>

lemma poll_slots_all:
  fixes pe "is" cs watch
  defines "ps \<equiv> poll_set_new pe is cs watch"
  shows "0 # 1 # map snd (pl_control ps) @ opt_list (pl_watch ps) @ opt_list (pl_absorber ps)
    @ map snd (pl_dhcp ps) @ map snd (pl_ndp ps) @ map snd (pl_dhcp6 ps) = [0..<length (pl_fds ps)]"
proof -
  have len: "length (fixed_fds pe cs watch) = 2 + length cs + length (opt_list watch) + length (opt_list (pe_absorber pe))"
    by (simp add: fixed_fds_def)
  have upto: "[a..<b] @ [b..<c] = [a..<c]" if "a \<le> b" "b \<le> c" for a b c :: nat
    using upt_add_eq_append [of a b "c - b"] that by simp
  have o: "opt_list (map_option (\<lambda>_. n) x) = [n..<n + length (opt_list x)]" for n :: nat and x :: "int option"
    by (cases x) simp_all
  have two: "0 # Suc 0 # [2..<n] = [0..<n]" if "2 \<le> n" for n
    using that by (simp add: upt_conv_Cons numeral_2_eq_2 del: upt_Suc)
  show ?thesis
    by (simp add: ps_def poll_set_fds poll_set_control poll_set_watch poll_set_absorber poll_set_dhcp poll_set_ndp
        poll_set_dhcp6 o len upto two append_assoc [symmetric] del: append_assoc upt_Suc)
qed

text \<open>
  C34: The poll set is exact.  Whatever the interfaces and clients, the slots that are
  handed out are all the positions of the set, each once and in order: the routing
  socket, the listener (masked while the clients are at their ceiling), one per client,
  the watch, the absorber, and one per open socket of each kind; and the entry at each
  slot is the descriptor of the client or of the interface the slot is recorded for,
  with the events its state waits for.  Readiness is never credited to another.
\<close>

theorem poll_set_exact:
  "let ps = poll_set_new pe is cs watch; fds = pl_fds ps in
     0 # 1 # map snd (pl_control ps) @ opt_list (pl_watch ps) @ opt_list (pl_absorber ps)
        @ map snd (pl_dhcp ps) @ map snd (pl_ndp ps) @ map snd (pl_dhcp6 ps) = [0..<length fds]
   \<and> fds ! 0 = (pe_rtnl pe, POLLIN) \<and> fds ! 1 = (if length cs < 64 then pe_listener pe else - 1, POLLIN)
   \<and> map (\<lambda>(fd, s). (fd, fds ! s)) (pl_control ps) =
       map (\<lambda>(fd, c). (fd, int fd, case cl_state c of Reading _ \<Rightarrow> POLLIN | Writing _ _ \<Rightarrow> POLLOUT)) cs
   \<and> map_option (\<lambda>s. fds ! s) (pl_watch ps) = map_option (\<lambda>fd. (fd, POLLIN)) watch
   \<and> map_option (\<lambda>s. fds ! s) (pl_absorber ps) = map_option (\<lambda>fd. (fd, POLLIN)) (pe_absorber pe)
   \<and> map (\<lambda>(ix, s). (ix, fds ! s)) (pl_dhcp ps) =
       map (\<lambda>(ix, i). (ix, pe_dhcp pe ix, POLLIN)) (filter (\<lambda>e. if_dhcp (snd e) \<noteq> None) is)
   \<and> map (\<lambda>(ix, s). (ix, fds ! s)) (pl_ndp ps) =
       map (\<lambda>(ix, i). (ix, pe_ndp pe ix, POLLIN)) (filter (\<lambda>e. if_ndp (snd e) \<noteq> None) is)
   \<and> map (\<lambda>(ix, s). (ix, fds ! s)) (pl_dhcp6 ps) =
       map (\<lambda>(ix, i). (ix, pe_dhcp6 pe ix, POLLIN)) (filter (\<lambda>e. if_dhcp6 (snd e) \<noteq> None) is)"
proof -
  let ?ps = "poll_set_new pe is cs watch"
  let ?f = "fixed_fds pe cs watch" and ?s = "\<lambda>ss :: (u32 \<times> int) list. map (\<lambda>e. (snd e, POLLIN)) ss"
  note all = poll_slots_all [of pe "is" cs watch]
  have c: "map (\<lambda>(fd, s). (fd, pl_fds ?ps ! s)) (pl_control ?ps) =
       map (\<lambda>(fd, c). (fd, int fd, case cl_state c of Reading _ \<Rightarrow> POLLIN | Writing _ _ \<Rightarrow> POLLOUT)) cs"
    using slots_entries [of 2 "[(pe_rtnl pe, POLLIN), (if can_accept cs then pe_listener pe else - 1, POLLIN)]"
        "length cs" "clients_fds cs" "\<lambda>e. (int (fst e), snd e)"
        "map (\<lambda>fd. (fd, POLLIN)) (opt_list watch) @ map (\<lambda>fd. (fd, POLLIN)) (opt_list (pe_absorber pe))
          @ ?s (sockets4 pe is) @ ?s (sockets_nd pe is) @ ?s (sockets6 pe is)" fst]
    by (simp add: poll_set_fds poll_set_control fixed_fds_def split_def clients_fds_def comp_def)
  have 4: "map (\<lambda>(ix, s). (ix, pl_fds ?ps ! s)) (pl_dhcp ?ps) = map (\<lambda>e. (fst e, snd e, POLLIN)) (sockets4 pe is)"
    unfolding poll_set_fds poll_set_dhcp by (rule slots_entries) simp_all
  have n: "map (\<lambda>(ix, s). (ix, pl_fds ?ps ! s)) (pl_ndp ?ps) = map (\<lambda>e. (fst e, snd e, POLLIN)) (sockets_nd pe is)"
    using slots_entries [of _ "?f @ ?s (sockets4 pe is)" _ "sockets_nd pe is" "\<lambda>e. (snd e, POLLIN)" "?s (sockets6 pe is)" fst]
    by (simp add: poll_set_fds poll_set_ndp)
  have 6: "map (\<lambda>(ix, s). (ix, pl_fds ?ps ! s)) (pl_dhcp6 ?ps) = map (\<lambda>e. (fst e, snd e, POLLIN)) (sockets6 pe is)"
    using slots_entries [of _ "?f @ ?s (sockets4 pe is) @ ?s (sockets_nd pe is)" _ "sockets6 pe is" "\<lambda>e. (snd e, POLLIN)" "[]" fst]
    by (simp add: poll_set_fds poll_set_dhcp6 add.assoc)
  have w: "map_option (\<lambda>s. pl_fds ?ps ! s) (pl_watch ?ps) = map_option (\<lambda>fd. (fd, POLLIN)) watch"
     "map_option (\<lambda>s. pl_fds ?ps ! s) (pl_absorber ?ps) = map_option (\<lambda>fd. (fd, POLLIN)) (pe_absorber pe)"
    by (cases watch; cases "pe_absorber pe";
        simp add: poll_set_fds poll_set_watch poll_set_absorber fixed_fds_def nth_append)+
  have "pl_fds ?ps ! 0 = (pe_rtnl pe, POLLIN)" "pl_fds ?ps ! 1 = (if length cs < 64 then pe_listener pe else - 1, POLLIN)"
    by (simp_all add: poll_set_fds fixed_fds_def can_accept_def MAX_CLIENTS_def)
  with all c w 4 n 6 show ?thesis
    by (simp add: Let_def sockets4_def sockets_nd_def sockets6_def open_sockets_def split_def comp_def)
qed


section \<open>Only the routers of the link are believed\<close>

lemma receive_nd_all_trusted:
  "receive_nd_all sha1 now i ms = receive_nd_all sha1 now i (filter (\<lambda>(source, hops, body). hops = 255 \<and> is_v6_link_local source) ms)"
proof (induction ms arbitrary: i)
  case (Cons m ms)
  obtain source hops body where m: "m = (source, hops, body)" using prod_cases3 by blast
  show ?case
  proof (cases "hops = 255 \<and> is_v6_link_local source")
    case True
    have "receive_nd_all sha1 now i (m # ms) = Option.bind (receive_nd sha1 now i m) (\<lambda>(i, c, outs).
        map_option (\<lambda>(i, c', outs'). (i, c \<or> c', outs @ outs'))
          (receive_nd_all sha1 now i (filter (\<lambda>(source, hops, body). hops = 255 \<and> is_v6_link_local source) ms)))"
      by (simp flip: Cons.IH)
    then show ?thesis using True by (simp add: m)
  next
    case False
    have "receive_nd_all sha1 now i (m # ms) = receive_nd_all sha1 now i ms"
      using False by (auto simp: m receive_nd_def option.map_ident_strong split_def intro!: option.map_ident_strong)
    moreover have "filter (\<lambda>(source, hops, body). hops = 255 \<and> is_v6_link_local source) (m # ms) =
        filter (\<lambda>(source, hops, body). hops = 255 \<and> is_v6_link_local source) ms" using False by (auto simp: m)
    ultimately show ?thesis using Cons.IH by (simp only:)
  qed
qed simp

text \<open>
  C35: Only the routers of the link are believed.  Whatever arrives on the
  router-discovery socket, the interface ends as if it had received only the messages
  that came complete, with a hop limit of 255 (which no router forwards) and from a
  link-local address; every other one, forged ones included, has no effect at all.
\<close>

theorem router_messages_trusted:
  "receive_nd_all sha1 now i (icmp6_receive rs) =
   receive_nd_all sha1 now i (map (\<lambda>m. (mh_source m, 255, mh_body m))
     (filter (\<lambda>m. intact m \<and> hops_of m = Some 255 \<and> is_v6_link_local (mh_source m)) (got rs)))"
proof -
  have h: "unat (the h) = 255 \<and> h \<noteq> None \<longleftrightarrow> h = Some 255" for h :: "u8 option"
    by (cases h) (simp_all add: word_unat_eq_iff)
  have "filter (\<lambda>(source, hops, body). hops = 255 \<and> is_v6_link_local source)
        (map (\<lambda>m. (mh_source m, unat (the (hops_of m)), mh_body m)) (filter (\<lambda>m. intact m \<and> hops_of m \<noteq> None) ms)) =
      map (\<lambda>m. (mh_source m, 255, mh_body m))
        (filter (\<lambda>m. intact m \<and> hops_of m = Some 255 \<and> is_v6_link_local (mh_source m)) ms)" for ms
    by (induction ms) (auto simp: h [symmetric])
  from this [of "got rs"]
  show ?thesis using receive_nd_all_trusted [of sha1 now i "icmp6_receive rs"] unfolding icmp6_exact by simp
qed

section \<open>Every stream has one owner\<close>

text \<open>
  A stream is a pending client's or a subscriber's, never both and never twice: a second
  owner would close it under the first.  The kernel hands out descriptors that are not
  open; what \<^verbatim>\<open>accept\<close> returns is fresh in that sense.
\<close>

definition pending_streams :: "clients \<Rightarrow> fd set" where
  "pending_streams cs = fst ` set cs"

definition owned :: "'f netd \<Rightarrow> clients \<Rightarrow> bool" where
  "owned nd cs = (distinct (nd_subscribers nd) \<and> pending_streams cs \<inter> set (nd_subscribers nd) = {})"

fun kept_streams :: "accepted list \<Rightarrow> fd list" where
  "kept_streams [] = []"
| "kept_streams (Accepted fd True # rs) = fd # kept_streams rs"
| "kept_streams (r # rs) = kept_streams rs"

definition fresh_streams :: "fd list \<Rightarrow> accepted list \<Rightarrow> bool" where
  "fresh_streams held rs = (set (kept_streams rs) \<inter> set held = {})"

lemma streams_bt_insert: "bt_ok m \<Longrightarrow> pending_streams (bt_insert k v m) = insert k (pending_streams m)"
  by (force simp: pending_streams_def set_bt_insert)

lemma streams_bt_remove: "pending_streams (bt_remove k m) = pending_streams m - {k}"
  by (force simp: pending_streams_def bt_remove_def)

lemma owned_mono:
  "owned nd cs \<Longrightarrow> pending_streams cs' \<subseteq> pending_streams cs \<Longrightarrow> nd_subscribers nd' = filter P (nd_subscribers nd) \<Longrightarrow> owned nd' cs'"
  by (auto simp: owned_def)

lemma service_streams:
  assumes "bt_ok cs" "list_all (\<lambda>e. cl_stream (snd e) = fst e) cs" "clients_service env rd wr fd t cs = Some (cs', r)"
  shows "pending_streams cs' \<subseteq> pending_streams cs
    \<and> (\<forall>stream request. r = Some (stream, request) \<longrightarrow> stream \<in> pending_streams cs \<and> stream \<notin> pending_streams cs')"
proof (cases "bt_get cs fd")
  case None
  then show ?thesis using assms(3) by (simp add: clients_service_def)
next
  case (Some c)
  have mem: "(fd, c) \<in> set cs" using Some assms(1) by (simp add: bt_get_in)
  then have "fd \<in> pending_streams cs" "cl_stream c = fd" using assms(2) by (force simp: pending_streams_def list_all_iff)+
  moreover obtain c1 p where a: "advance (ce_mp env) rd wr c = (c1, p)" by force
  moreover have "cl_stream c1 = cl_stream c" using advance_fields(1) [of "ce_mp env" rd wr c] a by simp
  moreover have "bt_ok (bt_remove fd cs)" using assms(1) by simp
  ultimately show ?thesis
    using assms(1,3) Some
    by (auto simp: clients_service_def Let_def streams_bt_insert streams_bt_remove split: if_splits progress.splits sum.splits)
qed

lemma accept_streams:
  "bt_ok cs \<Longrightarrow> pending_streams (accept_loop n rs now cs) \<subseteq> pending_streams cs \<union> set (kept_streams rs)"
proof (induction n rs now cs rule: accept_loop.induct)
  case (3 n r rs now cs)
  show ?case
  proof (cases r)
    case (Accepted fd ok)
    have "bt_ok (clients_add fd ok now cs)" "pending_streams (clients_add fd ok now cs) \<subseteq> pending_streams cs \<union> set (kept_streams [r])"
      using 3(2) Accepted by (cases ok; simp add: clients_add_def streams_bt_insert)+
    moreover have "kept_streams (r # rs) = kept_streams [r] @ kept_streams rs" by (cases ok) (simp_all add: Accepted)
    ultimately show ?thesis using 3(1) Accepted by (cases ok) (auto simp: Accepted)
  qed (use 3 in auto)
qed auto


text \<open>Publishing only drops subscribers; only a subscription adds one, and then no reply is owed.\<close>

lemma announce_subscribers:
  assumes "announce w nd = Some (nd', outs)"
  shows "\<exists>P. nd_subscribers nd' = filter P (nd_subscribers nd)"
proof -
  obtain nd1 o1 o2 where h: "netd_apply_hostname w nd = (nd1, o1)" and p: "publish w nd1 = Some (nd', o2)"
    using assms by (cases "netd_apply_hostname w nd") (auto simp: announce_def bind_eq_Some_conv)
  have "nd_subscribers nd1 = nd_subscribers nd" using h by (auto simp: netd_apply_hostname_def Let_def split_def)
  with p show ?thesis by (cases rule: publish_cases) (auto intro: exI [of _ "\<lambda>s. True"])
qed

lemma converge_subscribers:
  assumes "converge w now nd k = Some (nd', k', outs)"
  shows "\<exists>P. nd_subscribers nd' = filter P (nd_subscribers nd)"
proof -
  obtain nd1 o1 o2 where l: "converge_loop 4 w now nd k = Some (nd1, k', o1)" and a: "announce w nd1 = Some (nd', o2)"
    using assms by (auto simp: converge_def bind_eq_Some_conv)
  show ?thesis using announce_subscribers [OF a] quiet_loop [OF l] by (simp add: quiet_def)
qed

lemma settle_subscribers:
  assumes "settle w now c r nd k = Some (nd', k', outs)"
  shows "\<exists>P. nd_subscribers nd' = filter P (nd_subscribers nd)"
proof -
  let ?nd = "fst (netd_reconcile_all w (w_clock w 1) nd k)"
  have same: "nd_subscribers ?nd = nd_subscribers nd" using quiet_steps(5) [of nd w "w_clock w 1" k] by (simp add: quiet_def)
  consider "converge w now nd k = Some (nd', k', outs)" | "announce w ?nd = Some (nd', outs)" | "nd' = nd"
    using assms by (auto simp: settle_def Let_def split_def split: if_splits)
  then show ?thesis
    using converge_subscribers announce_subscribers [of w ?nd] same
    by cases (auto intro: exI [of _ "\<lambda>s. True"])
qed

lemma handle_subscribers:
  assumes "handle_control w now nd k stream request = Some (nd', k', outs, reply)"
  shows "(\<exists>P. nd_subscribers nd' = filter P (nd_subscribers nd))
    \<or> reply = None \<and> nd_subscribers nd' = nd_subscribers nd @ [stream]"
proof (cases "w_permits w (nd_control nd) stream (required_right request) = None \<or> request \<noteq> ReqReconcile")
  case True
  then have "nd_subscribers nd' = nd_subscribers nd \<or> reply = None \<and> nd_subscribers nd' = nd_subscribers nd @ [stream]"
    using assms
    by (cases request; cases "w_permits w (nd_control nd) stream (required_right request)")
       (auto simp: handle_control_def subscribe_request_def renew_request_def Let_def split: if_splits option.splits prod.splits)
  then show ?thesis by (auto intro: exI [of _ "\<lambda>s. True"])
next
  case False
  then show ?thesis
    using assms converge_subscribers [of w now nd k nd' k'] by (auto simp: handle_control_def)
qed

section \<open>The invariant of the loop\<close>

definition loop_inv :: "msgpack \<Rightarrow> instant \<Rightarrow> 'f netd \<Rightarrow> clients \<Rightarrow> effect list \<Rightarrow> bool" where
  "loop_inv mp t nd cs h = (clients_inv t cs \<and> owned nd cs \<and> told mp nd h)"

lemma clients_inv_ok: "clients_inv t cs \<Longrightarrow> bt_ok cs \<and> list_all (\<lambda>e. cl_stream (snd e) = fst e) cs"
  by (auto simp: clients_inv_def client_ok_def list_all_iff)

lemma loop_inv_wait: "loop_inv mp t nd cs h \<Longrightarrow> t \<le> t' \<Longrightarrow> loop_inv mp t' nd cs h"
  by (auto simp: loop_inv_def intro: inv_wait)

lemma loop_inv_service:
  assumes "mp_ok (ce_mp env) enc" "loop_inv mp t nd cs h" "rd_ok rd" "wr_ok wr"
    and "clients_service env rd wr fd t cs = Some (cs', r)"
  shows "loop_inv mp t nd cs' h \<and>
    (\<forall>stream request. r = Some (stream, request) \<longrightarrow>
       length cs' < MAX_CLIENTS \<and> stream \<notin> set (nd_subscribers nd) \<and> stream \<notin> pending_streams cs')"
proof -
  have ci: "clients_inv t cs" "owned nd cs" "told mp nd h" using assms(2) by (simp_all add: loop_inv_def)
  note s = service_streams [OF conjunct1 [OF clients_inv_ok [OF ci(1)]] conjunct2 [OF clients_inv_ok [OF ci(1)]] assms(5)]
  note i = inv_service [OF assms(1) ci(1) assms(3-5)]
  have "owned nd cs'" using ci(2) s by (auto simp: owned_def)
  with s i ci(3) show ?thesis using ci(2) by (auto simp: loop_inv_def owned_def)
qed

lemma loop_inv_reply:
  assumes "mp_ok (ce_mp env) enc" "loop_inv mp t nd cs h" "length cs < MAX_CLIENTS" "stream \<notin> set (nd_subscribers nd)"
    and "t \<le> t'" "clients_reply env stream reply t' cs = Some cs'"
  shows "loop_inv mp t' nd cs' h"
proof -
  have ci: "clients_inv t' cs" "owned nd cs" "told mp nd h"
    using loop_inv_wait [OF assms(2,5)] by (simp_all add: loop_inv_def)
  obtain c where c: "client_reply env \<lparr>cl_stream = stream, cl_deadline = t', cl_state = Reading []\<rparr> reply t' = Some c"
      "cs' = bt_insert (cl_stream c) c cs"
    using assms(6) by (auto simp: clients_reply_def)
  have ok: "cl_stream c = stream" "client_ok t' (stream, c)"
    using client_reply_ok [OF assms(1) c(1)] by (simp_all add: client_ok_def)
  have "clients_inv t' cs'" using inv_insert [OF ci(1) assms(3) ok(2)] by (simp add: c(2) ok(1))
  moreover have "owned nd cs'"
    using ci(2) assms(4) clients_inv_ok [OF ci(1)] by (auto simp: owned_def c(2) ok(1) streams_bt_insert)
  ultimately show ?thesis using ci(3) by (simp add: loop_inv_def)
qed


text \<open>What a turn relies on: the clock does not go back, reads and writes keep their bounds, accepted streams are fresh.\<close>

definition turn_ok :: "instant \<Rightarrow> ('f, 'e, 'k, 'sid) turn_in \<Rightarrow> bool" where
  "turn_ok t ti =
     (t \<le> ti_clock ti 0 \<and> mono (ti_clock ti)
      \<and> (\<forall>fd. rd_ok (ti_read ti fd) \<and> wr_ok (ti_write ti fd))
      \<and> (\<forall>held. fresh_streams held (ti_accept ti held)))"

lemma turn_okD:
  assumes "turn_ok t ti"
  shows "t \<le> ti_clock ti 0" "m \<le> n \<Longrightarrow> ti_clock ti m \<le> ti_clock ti n" "rd_ok (ti_read ti fd)" "wr_ok (ti_write ti fd)"
    "fresh_streams held (ti_accept ti held)"
  using assms by (auto simp: turn_ok_def monoD)

lemma loop_inv_handle:
  assumes "mp_ok (ce_mp env) enc" "loop_inv mp t nd cs h" "length cs < MAX_CLIENTS" "t \<le> t'"
    and "stream \<notin> set (nd_subscribers nd)" "stream \<notin> pending_streams cs"
    and "handle_control w now nd k stream request = Some (nd', k', outs, reply)" "ce_mp (w_control w) = mp"
    and "(case reply of None \<Rightarrow> Some cs | Some reply \<Rightarrow> clients_reply env stream reply t' cs) = Some cs'"
  shows "loop_inv mp t' nd' cs' (h @ outs)"
proof -
  have inv: "clients_inv t cs" "owned nd cs" "told mp nd h" using assms(2) by (simp_all add: loop_inv_def)
  have told: "told mp nd' (h @ outs)" using told_handle [OF assms(7,8) inv(3)] .
  from handle_subscribers [OF assms(7)] show ?thesis
  proof (elim disjE conjE exE)
    fix P assume P: "nd_subscribers nd' = filter P (nd_subscribers nd)"
    have i: "loop_inv mp t nd' cs (h @ outs)"
      using inv(1) told owned_mono [OF inv(2) subset_refl P] by (simp add: loop_inv_def)
    show ?thesis
    proof (cases reply)
      case None
      then show ?thesis using loop_inv_wait [OF i assms(4)] assms(9) by simp
    next
      case (Some rep)
      have "stream \<notin> set (nd_subscribers nd')" using P assms(5) by simp
      then show ?thesis using loop_inv_reply [OF assms(1) i assms(3) _ assms(4)] assms(9) Some by simp
    qed
  next
    assume "reply = None" and s: "nd_subscribers nd' = nd_subscribers nd @ [stream]"
    then have "cs' = cs" "owned nd' cs" using assms(5,6,9) inv(2) by (auto simp: owned_def)
    then show ?thesis using inv(1) told inv_wait [OF _ assms(4)] by (simp add: loop_inv_def)
  qed
qed

lemma loop_inv_serve:
  assumes "turn_ok t0 ti" "mp_ok mp enc" "ce_mp (w_control (ti_world ti)) = mp"
  shows "serve_control ti n ss nd k cs = Some (nd', k', cs', outs) \<Longrightarrow> loop_inv mp (ti_clock ti n) nd cs h \<Longrightarrow>
    loop_inv mp (ti_clock ti (n + 3 * length ss)) nd' cs' (h @ outs)"
proof (induction ss arbitrary: n nd k cs h outs)
  case Nil
  then show ?case by simp
next
  case (Cons s ss)
  let ?env = "w_control (ti_world ti)"
  have mp: "mp_ok (ce_mp ?env) enc" using assms(2,3) by simp
  obtain fd slot where s: "s = (fd, slot)" by force
  have goal: "n + 3 * length (s # ss) = n + 3 + 3 * length ss" by simp
  have on: "loop_inv mp (ti_clock ti (n + 3)) nd1 cs1 h1" if "loop_inv mp (ti_clock ti m) nd1 cs1 h1" "m \<le> n + 3" for nd1 cs1 h1 m
    using loop_inv_wait [OF that(1) turn_okD(2) [OF assms(1) that(2)]] .
  show ?case
  proof (cases "ti_ready ti slot")
    case False
    then show ?thesis
      unfolding goal using Cons.prems Cons.IH [OF _ on, of nd k cs outs n h] by (simp add: s)
  next
    case True
    then obtain cs1 r where v: "clients_service ?env (ti_read ti fd) (ti_write ti fd) fd (ti_clock ti n) cs = Some (cs1, r)"
      using Cons.prems(1) by (auto simp: s bind_eq_Some_conv)
    note i = loop_inv_service [OF mp Cons.prems(2) turn_okD(3,4) [OF assms(1)] v]
    show ?thesis
    proof (cases r)
      case None
      then have "serve_control ti (n + 3) ss nd k cs1 = Some (nd', k', cs', outs)"
        using Cons.prems(1) True v by (simp add: s)
      then show ?thesis unfolding goal using Cons.IH on i by (meson le_add1)
    next
      case (Some sr)
      obtain stream request where r: "r = Some (stream, request)" using Some by force
      from Cons.prems(1) True v obtain nd1 k1 o1 reply cs2 o2 where
        h: "handle_control (ti_world ti) (ti_clock ti (n + 1)) nd k stream request = Some (nd1, k1, o1, reply)" and
        p: "(case reply of None \<Rightarrow> Some cs1 | Some reply \<Rightarrow> clients_reply ?env stream reply (ti_clock ti (n + 2)) cs1) = Some cs2"
        and c: "serve_control ti (n + 3) ss nd1 k1 cs2 = Some (nd', k', cs', o2)" and o: "outs = o1 @ o2"
        by (auto simp: s r bind_eq_Some_conv)
      have le: "ti_clock ti n \<le> ti_clock ti (n + 2)" using turn_okD(2) [OF assms(1)] by simp
      have "loop_inv mp (ti_clock ti (n + 2)) nd1 cs2 (h @ o1)"
        by (rule loop_inv_handle [OF mp conjunct1 [OF i] _ le _ _ h assms(3) p]) (use i r in auto)
      from Cons.IH [OF c on [OF this]] show ?thesis unfolding goal by (simp add: o)
    qed
  qed
qed


lemma quiet_drain: "quiet nd (fst (drain_links ti k nd)) []"
  by (simp add: quiet_def drain_links_def split: option.splits)

lemma quiet_watch: "quiet nd (fst (reload_watch ti slot watch nd)) []"
proof -
  have "quiet nd nd []" by (simp add: quiet_def)
  then show ?thesis
    using quiet_reload [of nd "ti_world ti" "ti_config ti"]
    by (auto simp: reload_watch_def split_def Let_def split: option.splits watch_read.splits bool.splits)
qed

text \<open>What the first half makes of the daemon: a new table of interfaces on what reading and reloading left.\<close>

lemma gather_parts:
  assumes "gather ti ps lp = Some (nd, watch, c, r, outs)"
  obtains nd1 is2 is4 r2 r4 where
    "nd1 = fst (reload_watch ti (pl_watch ps) (lp_watch lp) (fst (drain_links ti (lp_kernel lp) (lp_netd lp))))"
    "receive_ndp (w_sha1 (ti_world ti)) (ti_ready ti) (\<lambda>index. icmp6_receive (ti_ndp ti index)) (ti_now ti) (pl_ndp ps)
       (fst (receive_dhcp (ti_ready ti) (\<lambda>index. ps_receive (ti_dhcp ti index)) (ti_now ti) (pl_dhcp ps) (nd_interfaces nd1)))
     = Some (is2, r2)"
    "tick_all (ti_now ti) (fst (receive_dhcp6 (ti_ready ti) (\<lambda>index. dhcp6_socket_receive (ti_dhcp6 ti index)) (ti_now ti) (pl_dhcp6 ps) is2)) = Some (is4, r4)"
    "nd = nd1\<lparr>nd_interfaces := is4\<rparr>"
proof -
  define nd1 where "nd1 = fst (reload_watch ti (pl_watch ps) (lp_watch lp) (fst (drain_links ti (lp_kernel lp) (lp_netd lp))))"
  obtain e where e: "receive_ndp (w_sha1 (ti_world ti)) (ti_ready ti) (\<lambda>index. icmp6_receive (ti_ndp ti index)) (ti_now ti) (pl_ndp ps)
       (fst (receive_dhcp (ti_ready ti) (\<lambda>index. ps_receive (ti_dhcp ti index)) (ti_now ti) (pl_dhcp ps) (nd_interfaces nd1)))
     = Some e"
    using assms by (auto simp: gather_def Let_def split_def bind_eq_Some_conv nd1_def)
  let ?tick = "tick_all (ti_now ti) (fst (receive_dhcp6 (ti_ready ti) (\<lambda>index. dhcp6_socket_receive (ti_dhcp6 ti index)) (ti_now ti) (pl_dhcp6 ps) (fst e)))"
  have "\<exists>g. ?tick = Some g \<and> nd = nd1\<lparr>nd_interfaces := fst g\<rparr>"
    using assms e by (cases ?tick) (simp_all add: gather_def Let_def split_def nd1_def)
  then obtain g where g: "?tick = Some g" "nd = nd1\<lparr>nd_interfaces := fst g\<rparr>" by blast
  show thesis by (rule that [OF nd1_def, of "fst e" "snd e" "fst g" "snd g"]) (use e g in simp_all)
qed

lemma gather_quiet:
  assumes "gather ti ps lp = Some (nd, watch, c, r, outs)"
  shows "quiet (lp_netd lp) nd (map Packet xs)"
  using assms
proof (cases rule: gather_parts)
  case (1 nd1 is2 is4 r2 r4)
  have "quiet (lp_netd lp) nd1 ([] @ [])" unfolding 1(1) by (rule quiet_trans [OF quiet_drain quiet_watch])
  then show ?thesis by (simp add: quiet_def 1(4))
qed

lemma turn_parts:
  fixes pe lp
  defines "ps \<equiv> poll_set_new pe (nd_interfaces (lp_netd lp)) (lp_clients lp) (lp_watch lp)"
  assumes "turn pe ti lp = Some (lp', outs)"
  obtains nd1 watch c r o1 nd2 k2 cs2 o2 o3 where "gather ti ps lp = Some (nd1, watch, c, r, o1)"
    "serve_control ti 1 (pl_control ps) nd1 (lp_kernel lp) (clients_expire (ti_clock ti 0) (lp_clients lp)) = Some (nd2, k2, cs2, o2)"
    "settle (ti_world ti) (ti_now ti) c r nd2 k2 = Some (lp_netd lp', lp_kernel lp', o3)"
    "lp_clients lp' = accept_ready ti (1 + 3 * length (pl_control ps)) nd2 cs2"
    "outs = map Packet o1 @ o2 @ o3"
  using assms(2) unfolding turn_def ps_def [symmetric] by (auto simp: Let_def bind_eq_Some_conv)

lemma loop_inv_accept:
  assumes "turn_ok t0 ti" "loop_inv mp (ti_clock ti n) nd cs h"
  shows "loop_inv mp (ti_clock ti n) nd (accept_ready ti n nd cs) h"
proof -
  let ?rs = "ti_accept ti (streams nd cs)" and ?cs = "accept_ready ti n nd cs"
  have ci: "clients_inv (ti_clock ti n) cs" "owned nd cs" "told mp nd h" using assms(2) by (simp_all add: loop_inv_def)
  have "pending_streams ?cs \<subseteq> pending_streams cs \<union> set (kept_streams ?rs)"
    using accept_streams clients_inv_ok [OF ci(1)] by (simp add: accept_ready_def clients_accept_def)
  moreover have "set (kept_streams ?rs) \<inter> set (nd_subscribers nd) = {}"
    using turn_okD(5) [OF assms(1), of "streams nd cs"] by (auto simp: fresh_streams_def streams_def)
  ultimately have "owned nd ?cs" using ci(2) by (auto simp: owned_def)
  then show ?thesis
    using ci inv_accept [OF ci(1)] by (simp add: loop_inv_def accept_ready_def clients_accept_def)
qed

lemma loop_inv_expire: "loop_inv mp t nd cs h \<Longrightarrow> loop_inv mp t nd (clients_expire t' cs) h"
proof -
  have "pending_streams (clients_expire t' cs) \<subseteq> pending_streams cs" by (force simp: pending_streams_def clients_expire_def)
  then show "loop_inv mp t nd cs h \<Longrightarrow> loop_inv mp t nd (clients_expire t' cs) h"
    by (auto simp: loop_inv_def owned_def inv_expire)
qed

lemma loop_inv_turn:
  assumes "turn pe ti lp = Some (lp', outs)" "turn_ok t ti" "mp_ok mp enc" "ce_mp (w_control (ti_world ti)) = mp"
    and "loop_inv mp t (lp_netd lp) (lp_clients lp) h" "\<And>n. ti_clock ti n \<le> t'"
  shows "loop_inv mp t' (lp_netd lp') (lp_clients lp') (h @ outs)"
  using assms(1)
proof (cases rule: turn_parts)
  case (1 nd1 watch c r ps nd2 k2 cs2 o1 o2)
  let ?ss = "pl_control (poll_set_new pe (nd_interfaces (lp_netd lp)) (lp_clients lp) (lp_watch lp))"
  let ?n = "1 + 3 * length ?ss"
  have "told mp nd1 (h @ map Packet ps)" using told_quiet [OF gather_quiet [OF 1(1)]] assms(5) by (simp add: loop_inv_def)
  then have "loop_inv mp t nd1 (clients_expire (ti_clock ti 0) (lp_clients lp)) (h @ map Packet ps)"
    using loop_inv_expire [OF assms(5)] gather_quiet [OF 1(1)] by (simp add: loop_inv_def owned_def quiet_def)
  then have "loop_inv mp (ti_clock ti 1) nd1 (clients_expire (ti_clock ti 0) (lp_clients lp)) (h @ map Packet ps)"
    by (rule loop_inv_wait) (use turn_okD(1,2) [OF assms(2)] order_trans in blast)
  from loop_inv_accept [OF assms(2) loop_inv_serve [OF assms(2,3,4) 1(2) this]]
  have i: "loop_inv mp (ti_clock ti ?n) nd2 (lp_clients lp') ((h @ map Packet ps) @ o1)" by (simp add: 1(4))
  obtain P where P: "nd_subscribers (lp_netd lp') = filter P (nd_subscribers nd2)" using settle_subscribers [OF 1(3)] by blast
  have "told mp (lp_netd lp') (((h @ map Packet ps) @ o1) @ o2)"
    using told_settle [OF 1(3) assms(4), of "(h @ map Packet ps) @ o1"] i unfolding loop_inv_def by blast
  then have "loop_inv mp (ti_clock ti ?n) (lp_netd lp') (lp_clients lp') (h @ outs)"
    using i owned_mono [OF _ subset_refl P, of "lp_clients lp'"] by (simp add: loop_inv_def 1(5))
  then show ?thesis using loop_inv_wait assms(6) by blast
qed

text \<open>
  The life of the process: \<^verbatim>\<open>main\<close> makes the first pass and the loop takes turns.  \<open>W\<close> is what may be
  outside; it may answer differently in every turn.
\<close>

inductive loop_run :: "(('f, 'e, 'k, 'sid) world \<Rightarrow> bool) \<Rightarrow> instant \<Rightarrow> ('f, 'k) loop \<Rightarrow> effect list \<Rightarrow> bool" for W where
  entered: "W w \<Longrightarrow> w_dump w k = Some ob \<Longrightarrow> converge w t (netd_start w config ob) k = Some (nd, k', outs) \<Longrightarrow>
    loop_run W t \<lparr>lp_netd = nd, lp_kernel = k', lp_clients = [], lp_watch = watch\<rparr> outs"
| turned: "loop_run W t lp h \<Longrightarrow> W (ti_world ti) \<Longrightarrow> turn_ok t ti \<Longrightarrow> turn pe ti lp = Some (lp', outs) \<Longrightarrow>
    (\<And>n. ti_clock ti n \<le> t') \<Longrightarrow> loop_run W t' lp' (h @ outs)"

lemma loop_run_inv:
  assumes "loop_run W t lp h" "mp_ok mp enc" and W: "\<And>w. W w \<Longrightarrow> ce_mp (w_control w) = mp"
  shows "loop_inv mp t (lp_netd lp) (lp_clients lp) h"
  using assms(1)
proof (induction rule: loop_run.induct)
  case (entered w k ob t config nd k' outs watch)
  have n: "nd_subscribers (netd_start w config ob) = []" "told mp (netd_start w config ob) []"
    by (simp_all add: netd_start_def told_def Let_def split_def)
  have "nd_subscribers nd = []" using converge_subscribers [OF entered(3)] n(1) by auto
  moreover have "told mp nd outs" using told_converge [OF entered(3) W [OF entered(1)] n(2)] by simp
  ultimately show ?case by (simp add: loop_inv_def owned_def clients_inv_def)
next
  case (turned t lp h ti pe lp' outs t')
  then show ?case using loop_inv_turn [OF turned.hyps(4,3) assms(2) W [OF turned.hyps(2)] turned.IH turned.hyps(5)] by simp
qed

text \<open>
  C32: The event loop keeps its promises over every run of turns, whatever arrives in
  them and in whatever order it is found ready.  At the end of every turn at most 64
  control clients are pending; every stream the daemon holds has exactly one owner, a
  pending client or a subscriber; two seconds without traffic free every slot; and
  every subscriber was last sent exactly the last snapshot.  The kernel's part is that
  the clock does not go back, reads and writes keep their bounds, and an accepted
  descriptor is not one the daemon holds.
\<close>

theorem event_loop_safe:
  assumes "loop_run W t lp h" "mp_ok mp enc" "\<And>w. W w \<Longrightarrow> ce_mp (w_control w) = mp"
  shows "length (lp_clients lp) \<le> 64 \<and> distinct (streams (lp_netd lp) (lp_clients lp))
    \<and> clients_expire (t + secs 2) (lp_clients lp) = []
    \<and> (\<forall>sn s. nd_last_snapshot (lp_netd lp) = Some sn \<and> s \<in> set (nd_subscribers (lp_netd lp)) \<longrightarrow>
          (\<exists>bs. reply_encode mp (ReplySnapshot sn) = Some bs \<and> last_frame h s = Some (push_frame bs)))"
proof -
  have i: "clients_inv t (lp_clients lp)" "owned (lp_netd lp) (lp_clients lp)" "told mp (lp_netd lp) h"
    using loop_run_inv [OF assms] by (simp_all add: loop_inv_def)
  have "distinct (map fst (lp_clients lp))" using i(1) bt_ok_distinct by (auto simp: clients_inv_def)
  then have "distinct (streams (lp_netd lp) (lp_clients lp))"
    using i(2) by (simp add: streams_def owned_def pending_streams_def)
  moreover have "clients_expire (t + secs 2) (lp_clients lp) = []" using all_expired [OF i(1)] by (simp add: IO_TIMEOUT_def)
  ultimately show ?thesis using i(1,3) by (simp add: clients_inv_def MAX_CLIENTS_def told_def)
qed


section \<open>Witnesses\<close>

definition ex_turn :: "(nat, rstring, nat, nat) turn_in" where
  "ex_turn =
     \<lparr>ti_world = ex_world, ti_now = 0, ti_ready = \<lambda>slot. slot = 1, ti_drained = [], ti_watch = WatchEvents False,
      ti_config = None, ti_dhcp = \<lambda>index. [], ti_ndp = \<lambda>index. [], ti_dhcp6 = \<lambda>index. [],
      ti_read = \<lambda>fd n. Inl WouldBlock, ti_write = \<lambda>fd bs. Inl WouldBlock,
      ti_accept = \<lambda>held. if 7 \<in> set held then [] else [Accepted 7 True, AcceptBlocks], ti_clock = \<lambda>n. 0\<rparr>"

definition ex_poll_env :: poll_env where
  "ex_poll_env = \<lparr>pe_rtnl = 3, pe_listener = 4, pe_absorber = None, pe_dhcp = \<lambda>i. 5, pe_ndp = \<lambda>i. 6, pe_dhcp6 = \<lambda>i. 8\<rparr>"

lemma ex_start:
  "\<exists>nd outs. converge ex_world 0 ex_netd 0 = Some (nd, 0, outs) \<and> nd_interfaces nd = [] \<and> nd_subscribers nd = []"
proof -
  obtain bs where bs: "reply_encode mp_ref (ReplySnapshot \<lparr>sn_hostname = ''peios'', sn_scopes = []\<rparr>) = Some bs"
    using ex_encode [of "''peios''"] ex_name(1) by auto
  have l: "converge_loop 4 ex_world 0 ex_netd 0 = Some (ex_netd, 0, [])"
    by (simp add: numeral_eq_Suc converge_pass_def Let_def identify_networks_def netd_sync_links_def sync_links_def bt_map_def
        bt_retain_def start_dhcp_where_due_def start_ipv6_where_due_def netd_reconcile_all_def reconcile_all_def ex_defs)
  define nd1 where "nd1 = ex_netd\<lparr>nd_naming := \<lparr>nm_set = Some ''peios'', nm_refused = None\<rparr>\<rparr>"
  have h: "netd_apply_hostname ex_world ex_netd = (nd1, [SetHostname ''peios''])"
    by (simp add: nd1_def netd_apply_hostname_def apply_hostname_def ex_name(2) ex_defs)
  have p: "\<exists>nd' o2. publish ex_world nd1 = Some (nd', o2) \<and> nd_interfaces nd' = [] \<and> nd_subscribers nd' = []"
    using bs by (simp add: publish_def publish_level_def netd_snapshot_def snapshot_bytes_def Let_def nd1_def ex_defs)
  show ?thesis using p by (auto simp: converge_def l announce_def h)
qed

lemma ex_turned:
  assumes "nd_interfaces nd = []" "nd_subscribers nd = []"
  shows "turn ex_poll_env ex_turn \<lparr>lp_netd = nd, lp_kernel = 0, lp_clients = [], lp_watch = None\<rparr>
    = Some (\<lparr>lp_netd = nd, lp_kernel = 0, lp_clients = [(7, ex_client)], lp_watch = None\<rparr>, [])"
  using assms
  by (simp add: turn_def gather_def ex_turn_def ex_poll_env_def poll_set_new_def open_sockets_def clients_fds_def can_accept_def
      MAX_CLIENTS_def pl_push_def drain_links_def reload_watch_def clients_expire_def bt_retain_def accept_ready_def
      streams_def clients_accept_def ACCEPT_BATCH_def numeral_eq_Suc clients_add_def settle_def ex_client_def)

theorem event_loop_safe_witness:
  "\<exists>nd h. loop_run (\<lambda>w. w = ex_world) 0 \<lparr>lp_netd = nd, lp_kernel = 0, lp_clients = [(7, ex_client)], lp_watch = None\<rparr> h
     \<and> distinct (streams nd [(7, ex_client)])"
proof -
  obtain nd outs where c: "converge ex_world 0 ex_netd 0 = Some (nd, 0, outs)" "nd_interfaces nd = []" "nd_subscribers nd = []"
    using ex_start by blast
  have "turn_ok 0 ex_turn" by (simp add: turn_ok_def ex_turn_def mono_def rd_ok_def wr_ok_def fresh_streams_def)
  then have r: "loop_run (\<lambda>w. w = ex_world) 0 \<lparr>lp_netd = nd, lp_kernel = 0, lp_clients = [(7, ex_client)], lp_watch = None\<rparr> (outs @ [])"
    by (intro loop_run.turned [OF loop_run.entered [of _ ex_world, OF _ _ c(1) [unfolded ex_netd_def]] _ _ ex_turned])
       (simp_all add: c(2,3) ex_turn_def ex_world_def)
  have "mp_ok (ce_mp (w_control ex_world)) ref_enc" by (simp add: ex_world_def ex_control_env_def mp_ref_ok)
  from event_loop_safe [OF r this] r show ?thesis by auto
qed

end
