(* ===== verification/Loop_Interfaces.thy ===== *)
theory Loop_Interfaces
  imports Event_Loop
begin

text \<open>
  The event loop composed with the interfaces: every turn of the loop takes only steps
  of the interface layer (\<^verbatim>\<open>Daemon\<close>), so what holds of every reachable interface holds of every
  interface the running daemon has, and the daemon's table of them stays in order.

  The kernel's part is that an interface index does not turn from a loopback into
  something else, or back.
\<close>

section \<open>Steps keep the kind of a link\<close>

lemma stop_keeps_link [simp]:
  "if_link (fst (stop_dhcp i now)) = if_link i" "if_link (stop_ipv6 i) = if_link i" "if_link (fst (stop_all i now)) = if_link i"
  by (auto simp: stop_dhcp_def stop_ipv6_def stop_all_def Let_def split_def split: option.splits)

lemma remember_keeps_link [simp]: "if_link (remember_restart i ob previous) = if_link i"
  by (auto simp: remember_restart_def Let_def split: option.splits)

lemma start_dhcp_keeps_link [simp]: "if_link (fst (start_dhcp i ob now env)) = if_link i"
  by (auto simp: start_dhcp_def launch_dhcp_def Let_def split_def split: option.splits)

lemma start_dhcp6_keeps_link [simp]: "if_link (fst (start_dhcp6 i ob now env)) = if_link i"
  by (auto simp: start_dhcp6_def Let_def split_def split: option.splits)

lemma start_ipv6_keeps_link:
  assumes "start_ipv6 i ob now env = Some (i', outs)"
  shows "if_link i' = if_link i"
proof -
  have "if_link i' = if_link i" if "Some (start_dhcp6 i1 ob now env) = Some (i', o1)" "if_link i1 = if_link i" for i1 o1
    using that start_dhcp6_keeps_link [of i1 ob now env] by (cases "start_dhcp6 i1 ob now env") simp
  with assms show ?thesis
    by (auto simp: start_ipv6_def Let_def split_def split: option.splits if_splits bool.splits)
qed

lemma receive_keeps_link [simp]:
  "if_link (fst (receive4 now i m)) = if_link i" "if_link (fst (receive6 now i bs)) = if_link i"
  by (auto simp: receive4_def receive6_def Let_def split_def split: option.splits)

lemma receive_nd_keeps_link: "receive_nd sha1 now i msg = Some (i', r) \<Longrightarrow> if_link i' = if_link i"
  by (auto simp: receive_nd_def Let_def split: prod.splits if_splits option.splits)

lemma tick_keeps_link:
  assumes "tick_iface now i = Some (i', c, r, outs)"
  shows "if_link i' = if_link i"
proof -
  have "if_link (fst (tick4 now j)) = if_link j" "if_link (fst (tick6 now j)) = if_link j" for j
    by (auto simp: tick4_def tick6_def Let_def split_def split: option.splits)
  moreover have "tick_nd now j = Some (j', s) \<Longrightarrow> if_link j' = if_link j" for j j' s
    by (auto simp: tick_nd_def Let_def split: option.splits prod.splits)
  ultimately show ?thesis
    using assms by (fastforce simp: tick_iface_def Let_def split_def split: option.splits)
qed

lemma iface_step_loopback:
  assumes "iface_step sha1 i i'"
  shows "ln_loopback (if_link i') = ln_loopback (if_link i)"
  using assms
proof cases
  case (linked ln judge_of now)
  have "if_link i' = ln" unfolding linked(1) by (auto simp: sync_link_def Let_def split_def)
  then show ?thesis using linked(2) by simp
next
  case (identified network_sync now)
  then show ?thesis by (auto simp: identify_network_def Let_def split: option.splits)
next
  case (ipv6_due ob now env6 outs)
  then show ?thesis using start_ipv6_keeps_link by simp
next
  case (received_nd now msg r)
  then show ?thesis using receive_nd_keeps_link by simp
next
  case (ticked now c r' outs)
  then show ?thesis using tick_keeps_link by simp
next
  case (renewed now r'')
  then show ?thesis by (auto simp: renew_iface_def Let_def split_def split: option.splits)
qed simp_all

section \<open>The table of interfaces\<close>

text \<open>
  \<open>lo\<close> tells which indices are loopbacks.  An entry is good when its interface is reachable
  and is of the kind its index has.
\<close>

definition good :: "(bytes \<Rightarrow> bytes) \<Rightarrow> (u32 \<Rightarrow> bool) \<Rightarrow> u32 \<Rightarrow> iface \<Rightarrow> bool" where
  "good sha1 lo index i = (iface_reachable sha1 i \<and> ln_loopback (if_link i) = lo index)"

definition table_ok :: "(bytes \<Rightarrow> bytes) \<Rightarrow> (u32 \<Rightarrow> bool) \<Rightarrow> (u32, iface) btree \<Rightarrow> bool" where
  "table_ok sha1 lo is = (bt_ok is \<and> list_all (\<lambda>e. good sha1 lo (fst e) (snd e)) is)"

definition links_ok :: "(u32 \<Rightarrow> bool) \<Rightarrow> observed \<Rightarrow> bool" where
  "links_ok lo ob = list_all (\<lambda>e. ln_loopback (snd e) = lo (ln_index (snd e))) (o_links ob)"

lemma good_step: "good sha1 lo index i \<Longrightarrow> iface_step sha1 i i' \<Longrightarrow> good sha1 lo index i'"
  using iface_step_loopback by (auto simp: good_def intro: iface_reachable.step)

lemma table_get: "table_ok sha1 lo is \<Longrightarrow> bt_get is index = Some i \<Longrightarrow> good sha1 lo index i"
  using bt_get_in [of "is" index i] by (auto simp: table_ok_def list_all_iff)

lemma table_insert: "table_ok sha1 lo is \<Longrightarrow> good sha1 lo index i \<Longrightarrow> table_ok sha1 lo (bt_insert index i is)"
  by (auto simp: table_ok_def list_all_iff set_bt_insert)

lemma table_retain: "table_ok sha1 lo is \<Longrightarrow> table_ok sha1 lo (bt_retain P is)"
  by (auto simp: table_ok_def list_all_iff)

text \<open>A pass that maps every interface to one a step away, keeping the indices.\<close>

lemma table_map:
  assumes "table_ok sha1 lo is" "\<And>index i. (index, i) \<in> set is \<Longrightarrow> iface_step sha1 i (f index i)"
  shows "table_ok sha1 lo (map (\<lambda>e. (fst e, f (fst e) (snd e))) is)"
proof -
  have "bt_ok (map (\<lambda>e. (fst e, f (fst e) (snd e))) is)"
    using assms(1) bt_ok_map [of f "is"] by (simp add: table_ok_def bt_map_def)
  with assms good_step show ?thesis by (fastforce simp: table_ok_def list_all_iff)
qed

lemma table_all2:
  assumes "table_ok sha1 lo is" "list_all2 (\<lambda>e e'. fst e' = fst e \<and> (good sha1 lo (fst e) (snd e) \<longrightarrow> good sha1 lo (fst e) (snd e'))) is is'"
  shows "table_ok sha1 lo is'"
proof -
  have "map fst is' = map fst is" using assms(2) by (induction rule: list_all2_induct) simp_all
  moreover have "list_all (\<lambda>e. good sha1 lo (fst e) (snd e)) is'"
    using assms(2,1) unfolding table_ok_def by (auto simp: list_all2_conv_all_nth list_all_length)
  ultimately show ?thesis using assms(1) by (simp add: table_ok_def bt_ok_def)
qed

lemma table_identify:
  assumes "table_ok sha1 lo is"
  shows "table_ok sha1 lo (bt_map (\<lambda>_ i. identify_network sha1 network_sync now i) is)"
  unfolding bt_map_def by (rule table_map [OF assms, of "\<lambda>_ i. identify_network sha1 network_sync now i"]) (rule iface_step.identified)

lemma table_sync_entry:
  assumes "table_ok sha1 lo (fst st)" "ln_loopback ln = lo (ln_index ln)"
  shows "table_ok sha1 lo (fst (sync_entry sha1 read_identity judge_of now st ln))"
proof -
  define i where "i = (case bt_get (fst st) (ln_index ln) of Some i \<Rightarrow> i | None \<Rightarrow> new_iface sha1 read_identity ln)"
  have "ln_loopback (if_link (new_iface sha1 read_identity ln)) = ln_loopback ln" by (simp add: new_iface_def Let_def)
  then have g: "good sha1 lo (ln_index ln) i"
    using table_get [OF assms(1)] assms(2) iface_reachable.fresh by (auto simp: i_def good_def split: option.splits)
  then have "iface_step sha1 i (fst (sync_link judge_of i ln now))"
    using assms(2) by (intro iface_step.linked) (simp add: good_def)
  from table_insert [OF assms(1) good_step [OF g this]] show ?thesis
    by (simp add: sync_entry_def Let_def split_def i_def)
qed

lemma table_sync_links:
  assumes "table_ok sha1 lo is" "links_ok lo ob"
  shows "table_ok sha1 lo (fst (sync_links sha1 read_identity judge_of is ob now))"
proof -
  have "table_ok sha1 lo (fst st) \<Longrightarrow> list_all (\<lambda>ln. ln_loopback ln = lo (ln_index ln)) lns \<Longrightarrow>
      table_ok sha1 lo (fst (foldl (sync_entry sha1 read_identity judge_of now) st lns))" for st lns
    by (induction lns arbitrary: st) (simp_all add: table_sync_entry)
  moreover have "list_all (\<lambda>ln. ln_loopback ln = lo (ln_index ln)) (map snd (o_links ob))"
    using assms(2) by (simp add: links_ok_def list_all_iff)
  ultimately show ?thesis unfolding sync_links_def using table_retain [OF assms(1)] by simp
qed

lemma ipv6_loop_all2:
  "start_ipv6_loop w ob now is = Some (is', outs) \<Longrightarrow>
    list_all2 (\<lambda>e e'. fst e' = fst e \<and> iface_step sha1 (snd e) (snd e')) is is'"
proof (induction w ob now "is" arbitrary: is' outs rule: start_ipv6_loop.induct)
  case (2 w ob now index i "is")
  then show ?case using iface_step.ipv6_due by (fastforce simp: bind_eq_Some_conv)
qed simp

lemma tick_all_all2:
  "tick_all now is = Some (is', r) \<Longrightarrow> list_all2 (\<lambda>e e'. fst e' = fst e \<and> iface_step sha1 (snd e) (snd e')) is is'"
proof (induction now "is" arbitrary: is' r rule: tick_all.induct)
  case (2 now k i "is")
  then show ?case using iface_step.ticked by (fastforce split: option.splits)
qed simp

lemma table_steps:
  assumes "table_ok sha1 lo is" "list_all2 (\<lambda>e e'. fst e' = fst e \<and> iface_step sha1 (snd e) (snd e')) is is'"
  shows "table_ok sha1 lo is'"
  by (rule table_all2 [OF assms(1) list_all2_mono [OF assms(2)]]) (auto intro: good_step)


lemma good_receive4: "good sha1 lo index i \<Longrightarrow> good sha1 lo index (fst (receive4_all now i ms))"
proof (induction ms arbitrary: i)
  case (Cons m ms)
  then show ?case using good_step [OF Cons.prems iface_step.received4] by (simp add: Let_def split_def)
qed simp

lemma good_receive6: "good sha1 lo index i \<Longrightarrow> good sha1 lo index (fst (receive6_all now i ms))"
proof (induction ms arbitrary: i)
  case (Cons m ms)
  then show ?case using good_step [OF Cons.prems iface_step.received6] by (simp add: Let_def split_def)
qed simp

lemma good_receive_nd:
  "good sha1 lo index i \<Longrightarrow> receive_nd_all sha1 now i ms = Some (i', r) \<Longrightarrow> good sha1 lo index i'"
proof (induction ms arbitrary: i r)
  case (Cons m ms)
  then obtain i1 r1 r2 where "receive_nd sha1 now i m = Some (i1, r1)" "receive_nd_all sha1 now i1 ms = Some (i', r2)"
    by (auto simp: bind_eq_Some_conv)
  then show ?case using Cons.IH good_step [OF Cons.prems(1) iface_step.received_nd] by blast
qed simp

lemma table_receive_dhcp: "table_ok sha1 lo is \<Longrightarrow> table_ok sha1 lo (fst (receive_dhcp ready msgs now ss is))"
proof (induction ss arbitrary: "is")
  case (Cons s ss)
  obtain index slot where s: "s = (index, slot)" by force
  show ?case
  proof (cases "bt_get is index")
    case None
    then show ?thesis using Cons by (simp add: s)
  next
    case (Some i)
    note ins = table_insert [OF Cons.prems good_receive4 [OF table_get [OF Cons.prems Some]]]
    show ?thesis using Cons.IH [OF ins] Cons.IH [OF Cons.prems] Some by (simp add: s Let_def split_def)
  qed
qed simp

lemma table_receive_dhcp6: "table_ok sha1 lo is \<Longrightarrow> table_ok sha1 lo (fst (receive_dhcp6 ready msgs now ss is))"
proof (induction ss arbitrary: "is")
  case (Cons s ss)
  obtain index slot where s: "s = (index, slot)" by force
  show ?case
  proof (cases "bt_get is index")
    case None
    then show ?thesis using Cons by (simp add: s)
  next
    case (Some i)
    note ins = table_insert [OF Cons.prems good_receive6 [OF table_get [OF Cons.prems Some]]]
    show ?thesis using Cons.IH [OF ins] Cons.IH [OF Cons.prems] Some by (simp add: s Let_def split_def)
  qed
qed simp

lemma table_receive_ndp:
  "receive_ndp sha1 ready msgs now ss is = Some (is', r) \<Longrightarrow> table_ok sha1 lo is \<Longrightarrow> table_ok sha1 lo is'"
proof (induction ss arbitrary: "is" r)
  case (Cons s ss)
  obtain index slot where s: "s = (index, slot)" by force
  show ?case
  proof (cases "ready slot")
    case False
    then show ?thesis using Cons by (simp add: s)
  next
    case True
    show ?thesis
    proof (cases "bt_get is index")
      case None
      then show ?thesis using Cons True by (simp add: s)
    next
      case (Some i)
      then obtain i1 r1 r2 where "receive_nd_all sha1 now i (if if_ndp i = None then [] else msgs index) = Some (i1, r1)"
          "receive_ndp sha1 ready msgs now ss (bt_insert index i1 is) = Some (is', r2)"
        using Cons.prems(1) True by (auto simp: s bind_eq_Some_conv)
      then show ?thesis
        using Cons.IH table_insert [OF Cons.prems(2)] good_receive_nd [OF table_get [OF Cons.prems(2) Some]] by blast
    qed
  qed
qed simp

section \<open>The daemon\<close>

definition world_ok :: "(bytes \<Rightarrow> bytes) \<Rightarrow> (u32 \<Rightarrow> bool) \<Rightarrow> ('f, 'e, 'k, 'sid) world \<Rightarrow> bool" where
  "world_ok sha1 lo w = (w_sha1 w = sha1 \<and> (\<forall>k ob. w_dump w k = Some ob \<longrightarrow> links_ok lo ob))"

definition nd_ok :: "(bytes \<Rightarrow> bytes) \<Rightarrow> (u32 \<Rightarrow> bool) \<Rightarrow> 'f netd \<Rightarrow> bool" where
  "nd_ok sha1 lo nd = (table_ok sha1 lo (nd_interfaces nd) \<and> links_ok lo (nd_observed nd))"

lemma nd_ok_passes:
  assumes "world_ok sha1 lo w" "nd_ok sha1 lo nd"
  shows "nd_ok sha1 lo (identify_networks w now nd)" "nd_ok sha1 lo (fst (netd_sync_links w now nd))"
    "nd_ok sha1 lo (fst (start_dhcp_where_due w now nd))"
    "start_ipv6_where_due w now nd = Some (nd', outs) \<Longrightarrow> nd_ok sha1 lo nd'"
    "nd_ok sha1 lo (fst (netd_reconcile_all w now nd k))"
proof -
  have t: "table_ok sha1 lo (nd_interfaces nd)" "links_ok lo (nd_observed nd)" "w_sha1 w = sha1"
    using assms by (simp_all add: nd_ok_def world_ok_def)
  show "nd_ok sha1 lo (identify_networks w now nd)"
    using table_identify [OF t(1)] t(2,3) by (simp add: nd_ok_def identify_networks_def)
  show "nd_ok sha1 lo (fst (netd_sync_links w now nd))"
    using table_sync_links [OF t(1,2)] t(2,3) by (simp add: nd_ok_def netd_sync_links_def Let_def split_def)
  show "nd_ok sha1 lo (fst (start_dhcp_where_due w now nd))"
    using table_map [OF t(1), of "\<lambda>_ i. fst (start_dhcp i (nd_observed nd) now (w_dhcp_env w (announced_hostname nd) i))"] t(2)
    by (simp add: nd_ok_def start_dhcp_where_due_def iface_step.dhcp_due Let_def split_def comp_def)
  show "nd_ok sha1 lo nd'" if "start_ipv6_where_due w now nd = Some (nd', outs)"
    using that table_steps [OF t(1) ipv6_loop_all2] t(2) by (fastforce simp: nd_ok_def start_ipv6_where_due_def)
  show "nd_ok sha1 lo (fst (netd_reconcile_all w now nd k))"
    using t assms(1) by (auto simp: nd_ok_def netd_reconcile_all_def reconcile_all_def world_ok_def Let_def split: option.splits)
qed


lemma nd_ok_pass:
  assumes "world_ok sha1 lo w" "nd_ok sha1 lo nd" "converge_pass w now now' nd k = Some (nd', k', outs, changed)"
  shows "nd_ok sha1 lo nd'"
proof -
  define nd2 where "nd2 = fst (start_dhcp_where_due w now (fst (netd_sync_links w now (identify_networks w now nd))))"
  have "nd_ok sha1 lo nd2" unfolding nd2_def by (intro nd_ok_passes(1-3) assms(1,2))
  moreover obtain nd3 o3 where "start_ipv6_where_due w now nd2 = Some (nd3, o3)"
      "nd' = fst (netd_reconcile_all w now' nd3 k)"
    using assms(3) by (auto simp: converge_pass_def Let_def split_def nd2_def bind_eq_Some_conv)
  ultimately show ?thesis using nd_ok_passes(4,5) [OF assms(1)] by simp
qed

lemma nd_ok_loop:
  assumes "world_ok sha1 lo w"
  shows "converge_loop n w now nd k = Some (nd', k', outs) \<Longrightarrow> nd_ok sha1 lo nd \<Longrightarrow> nd_ok sha1 lo nd'"
proof (induction n arbitrary: nd k outs)
  case (Suc n)
  from Suc.prems(1) obtain nd1 k1 o1 ch where p: "converge_pass w now (w_clock w (Suc n)) nd k = Some (nd1, k1, o1, ch)"
    by (auto simp: bind_eq_Some_conv)
  then consider "nd' = nd1" | o2 where "converge_loop n w now nd1 k1 = Some (nd', k', o2)"
    using Suc.prems(1) by (cases ch) (auto simp: bind_eq_Some_conv)
  then show ?case using Suc.IH nd_ok_pass [OF assms Suc.prems(2) p] by cases blast+
qed simp

lemma announce_keeps:
  assumes "announce w nd = Some (nd', outs)"
  shows "nd_interfaces nd' = nd_interfaces nd" "nd_observed nd' = nd_observed nd"
proof -
  obtain nd1 o1 o2 where h: "netd_apply_hostname w nd = (nd1, o1)" and p: "publish w nd1 = Some (nd', o2)"
    using assms by (cases "netd_apply_hostname w nd") (auto simp: announce_def bind_eq_Some_conv)
  have "nd_interfaces nd1 = nd_interfaces nd" "nd_observed nd1 = nd_observed nd"
    using h by (auto simp: netd_apply_hostname_def Let_def split_def)
  with p show "nd_interfaces nd' = nd_interfaces nd" "nd_observed nd' = nd_observed nd"
    by (cases rule: publish_cases; simp)+
qed

lemma nd_ok_converge:
  assumes "world_ok sha1 lo w" "nd_ok sha1 lo nd" "converge w now nd k = Some (nd', k', outs)"
  shows "nd_ok sha1 lo nd'"
proof -
  obtain nd1 o1 o2 where l: "converge_loop 4 w now nd k = Some (nd1, k', o1)" and a: "announce w nd1 = Some (nd', o2)"
    using assms(3) by (auto simp: converge_def bind_eq_Some_conv)
  show ?thesis using nd_ok_loop [OF assms(1) l assms(2)] announce_keeps [OF a] by (simp add: nd_ok_def)
qed

lemma nd_ok_settle:
  assumes "world_ok sha1 lo w" "nd_ok sha1 lo nd" "settle w now c r nd k = Some (nd', k', outs)"
  shows "nd_ok sha1 lo nd'"
proof -
  let ?nd = "fst (netd_reconcile_all w (w_clock w 1) nd k)"
  consider "converge w now nd k = Some (nd', k', outs)" | "announce w ?nd = Some (nd', outs)" | "nd' = nd"
    using assms(3) by (auto simp: settle_def Let_def split_def split: if_splits)
  then show ?thesis
    using nd_ok_converge [OF assms(1,2)] announce_keeps [of w ?nd] nd_ok_passes(5) [OF assms(1,2)] assms(2)
    by cases (auto simp: nd_ok_def)
qed

lemma table_renew:
  assumes "table_ok sha1 lo (nd_interfaces nd)"
  shows "table_ok sha1 lo (nd_interfaces (fst (renew_request now nd name)))"
proof (cases "List.find (\<lambda>e. ln_name (if_link (snd e)) = name \<or> if_ifid (snd e) = name) (nd_interfaces nd)")
  case None
  then show ?thesis using assms by (simp add: renew_request_def)
next
  case (Some e)
  obtain index i where e: "e = (index, i)" by force
  have "(index, i) \<in> set (nd_interfaces nd)" using Some e by (auto simp: find_Some_iff)
  then have g: "good sha1 lo index i" using assms by (auto simp: table_ok_def list_all_iff)
  show ?thesis
  proof (cases "renew_iface now i")
    case None
    then show ?thesis using assms Some by (simp add: renew_request_def e)
  next
    case (Some r)
    from table_insert [OF assms good_step [OF g iface_step.renewed [OF Some]]] show ?thesis
      using Some \<open>List.find _ _ = Some e\<close> by (simp add: renew_request_def e split_def)
  qed
qed

lemma nd_ok_handle:
  assumes "world_ok sha1 lo w" "nd_ok sha1 lo nd" "handle_control w now nd k stream request = Some (nd', k', outs, reply)"
  shows "nd_ok sha1 lo nd'"
proof (cases "w_permits w (nd_control nd) stream (required_right request)")
  case None
  then show ?thesis using assms by (simp add: handle_control_def)
next
  case (Some caller)
  have obs: "nd_observed (fst (renew_request now nd i)) = nd_observed nd" for i
    by (auto simp: renew_request_def split: option.splits prod.splits)
  show ?thesis
  proof (cases request)
    case (ReqRenew i)
    then show ?thesis
      using assms Some table_renew [of sha1 lo nd now i] obs by (auto simp: nd_ok_def handle_control_def Let_def split_def)
  next
    case ReqReconcile
    then show ?thesis using assms Some nd_ok_converge [OF assms(1,2)] by (auto simp: handle_control_def)
  next
    case ReqSubscribe
    then show ?thesis
      using assms Some by (auto simp: nd_ok_def handle_control_def subscribe_request_def Let_def split: if_splits)
  qed (use assms Some in \<open>simp add: handle_control_def\<close>)
qed


lemma nd_ok_serve:
  assumes "world_ok sha1 lo (ti_world ti)"
  shows "serve_control ti n ss nd k cs = Some (nd', k', cs', outs) \<Longrightarrow> nd_ok sha1 lo nd \<Longrightarrow> nd_ok sha1 lo nd'"
proof (induction ss arbitrary: n nd k cs outs)
  case (Cons s ss)
  obtain fd slot where s: "s = (fd, slot)" by force
  let ?env = "w_control (ti_world ti)"
  show ?case
  proof (cases "ti_ready ti slot")
    case False
    then show ?thesis using Cons by (simp add: s)
  next
    case True
    then obtain cs1 r where v: "clients_service ?env (ti_read ti fd) (ti_write ti fd) fd (ti_clock ti n) cs = Some (cs1, r)"
      using Cons.prems(1) by (auto simp: s bind_eq_Some_conv)
    show ?thesis
    proof (cases r)
      case None
      then show ?thesis using Cons True v by (simp add: s)
    next
      case (Some sr)
      obtain stream request where r: "r = Some (stream, request)" using Some by force
      from Cons.prems(1) True v obtain nd1 k1 o1 reply cs2 o2 where
        h: "handle_control (ti_world ti) (ti_clock ti (n + 1)) nd k stream request = Some (nd1, k1, o1, reply)" and
        c: "serve_control ti (n + 3) ss nd1 k1 cs2 = Some (nd', k', cs', o2)"
        by (auto simp: s r bind_eq_Some_conv)
      show ?thesis using Cons.IH [OF c nd_ok_handle [OF assms Cons.prems(2) h]] .
    qed
  qed
qed simp

lemma reload_keeps:
  "nd_interfaces (fst (reload w fresh nd)) = nd_interfaces nd" "nd_observed (fst (reload w fresh nd)) = nd_observed nd"
  by (cases fresh; simp add: reload_adopts; simp add: reload_def)+

lemma nd_ok_gather:
  assumes "world_ok sha1 lo (ti_world ti)" "nd_ok sha1 lo (lp_netd lp)" "gather ti ps lp = Some (nd, watch, c, r, outs)"
  shows "nd_ok sha1 lo nd"
  using assms(3)
proof (cases rule: gather_parts)
  case (1 nd1 is2 is4 r2 r4)
  have "nd_ok sha1 lo (fst (drain_links ti (lp_kernel lp) (lp_netd lp)))"
    using assms(1,2) by (auto simp: drain_links_def nd_ok_def world_ok_def split: option.splits)
  moreover have "nd_interfaces (fst (reload_watch ti slot watch nd0)) = nd_interfaces nd0
      \<and> nd_observed (fst (reload_watch ti slot watch nd0)) = nd_observed nd0" for slot watch nd0
    by (auto simp: reload_watch_def Let_def split_def reload_keeps split: option.splits watch_read.splits bool.splits)
  ultimately have n: "nd_ok sha1 lo nd1" unfolding 1(1) nd_ok_def by simp
  have sha1: "w_sha1 (ti_world ti) = sha1" using assms(1) by (simp add: world_ok_def)
  have "table_ok sha1 lo is2"
    using table_receive_ndp [OF 1(2) [unfolded sha1] table_receive_dhcp] n by (simp add: nd_ok_def)
  then have "table_ok sha1 lo is4"
    using table_steps [OF table_receive_dhcp6 tick_all_all2 [OF 1(3)]] by blast
  then show ?thesis using n by (simp add: nd_ok_def 1(4))
qed

lemma nd_ok_turn:
  assumes "world_ok sha1 lo (ti_world ti)" "nd_ok sha1 lo (lp_netd lp)" "turn pe ti lp = Some (lp', outs)"
  shows "nd_ok sha1 lo (lp_netd lp')"
  using assms(3)
proof (cases rule: turn_parts)
  case (1 nd1 watch c r o1 nd2 k2 cs2 o2 o3)
  then show ?thesis
    using nd_ok_settle [OF assms(1) nd_ok_serve [OF assms(1) 1(2) nd_ok_gather [OF assms(1,2) 1(1)]] 1(3)] by simp
qed

section \<open>What holds of the running daemon's interfaces\<close>

lemma loop_run_nd_ok:
  assumes "loop_run W t lp h" and W: "\<And>w. W w \<Longrightarrow> world_ok sha1 lo w"
  shows "nd_ok sha1 lo (lp_netd lp)"
  using assms(1)
proof (induction rule: loop_run.induct)
  case (entered w k ob t config nd k' outs watch)
  have "nd_ok sha1 lo (netd_start w config ob)"
    using W [OF entered(1)] entered(2) by (simp add: nd_ok_def table_ok_def netd_start_def world_ok_def Let_def split_def)
  then show ?case using nd_ok_converge [OF W [OF entered(1)] _ entered(3)] by simp
next
  case (turned t lp h ti pe lp' outs t')
  then show ?case using nd_ok_turn [OF W [OF turned.hyps(2)] turned.IH turned.hyps(4)] by simp
qed

text \<open>
  C33: The event loop only ever takes steps of the interface layer.  Over every run of
  turns, on a kernel whose links do not turn from loopbacks into others, the table of
  interfaces stays in the order of its indices, every interface in it is one the
  interface layer can reach, so that all that is proved of those holds in the running
  daemon; clients run only on interfaces the rules join; and a loopback never has a
  client and never has anything planned for it.
\<close>

theorem loop_interfaces_sound:
  assumes "loop_run W t lp h" "digest_ok sha1" "\<And>w. W w \<Longrightarrow> world_ok sha1 lo w"
  shows "sorted_wrt (<) (map fst (nd_interfaces (lp_netd lp)))
    \<and> (\<forall>(index, i) \<in> set (nd_interfaces (lp_netd lp)).
          iface_reachable sha1 i
          \<and> (if_dhcp i \<noteq> None \<or> if_ndp i \<noteq> None \<or> if_dhcp6 i \<noteq> None \<longrightarrow>
               \<not> lo index \<and> (\<exists>p. jd_outcome (if_judged i) = Join p))
          \<and> (lo index \<longrightarrow> if_desired i now = None))"
proof -
  have n: "table_ok sha1 lo (nd_interfaces (lp_netd lp))" using loop_run_nd_ok [OF assms(1,3)] by (simp add: nd_ok_def)
  have "iface_reachable sha1 i
          \<and> (if_dhcp i \<noteq> None \<or> if_ndp i \<noteq> None \<or> if_dhcp6 i \<noteq> None \<longrightarrow>
               \<not> lo index \<and> (\<exists>p. jd_outcome (if_judged i) = Join p))
          \<and> (lo index \<longrightarrow> if_desired i now = None)" if "(index, i) \<in> set (nd_interfaces (lp_netd lp))" for index i
  proof -
    have g: "iface_reachable sha1 i" "ln_loopback (if_link i) = lo index"
      using n that by (auto simp: table_ok_def list_all_iff good_def)
    have "iface_inv i" using iface_reachable_inv [OF g(1) assms(2)] .
    with g show ?thesis
      by (auto simp: iface_inv_def ipv6_ok_def managed_def if_desired_def split: outcome.splits option.splits)
  qed
  then show ?thesis using bt_ok_sorted n unfolding table_ok_def by blast
qed


section \<open>Witness\<close>

definition ex_lo :: link where
  "ex_lo = ex_link\<lparr>ln_index := 1, ln_loopback := True\<rparr>"

definition ex_links :: observed where
  "ex_links = \<lparr>o_links = [(1, ex_lo)], o_addresses = [], o_routes = []\<rparr>"

definition lo_world :: "(nat, rstring, nat, nat) world" where
  "lo_world = ex_world\<lparr>w_sha1 := ex_sha1, w_dump := \<lambda>k. Some ex_links\<rparr>"

definition lo_iface :: iface where
  "lo_iface = fst (sync_link (\<lambda>f. judged_default) (new_iface ex_sha1 (\<lambda>name. \<lparr>id_path = [], id_driver = []\<rparr>) ex_lo) ex_lo 0)"

lemma lo_iface_fields:
  "if_link lo_iface = ex_lo" "if_dhcp lo_iface = None" "if_ndp lo_iface = None" "if_dhcp6 lo_iface = None" "managed lo_iface = False"
  "if_profile lo_iface = None"
  by (simp_all add: lo_iface_def sync_link_def new_iface_def has_carrier_def ex_lo_def ex_link_def managed_def if_profile_def Let_def
      stop_all_def stop_dhcp_def stop_ipv6_def judged_default_def)


definition lo_netd :: "nat netd" where
  "lo_netd = netd_start lo_world ex_config ex_links"

lemma lo_netd_fields:
  "nd_interfaces lo_netd = []" "nd_observed lo_netd = ex_links" "nd_config lo_netd = ex_config"
  "nd_last_snapshot lo_netd = None" "nd_last_level lo_netd = None" "nd_subscribers lo_netd = []"
  "nd_naming lo_netd = \<lparr>nm_set = None, nm_refused = None\<rparr>"
  by (simp_all add: lo_netd_def netd_start_def Let_def split_def)

lemma lo_world_fields:
  "w_sha1 lo_world = ex_sha1" "w_dump lo_world k = Some ex_links" "w_clock lo_world n = 0" "w_judge lo_world p f = judged_default"
  "w_read_identity lo_world = (\<lambda>name. \<lparr>id_path = [], id_driver = []\<rparr>)" "w_sethostname lo_world h = True"
  "ce_mp (w_control lo_world) = mp_ref"
  by (simp_all add: lo_world_def ex_world_def ex_control_env_def)

lemma lo_judge: "w_judge lo_world p = (\<lambda>f. judged_default)"
  by (rule ext) (simp add: lo_world_fields)

lemma lo_pass:
  "converge_loop 4 lo_world 0 lo_netd 0 = Some (lo_netd\<lparr>nd_interfaces := [(1, lo_iface)]\<rparr>, 0, [])"
proof -
  have s: "netd_sync_links lo_world 0 lo_netd = (lo_netd\<lparr>nd_interfaces := [(1, lo_iface)]\<rparr>, [])"
  proof -
    have o: "snd (sync_link (\<lambda>f. judged_default) (new_iface ex_sha1 (\<lambda>name. \<lparr>id_path = [], id_driver = []\<rparr>) ex_lo) ex_lo 0) = []"
      by (simp add: sync_link_def new_iface_def has_carrier_def ex_lo_def ex_link_def Let_def)
    have ix: "ln_index ex_lo = 1" by (simp add: ex_lo_def)
    show ?thesis
      by (simp add: netd_sync_links_def sync_links_def lo_netd_fields lo_world_fields lo_judge ex_links_def bt_retain_def
          sync_entry_def Let_def split_def o ix lo_iface_def)
  qed
  have l: "lo_netd\<lparr>nd_interfaces := []\<rparr> = lo_netd" using lo_netd_fields(1) by (metis netd.surjective netd.update_convs(6))
  show ?thesis
    by (simp add: numeral_eq_Suc converge_pass_def identify_networks_def bt_map_def lo_netd_fields l s
        start_dhcp_where_due_def start_dhcp_def start_ipv6_where_due_def start_ipv6_def lo_iface_fields
        netd_reconcile_all_def reconcile_all_def reconcile_one_def if_desired_def ex_lo_def lo_world_fields Let_def)
qed


lemma lo_started:
  "\<exists>nd outs. converge lo_world 0 lo_netd 0 = Some (nd, 0, outs) \<and> nd_interfaces nd = [(1, lo_iface)]"
proof -
  obtain bs where bs: "reply_encode mp_ref (ReplySnapshot \<lparr>sn_hostname = ''peios'', sn_scopes = []\<rparr>) = Some bs"
    using ex_encode [of "''peios''"] ex_name(1) by auto
  define nd1 where "nd1 = lo_netd\<lparr>nd_interfaces := [(1, lo_iface)], nd_naming := \<lparr>nm_set = Some ''peios'', nm_refused = None\<rparr>\<rparr>"
  have c: "cf_hostname ex_config = Some ''peios''" by (simp add: ex_config_def)
  have h: "netd_apply_hostname lo_world (lo_netd\<lparr>nd_interfaces := [(1, lo_iface)]\<rparr>) = (nd1, [SetHostname ''peios''])"
    by (simp add: nd1_def netd_apply_hostname_def apply_hostname_def c ex_name(2) lo_netd_fields lo_world_fields)
  have p: "\<exists>nd' o2. publish lo_world nd1 = Some (nd', o2) \<and> nd_interfaces nd' = [(1, lo_iface)]"
    using bs by (simp add: publish_def publish_level_def netd_snapshot_def snapshot_bytes_def Let_def nd1_def
        lo_netd_fields lo_world_fields lo_iface_fields)
  show ?thesis using p by (auto simp: converge_def lo_pass announce_def h)
qed

theorem loop_interfaces_sound_witness:
  "\<exists>lp h. loop_run (\<lambda>w. w = lo_world) 0 lp h \<and> nd_interfaces (lp_netd lp) = [(1, lo_iface)]
     \<and> iface_reachable ex_sha1 lo_iface \<and> if_desired lo_iface 0 = None"
proof -
  obtain nd outs where c: "converge lo_world 0 lo_netd 0 = Some (nd, 0, outs)" "nd_interfaces nd = [(1, lo_iface)]"
    using lo_started by blast
  let ?lp = "\<lparr>lp_netd = nd, lp_kernel = 0, lp_clients = [], lp_watch = None\<rparr>"
  have r: "loop_run (\<lambda>w. w = lo_world) 0 ?lp outs"
    by (rule loop_run.entered [OF refl lo_world_fields(2) c(1) [unfolded lo_netd_def]])
  have "world_ok ex_sha1 (\<lambda>index. index = 1) lo_world"
    by (simp add: world_ok_def lo_world_fields links_ok_def ex_links_def ex_lo_def)
  then have "\<forall>(index, i) \<in> set (nd_interfaces nd). iface_reachable ex_sha1 i \<and> (index = 1 \<longrightarrow> if_desired i 0 = None)"
    using loop_interfaces_sound [OF r ex_digest_ok, of "\<lambda>index. index = 1" 0] by fastforce
  then show ?thesis using r c(2) by (intro exI [of _ ?lp] exI [of _ outs]) simp
qed

end
