(* ===== verification/Inventory.thy ===== *)
theory Inventory
  imports Registry_Config Interface
begin

text \<open>
  What netd writes back to the registry and reads from it
  (\<^verbatim>\<open>src/netd/src/inventory.rs\<close>): the record of an interface, the record of a network, the
  machine's readiness, and the identifiers it shares with the operator.

  The registry is outside.  It is modelled by its values, keyed by the path of the key
  and the name of the value; which keys open and which writes and deletions succeed is
  an argument.  What a call writes is logged, so that a call that writes nothing can be
  told from one that writes the same again.  The protection of a new \<^verbatim>\<open>Status\<close> key and
  the journal are left out.
\<close>

section \<open>Reading back an address\<close>

text \<open>\<^verbatim>\<open>Ipv4Addr::from_str\<close>.\<close>

definition parse_ipv4 :: "rstring \<Rightarrow> ipv4 option" where
  "parse_ipv4 s =
     (if 15 < length s then None
      else (case read_ipv4_addr s of
              Some (ks, r) \<Rightarrow> if r = [] then Some (ipv4_of_octets ks) else None
            | None \<Rightarrow> None))"

lemma decimal_digit:
  assumes "n < 10"
  shows "to_digit 10 (hex_digit n) = Some n" "hex_digit n = CHR ''0'' \<longleftrightarrow> n = 0"
proof -
  have k: "ascii_code (hex_digit n) = 48 + n" using assms by (simp add: hex_digit_def ascii_code_def)
  then show "to_digit 10 (hex_digit n) = Some n"
    using assms by (simp add: to_digit_def is_ascii_digit_def Let_def)
  have "ascii_code CHR ''0'' = 48" by (simp add: ascii_code_def)
  moreover have "hex_digit 0 = CHR ''0''" by code_simp
  ultimately show "hex_digit n = CHR ''0'' \<longleftrightarrow> n = 0" using k by auto
qed

lemma nat_text_value: "digits_value 10 (nat_text n) = n"
proof (induction n rule: nat_text.induct)
  case (1 n)
  then show ?case
    by (subst nat_text.simps) (auto simp: digits_value_def decimal_digit)
qed

lemma nat_text_digits: "list_all (\<lambda>c. to_digit 10 c \<noteq> None) (nat_text n)"
proof (induction n rule: nat_text.induct)
  case (1 n)
  then show ?case by (subst nat_text.simps) (auto simp: decimal_digit)
qed

lemma nat_text_head: "nat_text n \<noteq> [] \<and> (hd (nat_text n) = CHR ''0'' \<longleftrightarrow> n = 0)"
proof (induction n rule: nat_text.induct)
  case (1 n)
  then show ?case by (subst (1 2) nat_text.simps) (auto simp: decimal_digit)
qed

lemma nat_text_length: "n < 1000 \<Longrightarrow> length (nat_text n) \<le> 3"
  by (simp add: nat_text.simps [of n] nat_text.simps [of "n div 10"] nat_text.simps [of "n div 10 div 10"])

lemma read_octet:
  assumes "n < 256" "rest = [] \<or> to_digit 10 (hd rest) = None"
  shows "read_number 10 3 False 256 (nat_text n @ rest) = Some (n, rest)"
proof -
  have t: "takeWhile (\<lambda>c. to_digit 10 c \<noteq> None) (nat_text n @ rest) = nat_text n"
    using nat_text_digits [of n] assms(2)
    by (cases rest) (auto simp: takeWhile_append2 list_all_iff)
  have "1 < length (nat_text n) \<Longrightarrow> n \<noteq> 0" by (cases "n = 0") (simp_all add: nat_text.simps [of 0])
  then show ?thesis
    using nat_text_head [of n] nat_text_value [of n] nat_text_length [of n] assms(1)
    unfolding read_number_def Let_def t by auto
qed

lemma ipv4_text_parses: "parse_ipv4 (ipv4_text a) = Some a"
proof -
  obtain b c d e where o: "octets4 a = [b, c, d, e]"
    using length_octets(1) [of a] by (auto simp: length_Suc_conv numeral_eq_Suc simp del: length_octets)
  have lt: "unat (x :: u8) < 256" for x using unsigned_less [of x, where ?'a = nat] by simp
  have four: "(4 :: nat) = Suc (Suc (Suc (Suc 0)))" by simp
  have dot: "to_digit 10 CHR ''.'' = None" by code_simp
  have shape: "ipv4_text a = nat_text (unat b) @ ''.'' @ nat_text (unat c) @ ''.'' @ nat_text (unat d) @ ''.'' @ nat_text (unat e)"
    by (simp add: ipv4_text_def o)
  have "read_ipv4_addr (ipv4_text a) = Some ([unat b, unat c, unat d, unat e], [])"
    unfolding read_ipv4_addr_def four
    by (simp add: shape read_separator_def read_octet lt dot read_octet [of _ "[]", simplified])
  moreover have "length (ipv4_text a) \<le> 15"
    using nat_text_length [of "unat b"] nat_text_length [of "unat c"] nat_text_length [of "unat d"] nat_text_length [of "unat e"]
      lt [of b] lt [of c] lt [of d] lt [of e] by (simp add: shape)
  moreover have "ipv4_of_octets [unat b, unat c, unat d, unat e] = a"
    using ipv4_of_octets4 [of a] by (simp add: o ipv4_of_octets_def ipv4_of_def u32_of_def be_nat_def del: ipv4_of_octets4)
  ultimately show ?thesis by (simp add: parse_ipv4_def)
qed

section \<open>Keys and values\<close>

type_synonym reg_path = "rstring list"

datatype reg_change = SetValue reg_path rstring value_type bytes | DeleteValue reg_path rstring

text \<open>The registry's values, and the changes made to them, the latest first.\<close>

record registry =
  rg_value :: "reg_path \<Rightarrow> rstring \<Rightarrow> (value_type \<times> bytes) option"
  rg_log :: "reg_change list"

record reg_env =
  rv_opens :: "reg_path \<Rightarrow> bool"
  rv_sets :: "reg_path \<Rightarrow> rstring \<Rightarrow> bool"
  rv_deletes :: "reg_path \<Rightarrow> rstring \<Rightarrow> bool"

definition NETWORK_KEY :: rstring where "NETWORK_KEY = ''Machine'' @ [CHR 0x5C] @ ''System'' @ [CHR 0x5C] @ ''Network''"

definition set_value :: "reg_env \<Rightarrow> reg_path \<Rightarrow> rstring \<Rightarrow> value_type \<Rightarrow> bytes \<Rightarrow> registry \<Rightarrow> registry" where
  "set_value env key name ty data rg =
     (if rv_sets env key name
      then \<lparr>rg_value = (rg_value rg)(key := (rg_value rg key)(name := Some (ty, data))),
            rg_log = SetValue key name ty data # rg_log rg\<rparr>
      else rg)"

definition delete_value :: "reg_env \<Rightarrow> reg_path \<Rightarrow> rstring \<Rightarrow> registry \<Rightarrow> registry" where
  "delete_value env key name rg =
     (if rv_deletes env key name
      then \<lparr>rg_value = (rg_value rg)(key := (rg_value rg key)(name := None)), rg_log = DeleteValue key name # rg_log rg\<rparr>
      else rg)"

definition reg_current :: "registry \<Rightarrow> reg_path \<Rightarrow> rstring \<Rightarrow> rstring option" where
  "reg_current rg key name =
     (case rg_value rg key name of
        None \<Rightarrow> None
      | Some (ty, data) \<Rightarrow> from_utf8 (before_nul data))"

definition set_sz :: "reg_env \<Rightarrow> reg_path \<Rightarrow> rstring \<Rightarrow> rstring \<Rightarrow> registry \<Rightarrow> registry" where
  "set_sz env key name value rg =
     (if reg_current rg key name = Some value then rg
      else set_value env key name REG_SZ (as_bytes value @ [0]) rg)"

definition multi_bytes :: "rstring list \<Rightarrow> bytes" where
  "multi_bytes values = concat (map (\<lambda>v. as_bytes v @ [0]) values) @ [0]"

definition set_multi :: "reg_env \<Rightarrow> reg_path \<Rightarrow> rstring \<Rightarrow> rstring list \<Rightarrow> registry \<Rightarrow> registry" where
  "set_multi env key name values rg =
     (if rg_value rg key name = Some (REG_MULTI_SZ, multi_bytes values) then rg
      else set_value env key name REG_MULTI_SZ (multi_bytes values) rg)"

definition set_opt_sz :: "reg_env \<Rightarrow> reg_path \<Rightarrow> rstring \<Rightarrow> rstring option \<Rightarrow> registry \<Rightarrow> registry" where
  "set_opt_sz env key name value rg =
     (case value of
        Some v \<Rightarrow> set_sz env key name v rg
      | None \<Rightarrow> if reg_current rg key name \<noteq> None then delete_value env key name rg else rg)"

text \<open>\<^verbatim>\<open>open_or_create\<close> and the keys built on it: each ancestor in turn.\<close>

definition open_or_create :: "reg_env \<Rightarrow> reg_path \<Rightarrow> rstring \<Rightarrow> reg_path option" where
  "open_or_create env parent name = (if rv_opens env (parent @ [name]) then Some (parent @ [name]) else None)"

definition status_key :: "reg_env \<Rightarrow> reg_path \<Rightarrow> reg_path option" where
  "status_key env parent = open_or_create env parent ''Status''"

definition network_key :: "reg_env \<Rightarrow> reg_path option" where
  "network_key env = open_or_create env [] NETWORK_KEY"

definition interface_key :: "reg_env \<Rightarrow> rstring \<Rightarrow> reg_path option" where
  "interface_key env ifid =
     Option.bind (network_key env) (\<lambda>network.
     Option.bind (open_or_create env network ''Interfaces'') (\<lambda>interfaces. open_or_create env interfaces ifid))"

definition networks_key :: "reg_env \<Rightarrow> rstring \<Rightarrow> reg_path option" where
  "networks_key env nid =
     Option.bind (network_key env) (\<lambda>network.
     Option.bind (open_or_create env network ''Networks'') (\<lambda>networks. open_or_create env networks nid))"

section \<open>The record of an interface\<close>

record interface_record =
  ir_ifid :: rstring
  ir_link :: link
  ir_identity :: identity
  ir_verdict :: "rstring option"
  ir_rule :: "rstring option"
  ir_profile :: "rstring option"
  ir_readiness :: "level option"
  ir_network :: "rstring option"

definition nonempty :: "rstring option \<Rightarrow> rstring option" where
  "nonempty s = (case s of Some v \<Rightarrow> if v = [] then None else s | None \<Rightarrow> None)"

definition inventory_sync :: "reg_env \<Rightarrow> interface_record \<Rightarrow> registry \<Rightarrow> registry" where
  "inventory_sync env r rg =
     (case Option.bind (interface_key env (ir_ifid r)) (status_key env) of
        None \<Rightarrow> rg
      | Some status \<Rightarrow>
          (let rg = set_sz env status ''Name'' (ln_name (ir_link r)) rg;
               rg = set_sz env status ''Kind'' (link_kind_as_str (ln_kind (ir_link r))) rg;
               rg = set_opt_sz env status ''Mac'' (map_option format_mac (ln_mac (ir_link r))) rg;
               rg = set_opt_sz env status ''Path'' (nonempty (Some (id_path (ir_identity r)))) rg;
               rg = set_opt_sz env status ''Driver'' (nonempty (Some (id_driver (ir_identity r)))) rg;
               rg = set_opt_sz env status ''Verdict'' (ir_verdict r) rg;
               rg = set_opt_sz env status ''Rule'' (ir_rule r) rg;
               rg = set_opt_sz env status ''Profile'' (ir_profile r) rg;
               rg = set_opt_sz env status ''Readiness'' (map_option level_as_str (ir_readiness r)) rg;
               rg = set_opt_sz env status ''Network'' (ir_network r) rg
           in case ir_network r of Some network \<Rightarrow> set_sz env status ''LastNetwork'' network rg | None \<Rightarrow> rg))"

section \<open>Identifiers and networks\<close>

text \<open>\<open>generated\<close> is what the closure would return; it has no effect of its own but on the state file.\<close>

definition inventory_client_id :: "reg_env \<Rightarrow> rstring \<Rightarrow> bytes \<Rightarrow> registry \<Rightarrow> bytes \<times> registry" where
  "inventory_client_id env ifid generated rg =
     (let key = interface_key env ifid
      in case Option.bind (Option.bind key (\<lambda>k. reg_current rg k ''ClientId'')) parse_hex of
           Some (b # bs) \<Rightarrow> (b # bs, rg)
         | _ \<Rightarrow> (generated, case key of Some k \<Rightarrow> set_sz env k ''ClientId'' (format_hex generated) rg | None \<Rightarrow> rg))"

definition last_network :: "reg_env \<Rightarrow> rstring \<Rightarrow> registry \<Rightarrow> rstring option" where
  "last_network env ifid rg =
     Option.bind (Option.bind (interface_key env ifid) (status_key env)) (\<lambda>status.
       nonempty (reg_current rg status ''LastNetwork''))"

definition inventory_duid :: "reg_env \<Rightarrow> bytes option \<Rightarrow> bytes \<Rightarrow> registry \<Rightarrow> bytes \<times> registry" where
  "inventory_duid env configured generated rg =
     (case configured of
        Some d \<Rightarrow> (d, rg)
      | None \<Rightarrow>
          (generated,
           case network_key env of Some network \<Rightarrow> set_sz env network ''Duid'' (format_hex generated) rg | None \<Rightarrow> rg))"

definition machine_readiness :: "reg_env \<Rightarrow> level \<Rightarrow> registry \<Rightarrow> registry" where
  "machine_readiness env l rg =
     (case network_key env of Some network \<Rightarrow> set_sz env network ''Readiness'' (level_as_str l) rg | None \<Rightarrow> rg)"

definition network_prefixes :: "signals \<Rightarrow> rstring list" where
  "network_prefixes s =
     (case sg_subnet s of Some (net, p) \<Rightarrow> [ipv4_text net @ ''/'' @ nat_text (unat p)] | None \<Rightarrow> [])
     @ map (\<lambda>(net, p). ipv6_text net @ ''/'' @ nat_text (unat p)) (sg_prefixes6 s)"

definition network_status :: "reg_env \<Rightarrow> reg_path \<Rightarrow> signals \<Rightarrow> rstring \<Rightarrow> int \<Rightarrow> registry \<Rightarrow> registry" where
  "network_status env status s last_interface now_secs rg =
     (let rg = set_sz env status ''Kind'' (sg_kind s) rg;
          rg = set_opt_sz env status ''Server'' (map_option ipv4_text (sg_server s)) rg;
          rg = set_opt_sz env status ''Gateway'' (map_option ipv4_text (sg_gateway s)) rg;
          rg = set_opt_sz env status ''Router'' (map_option ipv6_text (sg_router6 s)) rg;
          rg = set_multi env status ''Prefixes'' (network_prefixes s) rg;
          rg = set_multi env status ''DnsServers'' (map ip_text (sg_dns s)) rg;
          rg = set_sz env status ''LastSeen'' (int_text now_secs) rg
      in set_sz env status ''LastInterface'' last_interface rg)"

definition inventory_network_sync ::
    "reg_env \<Rightarrow> rstring \<Rightarrow> signals \<Rightarrow> rstring \<Rightarrow> int \<Rightarrow> registry \<Rightarrow> network \<times> registry" where
  "inventory_network_sync env nid s last_interface now_secs rg =
     (let record = \<lparr>nw_id = nid, nw_name = None, nw_trust = None, nw_requested_address = None\<rparr>
      in case networks_key env nid of
           None \<Rightarrow> (record, rg)
         | Some key \<Rightarrow>
             (record\<lparr>nw_name := nonempty (reg_current rg key ''Name''),
                     nw_trust := nonempty (reg_current rg key ''Trust''),
                     nw_requested_address := Option.bind (reg_current rg key ''RequestedAddress'') parse_ipv4\<rparr>,
              case status_key env key of
                Some status \<Rightarrow> network_status env status s last_interface now_secs rg
              | None \<Rightarrow> rg))"

definition requested_address :: "reg_env \<Rightarrow> rstring \<Rightarrow> registry \<Rightarrow> ipv4 option" where
  "requested_address env nid rg =
     Option.bind (networks_key env nid) (\<lambda>key. Option.bind (reg_current rg key ''RequestedAddress'') parse_ipv4)"

definition set_requested_address :: "reg_env \<Rightarrow> rstring \<Rightarrow> ipv4 \<Rightarrow> registry \<Rightarrow> registry" where
  "set_requested_address env nid a rg =
     (case networks_key env nid of Some key \<Rightarrow> set_sz env key ''RequestedAddress'' (ipv4_text a) rg | None \<Rightarrow> rg)"


section \<open>What a write leaves\<close>

definition plain_text :: "rstring \<Rightarrow> bool" where
  "plain_text s = (from_utf8 (as_bytes s) = Some s \<and> list_all (\<lambda>b. b \<noteq> 0) (as_bytes s))"

lemma plain_reads: "plain_text s \<Longrightarrow> from_utf8 (before_nul (as_bytes s @ [0])) = Some s"
  by (simp add: plain_text_def before_nul_def takeWhile_append2 list_all_iff)

text \<open>Every value of a list of names, set or removed; the order is the order of the calls.\<close>

definition put_all :: "reg_env \<Rightarrow> reg_path \<Rightarrow> (rstring \<times> rstring option) list \<Rightarrow> registry \<Rightarrow> registry" where
  "put_all env key fs rg = foldl (\<lambda>rg (name, value). set_opt_sz env key name value rg) rg fs"

lemma put_all_simps [simp]:
  "put_all env key [] rg = rg"
  "put_all env key ((n, v) # fs) rg = put_all env key fs (set_opt_sz env key n v rg)"
  by (simp_all add: put_all_def)

definition writable :: "reg_env \<Rightarrow> reg_path \<Rightarrow> bool" where
  "writable env key \<longleftrightarrow> (\<forall>name. rv_sets env key name \<and> rv_deletes env key name)"

lemma set_opt_current:
  assumes "writable env key" "pred_option plain_text v"
  shows "reg_current (set_opt_sz env key n v rg) key m = (if m = n then v else reg_current rg key m)"
  using assms plain_reads
  by (cases v) (auto simp: set_opt_sz_def set_sz_def set_value_def delete_value_def reg_current_def writable_def
      split: option.splits)

lemma set_opt_elsewhere: "key' \<noteq> key \<Longrightarrow> rg_value (set_opt_sz env key n v rg) key' = rg_value rg key'"
  by (cases v) (auto simp: set_opt_sz_def set_sz_def set_value_def delete_value_def)

lemma set_opt_settled: "reg_current rg key n = v \<Longrightarrow> set_opt_sz env key n v rg = rg"
  by (cases v) (simp_all add: set_opt_sz_def set_sz_def)

lemma put_all_current:
  assumes "writable env key" "list_all (\<lambda>(n, v). pred_option plain_text v) fs" "distinct (map fst fs)"
  shows "reg_current (put_all env key fs rg) key m
    = (case map_of fs m of Some v \<Rightarrow> v | None \<Rightarrow> reg_current rg key m)"
  using assms
proof (induction fs arbitrary: rg)
  case (Cons f fs)
  obtain n v where f: "f = (n, v)" by (cases f)
  have "map_of fs n = None" using Cons.prems(3) by (simp add: f map_of_eq_None_iff)
  then show ?case using Cons.IH [of "set_opt_sz env key n v rg"] Cons.prems
    by (auto simp: f set_opt_current split: option.splits)
qed simp

lemma put_all_elsewhere: "key' \<noteq> key \<Longrightarrow> rg_value (put_all env key fs rg) key' = rg_value rg key'"
  by (induction fs arbitrary: rg) (auto simp: set_opt_elsewhere)

lemma put_all_settled: "list_all (\<lambda>(n, v). reg_current rg key n = v) fs \<Longrightarrow> put_all env key fs rg = rg"
  by (induction fs) (auto simp: set_opt_settled)

lemma put_all_holds:
  assumes "writable env key" "list_all (\<lambda>(n, v). pred_option plain_text v) fs" "distinct (map fst fs)"
  shows "list_all (\<lambda>(n, v). reg_current (put_all env key fs rg) key n = v) fs"
  using put_all_current [OF assms] assms(3) by (auto simp: list_all_iff)

lemma set_opt_plain: "set_sz env key n v = set_opt_sz env key n (Some v)"
  by (rule ext) (simp add: set_opt_sz_def)

section \<open>An interface's record\<close>

definition record_values :: "interface_record \<Rightarrow> (rstring \<times> rstring option) list" where
  "record_values r =
     [(''Name'', Some (ln_name (ir_link r))),
      (''Kind'', Some (link_kind_as_str (ln_kind (ir_link r)))),
      (''Mac'', map_option format_mac (ln_mac (ir_link r))),
      (''Path'', nonempty (Some (id_path (ir_identity r)))),
      (''Driver'', nonempty (Some (id_driver (ir_identity r)))),
      (''Verdict'', ir_verdict r), (''Rule'', ir_rule r), (''Profile'', ir_profile r),
      (''Readiness'', map_option level_as_str (ir_readiness r)), (''Network'', ir_network r)]"

definition record_fields :: "interface_record \<Rightarrow> (rstring \<times> rstring option) list" where
  "record_fields r =
     record_values r @ (case ir_network r of Some n \<Rightarrow> [(''LastNetwork'', Some n)] | None \<Rightarrow> [])"

definition record_plain :: "interface_record \<Rightarrow> bool" where
  "record_plain r = list_all (\<lambda>(n, v). pred_option plain_text v) (record_values r)"

lemma sync_puts:
  assumes "Option.bind (interface_key env (ir_ifid r)) (status_key env) = Some status"
  shows "inventory_sync env r = put_all env status (record_fields r)"
  by (rule ext) (simp add: inventory_sync_def assms record_fields_def record_values_def set_opt_plain Let_def
      split: option.splits)

lemma record_fields_ok:
  "distinct (map fst (record_fields r))"
  "record_plain r \<Longrightarrow> list_all (\<lambda>(n, v). pred_option plain_text v) (record_fields r)"
  by (auto simp: record_fields_def record_plain_def record_values_def split: option.splits)

lemma last_network_field:
  "map_of (record_fields r) ''LastNetwork'' = map_option Some (ir_network r)"
  by (simp add: record_fields_def record_values_def split: option.splits)

lemma sync_last_network:
  assumes "Option.bind (interface_key env (ir_ifid r)) (status_key env) = Some status"
    and "writable env status" "record_plain r"
  shows "reg_current (inventory_sync env r rg) status ''LastNetwork''
    = (case ir_network r of Some n \<Rightarrow> Some n | None \<Rightarrow> reg_current rg status ''LastNetwork'')"
  by (simp add: sync_puts [OF assms(1)] put_all_current [OF assms(2) record_fields_ok(2) [OF assms(3)] record_fields_ok(1)]
      last_network_field split: option.splits)



section \<open>What netd remembers\<close>

lemma plain_ascii:
  assumes "list_all (\<lambda>c. 0 < ascii_code c \<and> ascii_code c < 128) s"
  shows "plain_text s"
proof -
  have "ord c < 0x80 \<and> ord c \<noteq> 0" if "0 < ascii_code c" "ascii_code c < 128" for c
  proof -
    have "unat (ord c) = ascii_code c" using that by (simp add: ord_def ascii_code_def unat_of_nat)
    with that show ?thesis by (auto simp: word_less_nat_alt)
  qed
  then show ?thesis
    using assms from_utf8_ascii [of "as_bytes s"]
    by (simp add: plain_text_def list_all_iff as_bytes_def of_bytes_def comp_def)
qed

lemma hex_digit_code: "n < 16 \<Longrightarrow> 0 < ascii_code (hex_digit n) \<and> ascii_code (hex_digit n) < 128"
  by (simp add: hex_digit_def ascii_code_def)

lemma nat_text_code: "list_all (\<lambda>c. 0 < ascii_code c \<and> ascii_code c < 128) (nat_text n)"
proof (induction n rule: nat_text.induct)
  case (1 n)
  then show ?case by (subst nat_text.simps) (simp add: hex_digit_code)
qed

lemma plain_format_hex: "plain_text (format_hex bs)"
proof -
  have "list_all (\<lambda>c. 0 < ascii_code c \<and> ascii_code c < 128) (hex2 b)" for b
  proof -
    have "unat b div 16 < 16" using unsigned_less [of b, where ?'a = nat] by (simp add: less_mult_imp_div_less)
    then show ?thesis by (simp add: hex2_def hex_digit_code)
  qed
  then have "list_all (\<lambda>c. 0 < ascii_code c \<and> ascii_code c < 128) (join_with '':'' (map hex2 bs))"
    by (induction bs rule: induct_list012) (simp_all add: ascii_code_def)
  then show ?thesis unfolding format_hex_def by (rule plain_ascii)
qed

lemma plain_ipv4_text: "plain_text (ipv4_text a)"
proof (rule plain_ascii)
  have "list_all (\<lambda>c. 0 < ascii_code c \<and> ascii_code c < 128) (join_with ''.'' (map (nat_text \<circ> unat) bs))" for bs :: bytes
    by (induction bs rule: induct_list012) (simp_all add: nat_text_code, simp_all add: ascii_code_def)
  then show "list_all (\<lambda>c. 0 < ascii_code c \<and> ascii_code c < 128) (ipv4_text a)"
    by (simp add: ipv4_text_def comp_def)
qed

lemma set_sz_reads: "rv_sets env key n \<Longrightarrow> plain_text v \<Longrightarrow> reg_current (set_sz env key n v rg) key n = Some v"
  using plain_reads by (simp add: set_sz_def set_value_def reg_current_def)

lemma set_sz_elsewhere: "key' \<noteq> key \<Longrightarrow> rg_value (set_sz env key n v rg) key' = rg_value rg key'"
  by (simp add: set_sz_def set_value_def)

lemma set_multi_elsewhere: "key' \<noteq> key \<Longrightarrow> rg_value (set_multi env key n v rg) key' = rg_value rg key'"
  by (simp add: set_multi_def set_value_def)

lemma status_below: "status_key env key = Some status \<Longrightarrow> key \<noteq> status"
  by (auto simp: status_key_def open_or_create_def split: if_splits)

text \<open>Refreshing a network's record leaves the operator's own key of the network alone.\<close>

lemma network_sync_below:
  assumes "networks_key env nid = Some key"
  shows "rg_value (snd (inventory_network_sync env nid s li now rg)) key = rg_value rg key"
  using assms status_below
  by (auto simp: inventory_network_sync_def network_status_def Let_def set_opt_elsewhere set_sz_elsewhere set_multi_elsewhere
      split: option.splits)

lemma client_id_again:
  assumes "interface_key env ifid = Some key" "rv_sets env key ''ClientId''" "generated \<noteq> []"
  shows "inventory_client_id env ifid generated' (snd (inventory_client_id env ifid generated rg))
    = inventory_client_id env ifid generated rg"
proof -
  note reads = set_sz_reads [OF assms(2) plain_format_hex, of generated rg]
  from assms hex_roundtrip [OF assms(3)] reads show ?thesis
    by (auto simp: inventory_client_id_def Let_def neq_Nil_conv split: option.splits list.splits)
qed

lemma syncs_keep_last_network:
  assumes "Option.bind (interface_key env ifid) (status_key env) = Some status" "writable env status"
    and "list_all (\<lambda>r. ir_ifid r = ifid \<and> ir_network r = None \<and> record_plain r) rs"
  shows "reg_current (fold (inventory_sync env) rs rg) status ''LastNetwork'' = reg_current rg status ''LastNetwork''"
  using assms(3)
proof (induction rs arbitrary: rg)
  case (Cons r rs)
  then show ?case using sync_last_network [of env r status rg] assms(1,2) by simp
qed simp



section \<open>An example\<close>

definition ex_registry :: "reg_env" where
  "ex_registry = \<lparr>rv_opens = \<lambda>k. True, rv_sets = \<lambda>k n. True, rv_deletes = \<lambda>k n. True\<rparr>"

definition ex_record :: "rstring option \<Rightarrow> interface_record" where
  "ex_record network = \<lparr>ir_ifid = ''i0'',
     ir_link = \<lparr>ln_index = 2, ln_name = ''eth0'', ln_mac = None, ln_up = True, ln_carrier = True,
                ln_loopback = False, ln_mtu = 1500, ln_link_type = 1, ln_kind = Ether\<rparr>,
     ir_identity = \<lparr>id_path = ''pci0'', id_driver = []\<rparr>, ir_verdict = Some ''JOIN'', ir_rule = None,
     ir_profile = None, ir_readiness = Some Routed, ir_network = network\<rparr>"

definition ex_empty :: registry where
  "ex_empty = \<lparr>rg_value = \<lambda>k n. None, rg_log = []\<rparr>"

abbreviation ex_status :: reg_path where
  "ex_status \<equiv> [NETWORK_KEY, ''Interfaces'', ''i0'', ''Status'']"

lemma ex_keys:
  "interface_key ex_registry ''i0'' = Some [NETWORK_KEY, ''Interfaces'', ''i0'']"
  "status_key ex_registry [NETWORK_KEY, ''Interfaces'', ''i0''] = Some ex_status"
  "networks_key ex_registry ''n0'' = Some [NETWORK_KEY, ''Networks'', ''n0'']"
  "rv_sets ex_registry k n" "writable ex_registry k"
  by (simp_all add: interface_key_def status_key_def networks_key_def network_key_def open_or_create_def
      ex_registry_def writable_def)

lemma ex_plain: "record_plain (ex_record None)" "record_plain (ex_record (Some ''n0''))"
  by (simp_all add: record_plain_def record_values_def ex_record_def nonempty_def plain_ascii ascii_code_def)



end
