(* ===== verification/Spec2Isabelle.thy ===== *)
theory Spec2Isabelle
  imports Loop_Interfaces Inventory
begin

text \<open>
  Verification of \<^verbatim>\<open>netd\<close>, the network daemon.
\<close>

section \<open>From a lease to readiness\<close>

lemma observed_address:
  assumes "converged (view_of ob) d" "(a, x) \<in> set (d_addresses d)" "\<not> v4_is_loopback a"
  shows "list_ex address_usable (addresses_of ob (d_index d))"
proof -
  have "address_new (d_index d) (V4 a) x \<in> set (want_addresses d)"
    using assms(2) by (force simp: set_want_addresses)
  with assms(1) have "address_new (d_index d) (V4 a) x \<in> kv_addresses (view_of ob)"
    unfolding converged_def by blast
  then obtain y where y: "y \<in> set (o_addresses ob)" "erase_tentative y = address_new (d_index d) (V4 a) x"
    by (auto simp: view_of_def)
  then have "a_index y = d_index d" "a_address y = V4 a"
    by (auto simp: erase_tentative_def address_new_def elim: address.cases dest: arg_cong [of _ _ a_index] arg_cong [of _ _ a_address])
  with y(1) assms(3) show ?thesis
    by (auto simp: list_ex_iff addresses_of_def address_usable_def)
qed

lemma observed_default_route:
  assumes "converged (view_of ob) d" "d_default_route d = Some (g, m)"
  shows "list_ex route_is_default (routes_of ob (d_index d))"
proof -
  have "default_route_of (d_index d) (V4 0) (V4 g) m \<in> set (want_routes d)"
    using assms(2) by (simp add: want_routes_def)
  with assms(1) have "default_route_of (d_index d) (V4 0) (V4 g) m \<in> set (o_routes ob)"
    unfolding converged_def by (auto simp: view_of_def)
  then show ?thesis by (force simp: list_ex_iff routes_of_def route_is_default_def default_route_of_def)
qed


lemma ref_kernel_no_failure: "\<exists>k'. apply_ops ref_kernel k ops = (k', 0)"
proof (induction ops arbitrary: k)
  case (Cons op ops)
  obtain k1 r where k1: "ref_kernel k op = (k1, r)" by force
  obtain k' where "apply_ops ref_kernel k1 ops = (k', 0)" using Cons by blast
  moreover have "r = Some e \<Longrightarrow> benign op e" for e using k1 by (cases op) (auto split: if_splits)
  ultimately show ?case using k1 by (auto split: option.split)
qed simp


end
